(* ===== verification/Prelude.thy ===== *)
theory Prelude
  imports Main "HOL-Library.Word"
begin

text \<open>
  Shared vocabulary of the development: the C integer types the sources use, errno values,
  the bounded history \<open>last_n\<close> that specifies the circular buffer and the driver, and
  the generic lemmas on lists and words that the component theories rely on. The collections
  \<open>c_defs\<close> (definitions of the C and kernel library layer) and \<open>wrap_simps\<close>
  (how unsigned arithmetic reads as arithmetic on naturals) are filled by the theories that
  own the facts.
\<close>

named_theorems c_defs \<open>definitions of the modelled library layer\<close>
named_theorems wrap_simps \<open>unsigned machine arithmetic, read on the naturals\<close>

section \<open>C types and constants\<close>

type_synonym u8 = "8 word"
type_synonym u32 = "32 word"
type_synonym size_t = "64 word"
type_synonym loff_t = "64 word"
type_synonym bytes = "char list"

abbreviation newline :: char where
  "newline \<equiv> CHR 0x0A"

abbreviation nul :: char where
  "nul \<equiv> CHR 0x00"

abbreviation (input) EINTR :: int where "EINTR \<equiv> 4"
abbreviation (input) ENOMEM :: int where "ENOMEM \<equiv> 12"
abbreviation (input) EFAULT :: int where "EFAULT \<equiv> 14"
abbreviation (input) EINVAL :: int where "EINVAL \<equiv> 22"
abbreviation (input) ERESTARTSYS :: int where "ERESTARTSYS \<equiv> 512"

definition INT_MAX :: nat where
  "INT_MAX = 2 ^ 31 - 1"

section \<open>Unsigned arithmetic on naturals\<close>

lemma unat_size_t_bound: "unat (a :: size_t) < 2 ^ 64"
  using unsigned_less [of a] by simp

lemma unat_add_size_t [wrap_simps]:
  fixes a b :: size_t
  assumes "unat a + unat b < 2 ^ 64"
  shows "unat (a + b) = unat a + unat b"
  using assms by (simp add: unat_word_ariths)

lemma unat_diff_size_t [wrap_simps]:
  fixes a b :: size_t
  assumes "unat b \<le> unat a"
  shows "unat (a - b) = unat a - unat b"
  using assms by (simp add: unat_sub word_le_nat_alt)

lemma unat_of_nat_size_t [wrap_simps]: "n < 2 ^ 64 \<Longrightarrow> unat (word_of_nat n :: size_t) = n"
  by (simp add: unat_of_nat take_bit_nat_eq_self)

lemma unat_of_nat_u8 [wrap_simps]: "n < 256 \<Longrightarrow> unat (word_of_nat n :: u8) = n"
  by (simp add: unat_of_nat take_bit_nat_eq_self)

lemma sint_small_size_t [wrap_simps]:
  fixes a :: size_t
  assumes "unat a < 2 ^ 63"
  shows "sint a = int (unat a)"
proof -
  have *: "uint a = int (unat a)" by (rule uint_nat)
  have "uint a < 2 ^ 63" using assms unfolding * by (metis of_nat_less_iff of_nat_numeral of_nat_power)
  then have "signed_take_bit 63 (uint a) = uint a"
    by (intro signed_take_bit_int_eq_self) (auto intro: order_trans [OF _ uint_ge_0])
  then show ?thesis unfolding * [symmetric] by (simp add: sint_uint)
qed

section \<open>Bounded histories\<close>

definition last_n :: "nat \<Rightarrow> 'a list \<Rightarrow> 'a list" where
  "last_n k xs = drop (length xs - k) xs"

lemma length_last_n [simp]: "length (last_n k xs) = min k (length xs)"
  by (simp add: last_n_def)

lemma last_n_short [simp]: "length xs \<le> k \<Longrightarrow> last_n k xs = xs"
  by (simp add: last_n_def)

lemma last_n_Nil [simp]: "last_n k [] = []"
  by (simp add: last_n_def)

lemma last_n_map: "last_n k (map f xs) = map f (last_n k xs)"
  by (simp add: last_n_def drop_map)

lemma set_last_n_subset: "set (last_n k xs) \<subseteq> set xs"
  by (simp add: last_n_def set_drop_subset)

lemma last_n_snoc_full:
  "length xs = k \<Longrightarrow> 0 < k \<Longrightarrow> last_n k (xs @ [x]) = tl xs @ [x]"
  by (cases xs) (simp_all add: last_n_def)

lemma last_n_last_n_snoc:
  assumes "0 < k"
  shows "last_n k (last_n k xs @ [x]) = last_n k (xs @ [x])"
proof (cases "length xs < k")
  case True
  then show ?thesis by (simp add: last_n_def)
next
  case False
  with assms show ?thesis
    by (simp add: last_n_def Suc_diff_le)
qed

lemma last_n_append_last_n:
  assumes "0 < k"
  shows "last_n k (last_n k xs @ ys) = last_n k (xs @ ys)"
  using assms
proof (induction ys rule: rev_induct)
  case Nil
  then show ?case by (simp add: last_n_def)
next
  case (snoc y ys)
  from snoc have IH: "last_n k (last_n k xs @ ys) = last_n k (xs @ ys)" by blast
  have "last_n k (last_n k xs @ ys @ [y]) = last_n k (last_n k (last_n k xs @ ys) @ [y])"
    using last_n_last_n_snoc [OF assms, of "last_n k xs @ ys" y] by simp
  also have "\<dots> = last_n k (xs @ ys @ [y])"
    using last_n_last_n_snoc [OF assms, of "xs @ ys" y] by (simp add: IH)
  finally show ?case .
qed

lemma rotate_overwrite_oldest:
  assumes "k < length xs"
  shows "rotate (Suc k) (xs[k := e]) = tl (rotate k xs) @ [e]"
proof -
  have upd: "rotate k (xs[k := e]) = e # drop (Suc k) xs @ take k xs"
    using assms by (simp add: rotate_drop_take Cons_nth_drop_Suc [symmetric])
  have old: "rotate k xs = xs ! k # drop (Suc k) xs @ take k xs"
    using assms by (simp add: rotate_drop_take Cons_nth_drop_Suc)
  have "rotate (Suc k) (xs[k := e]) = rotate1 (rotate k (xs[k := e]))"
    by simp
  then show ?thesis by (simp add: upd old)
qed

section \<open>Loops that may fail\<close>

fun ofold :: "('s \<Rightarrow> 'e \<Rightarrow> 's option) \<Rightarrow> 's \<Rightarrow> 'e list \<Rightarrow> 's option" where
  "ofold f s [] = Some s"
| "ofold f s (e # es) = Option.bind (f s e) (\<lambda>s'. ofold f s' es)"

lemma ofold_append: "ofold f s (xs @ ys) = Option.bind (ofold f s xs) (\<lambda>s'. ofold f s' ys)"
  by (induction xs arbitrary: s) (simp_all add: Option.bind_assoc)

text \<open>
  A provider of bounded histories: whatever is added, the last \<open>cap\<close> items stay, oldest
  first, and no addition fails.
\<close>

locale bounded_history =
  fixes hinv :: "'b \<Rightarrow> bool"
    and items :: "'b \<Rightarrow> 'e list"
    and add :: "'b \<Rightarrow> 'e \<Rightarrow> 'b option"
    and start :: 'b
    and cap :: nat
  assumes cap_pos: "0 < cap"
    and inv_start: "hinv start"
    and items_start: "items start = []"
    and add_step: "hinv b \<Longrightarrow> \<exists>b'. add b e = Some b' \<and> hinv b' \<and> items b' = last_n cap (items b @ [e])"
begin

lemma run_from:
  "hinv b \<Longrightarrow> length (items b) \<le> cap \<Longrightarrow>
     \<exists>b'. ofold add b es = Some b' \<and> hinv b' \<and> items b' = last_n cap (items b @ es)"
proof (induction es arbitrary: b)
  case Nil
  then show ?case by simp
next
  case (Cons e es)
  from add_step [OF Cons.prems(1), of e] obtain b1
    where b1: "add b e = Some b1" "hinv b1" "items b1 = last_n cap (items b @ [e])" by blast
  from b1(3) have "length (items b1) \<le> cap" by simp
  from Cons.IH [OF b1(2) this] b1 show ?case
    using last_n_append_last_n [OF cap_pos, of "items b @ [e]" es] by simp
qed

lemma run_start: "\<exists>b'. ofold add start es = Some b' \<and> hinv b' \<and> items b' = last_n cap es"
  using run_from [OF inv_start, of es] by (simp add: items_start)

lemma run_length: "ofold add start es = Some b \<Longrightarrow> length (items b) = min cap (length es)"
  using run_start [of es] by auto

end

section \<open>Blocks laid end to end\<close>

text \<open>
  \<open>locate sizes n\<close> finds the block that holds byte \<open>n\<close> of the concatenation of
  blocks of the given sizes: its index and the offset of the byte inside it.
\<close>

fun locate :: "nat list \<Rightarrow> nat \<Rightarrow> (nat \<times> nat) option" where
  "locate [] n = None"
| "locate (x # xs) n =
     (if n < x then Some (0, n)
      else map_option (\<lambda>(i, k). (Suc i, k)) (locate xs (n - x)))"

lemma locate_None_iff: "locate xs n = None \<longleftrightarrow> sum_list xs \<le> n"
  by (induction xs n rule: locate.induct) auto

lemma locate_zeros [simp]: "locate (replicate m 0) n = None"
  by (simp add: locate_None_iff sum_list_replicate)

lemma locate_append_zeros: "locate (xs @ replicate m 0) n = locate xs n"
  by (induction xs n rule: locate.induct) auto

lemma locate_SomeD:
  "locate xs n = Some (i, k) \<Longrightarrow>
     i < length xs \<and> k < xs ! i \<and> n = sum_list (take i xs) + k"
proof (induction xs n arbitrary: i rule: locate.induct)
  case (1 n)
  then show ?case by simp
next
  case (2 x xs n)
  then show ?case by (cases i) (fastforce split: if_splits)+
qed

lemma drop_concat_at:
  assumes "i < length xs" and "k \<le> length (xs ! i)"
  shows "drop (length (concat (take i xs)) + k) (concat xs) = drop k (xs ! i) @ concat (drop (Suc i) xs)"
proof -
  have "concat xs = concat (take i xs) @ xs ! i @ concat (drop (Suc i) xs)"
    using assms(1) by (metis concat.simps(2) concat_append id_take_nth_drop)
  then show ?thesis using assms(2) by (simp only: drop_append) simp
qed

lemma locate_concat:
  assumes "locate (map length xs) n = Some (i, k)"
  shows "drop n (concat xs) = drop k (xs ! i) @ concat (drop (Suc i) xs)"
    and "i < length xs" and "k < length (xs ! i)"
proof -
  from locate_SomeD [OF assms] have i: "i < length xs" and k: "k < length (xs ! i)"
    and n: "n = length (concat (take i xs)) + k"
    by (auto simp: length_concat take_map)
  show "drop n (concat xs) = drop k (xs ! i) @ concat (drop (Suc i) xs)"
    unfolding n by (rule drop_concat_at) (use i k in auto)
  show "i < length xs" and "k < length (xs ! i)" by fact+
qed

section \<open>Computations of the user programs\<close>

text \<open>
  How a computation can end without a result: it waits for something that has not happened (input
  that has not arrived, a mutex that is held), or it makes an access the C standard gives no meaning
  to.
\<close>

datatype stop = Blocked | Undefined

type_synonym 'a comp = "stop + 'a"

fun andThen :: "'a comp \<Rightarrow> ('a \<Rightarrow> 'b comp) \<Rightarrow> 'b comp" where
  "andThen (Inl e) f = Inl e"
| "andThen (Inr x) f = f x"

lemma andThen_Inr_iff: "andThen c f = Inr y \<longleftrightarrow> (\<exists>x. c = Inr x \<and> f x = Inr y)"
  by (cases c) auto

lemma andThen_assoc: "andThen (andThen c f) g = andThen c (\<lambda>x. andThen (f x) g)"
  by (cases c) auto

section \<open>Pointers\<close>

text \<open>
  A kernel pointer: NULL, the distinguished non-NULL result of allocating zero bytes, or the
  address of an allocated block.
\<close>

datatype ptr = NULL | ZERO_SIZE_PTR | Ptr nat

end
