(* ===== verification/Read_Line.thy ===== *)
theory Read_Line
  imports Prelude
begin

text \<open>
  The line reader \<open>server/read_line.c\<close>. The descriptor is the sequence of answers its
  one-byte \<open>read\<close> calls will get: a byte, end of file, or minus one with an errno. When the
  answers run out the call waits (\<open>Blocked\<close>). The buffer is the caller's array; storing
  outside it is \<open>Undefined\<close>. The reader returns its value, errno, the array and the answers
  that are left.
\<close>

section \<open>The reader\<close>

datatype sys_read = RByte char | REof | RErr int

type_synonym read_line_result = "int \<times> int \<times> bytes \<times> sys_read list"

text \<open>\<open>*buf = c\<close> where \<open>buf\<close> points \<open>i\<close> bytes into the array.\<close>

definition store_byte :: "bytes \<Rightarrow> size_t \<Rightarrow> char \<Rightarrow> bytes comp" where
  "store_byte arr i c = (if unat i < length arr then Inr (arr[unat i := c]) else Inl Undefined)"

text \<open>The \<open>break\<close> out of the loop.\<close>

definition read_line_finish :: "bytes \<Rightarrow> size_t \<Rightarrow> int \<Rightarrow> sys_read list \<Rightarrow> read_line_result comp" where
  "read_line_finish arr totRead errno fd =
     andThen (store_byte arr totRead nul) (\<lambda>arr'. Inr (sint totRead, errno, arr', fd))"

fun read_line_loop :: "sys_read list \<Rightarrow> bytes \<Rightarrow> size_t \<Rightarrow> size_t \<Rightarrow> int \<Rightarrow> read_line_result comp" where
  "read_line_loop [] arr n totRead errno = Inl Blocked"
| "read_line_loop (RErr e # fd) arr n totRead errno =
     (if e = EINTR then read_line_loop fd arr n totRead e
      else Inr (- 1, e, arr, fd))"
| "read_line_loop (REof # fd) arr n totRead errno =
     (if totRead = 0 then Inr (0, errno, arr, fd)
      else read_line_finish arr totRead errno fd)"
| "read_line_loop (RByte ch # fd) arr n totRead errno =
     (if totRead < n - 1 then
        andThen (store_byte arr totRead ch) (\<lambda>arr'.
          if ch = newline then read_line_finish arr' (totRead + 1) errno fd
          else read_line_loop fd arr' n (totRead + 1) errno)
      else if ch = newline then read_line_finish arr totRead errno fd
      else read_line_loop fd arr n totRead errno)"

definition read_line :: "sys_read list \<Rightarrow> bytes option \<Rightarrow> size_t \<Rightarrow> int \<Rightarrow> read_line_result comp" where
  "read_line fd buffer n errno =
     (case buffer of
        None \<Rightarrow> Inr (- 1, EINVAL, [], fd)
      | Some arr \<Rightarrow>
          if n \<le> 0 then Inr (- 1, EINVAL, arr, fd)
          else read_line_loop fd arr n 0 errno)"

section \<open>Reference: the bytes of a line\<close>

text \<open>
  \<open>quiet fd bs\<close>: the answers are the bytes \<open>bs\<close>, with interrupted calls in between.
\<close>

definition quiet :: "sys_read list \<Rightarrow> bytes \<Rightarrow> bool" where
  "quiet fd bs \<longleftrightarrow> filter (\<lambda>r. r \<noteq> RErr EINTR) fd = map RByte bs"

text \<open>The array after the line \<open>bs\<close> has been delivered into it.\<close>

definition delivered :: "bytes \<Rightarrow> size_t \<Rightarrow> bytes \<Rightarrow> bytes" where
  "delivered arr n bs = (let t = take (unat n - 1) bs in t @ nul # drop (length t + 1) arr)"

lemma quiet_Nil [simp]: "quiet [] bs \<longleftrightarrow> bs = []"
  by (auto simp: quiet_def)

lemma quiet_EINTR [simp]: "quiet (RErr e # fd) bs \<longleftrightarrow> e = EINTR \<and> quiet fd bs"
  by (auto simp: quiet_def)

lemma quiet_EOF [simp]: "\<not> quiet (REof # fd) bs"
  by (auto simp: quiet_def)

lemma quiet_RByte [simp]: "quiet (RByte c # fd) bs \<longleftrightarrow> (\<exists>bs'. bs = c # bs' \<and> quiet fd bs')"
  by (cases bs) (auto simp: quiet_def)

lemma quiet_append: "quiet fd1 bs1 \<Longrightarrow> quiet fd2 bs2 \<Longrightarrow> quiet (fd1 @ fd2) (bs1 @ bs2)"
  by (simp add: quiet_def)

lemma quiet_bytes [simp]: "quiet (map RByte bs) bs"
  by (induction bs) simp_all

section \<open>The loop over a prefix\<close>

text \<open>What the loop has stored after the bytes \<open>bs\<close>, none of which is a newline.\<close>

definition stored :: "bytes \<Rightarrow> size_t \<Rightarrow> nat \<Rightarrow> bytes \<Rightarrow> bytes" where
  "stored arr n k bs = (let t = take (unat n - 1 - k) bs in take k arr @ t @ drop (k + length t) arr)"

definition counted :: "size_t \<Rightarrow> nat \<Rightarrow> bytes \<Rightarrow> nat" where
  "counted n k bs = k + min (unat n - 1 - k) (length bs)"

definition errno_after :: "sys_read list \<Rightarrow> int \<Rightarrow> int" where
  "errno_after fd errno = (if RErr EINTR \<in> set fd then EINTR else errno)"

lemma stored_Nil [simp]: "stored arr n k [] = arr"
  by (simp add: stored_def)

lemma stored_full: "unat n - 1 \<le> k \<Longrightarrow> stored arr n k bs = arr"
  by (simp add: stored_def)

lemma stored_Cons:
  assumes "k < unat n - 1" and "k < length arr"
  shows "stored (arr[k := c]) n (Suc k) bs = stored arr n k (c # bs)"
proof -
  have "unat n - 1 - k = Suc (unat n - 1 - Suc k)" using assms(1) by simp
  then show ?thesis using assms(2)
    by (simp add: stored_def Let_def take_Suc_conv_app_nth)
qed

lemma length_stored [simp]: "k + length bs \<le> length arr \<or> unat n \<le> length arr \<Longrightarrow> k \<le> length arr \<Longrightarrow>
    length (stored arr n k bs) = length arr"
  by (auto simp: stored_def Let_def)

lemma counted_simps [simp]:
  "counted n k [] = k" "k < unat n - 1 \<Longrightarrow> counted n k (c # bs) = counted n (Suc k) bs"
  by (auto simp: counted_def)

lemma counted_full: "unat n - 1 \<le> k \<Longrightarrow> counted n k bs = k"
  by (simp add: counted_def)

lemma counted_le: "k \<le> unat n - 1 \<Longrightarrow> counted n k bs \<le> unat n - 1"
  by (auto simp: counted_def)

lemma unat_pred: "0 < n \<Longrightarrow> unat ((n :: size_t) - 1) = unat n - 1"
  by (subst unat_diff_size_t) (simp_all add: word_less_nat_alt)

lemma read_line_loop_prefix:
  assumes n: "0 < n" "unat n \<le> length arr"
  shows "quiet pre bs \<Longrightarrow> newline \<notin> set bs \<Longrightarrow> unat tot \<le> unat n - 1 \<Longrightarrow> unat n \<le> length arr \<Longrightarrow>
    read_line_loop (pre @ rest) arr n tot errno =
      read_line_loop rest (stored arr n (unat tot) bs) n (word_of_nat (counted n (unat tot) bs)) (errno_after pre errno)"
proof (induction pre arbitrary: bs arr tot errno)
  case Nil
  then show ?case by (simp add: errno_after_def)
next
  case (Cons r pre)
  show ?case
  proof (cases r)
    case (RByte c)
    with Cons.prems obtain bs' where bs: "bs = c # bs'" "quiet pre bs'" "c \<noteq> newline" "newline \<notin> set bs'" by auto
    have errno: "errno_after (RByte c # pre) errno = errno_after pre errno" by (simp add: errno_after_def)
    show ?thesis
    proof (cases "tot < n - 1")
      case True
      then have lt: "unat tot < unat n - 1" using unat_pred [OF n(1)] by (simp add: word_less_nat_alt)
      have s: "unat (tot + 1) = Suc (unat tot)"
        using lt unat_size_t_bound [of n] by (subst unat_add_size_t) simp_all
      have len: "unat n \<le> length (arr[unat tot := c])" "unat tot < length arr" using Cons.prems(4) lt by simp_all
      have "read_line_loop ((r # pre) @ rest) arr n tot errno =
          read_line_loop (pre @ rest) (arr[unat tot := c]) n (tot + 1) errno"
        using True bs(3) len(2) by (simp add: RByte store_byte_def)
      also have "\<dots> = read_line_loop rest (stored arr n (unat tot) bs) n (word_of_nat (counted n (unat tot) bs))
          (errno_after pre errno)"
        using Cons.IH [OF bs(2,4) _ len(1), of "tot + 1" errno] lt Cons.prems(4)
        by (simp add: s stored_Cons bs(1))
      finally show ?thesis by (simp add: errno RByte)
    next
      case False
      then have ge: "unat n - 1 \<le> unat tot" using unat_pred [OF n(1)] by (simp add: word_less_nat_alt)
      show ?thesis
        using False bs Cons.IH [OF bs(2,4) Cons.prems(3,4), of errno]
        by (simp add: RByte errno stored_full [OF ge] counted_full [OF ge])
    qed
  next
    case REof
    then show ?thesis using Cons.prems by simp
  next
    case (RErr e)
    then have "e = EINTR" "quiet pre bs" using Cons.prems by simp_all
    with Cons.IH [OF this(2) Cons.prems(2-4), of e] show ?thesis
      by (simp add: RErr errno_after_def)
  qed
qed

section \<open>The four ways a call goes\<close>

lemma stored_delivered:
  assumes "unat n \<le> length arr" and "0 < n"
  shows "(stored arr n 0 bs)[counted n 0 bs := nul] = delivered arr n bs"
proof -
  have "unat n > 0" using assms(2) by (simp add: word_less_nat_alt)
  then show ?thesis using assms(1)
    by (auto simp: stored_def delivered_def counted_def Let_def list_update_append min_def
        Cons_nth_drop_Suc [symmetric])
qed

lemma counted_word:
  assumes "0 < n"
  shows "unat (word_of_nat (counted n 0 bs) :: size_t) = counted n 0 bs"
  using counted_le [of 0 n bs] unat_size_t_bound [of n] by (intro unat_of_nat_size_t) simp

lemma read_line_finish_counted:
  assumes n: "0 < n" "unat n \<le> length arr" "unat n \<le> 2 ^ 63"
  shows "read_line_finish (stored arr n 0 bs) (word_of_nat (counted n 0 bs)) errno fd =
    Inr (int (min (unat n - 1) (length bs)), errno, delivered arr n bs, fd)"
proof -
  have c: "counted n 0 bs = min (unat n - 1) (length bs)" by (simp add: counted_def)
  have pos: "0 < unat n" using n(1) by (simp add: word_less_nat_alt)
  have "counted n 0 bs < length (stored arr n 0 bs)" using n(2) pos by (simp add: c)
  moreover have "sint (word_of_nat (counted n 0 bs) :: size_t) = int (counted n 0 bs)"
  proof -
    have "counted n 0 bs < 2 ^ 63" using n(3) pos unfolding c by linarith
    then show ?thesis using sint_small_size_t [of "word_of_nat (counted n 0 bs)"] by (simp add: counted_word [OF n(1)])
  qed
  ultimately show ?thesis
    by (simp add: read_line_finish_def store_byte_def counted_word [OF n(1)] stored_delivered [OF n(2,1)])
      (simp add: c)
qed

lemma read_line_prefix:
  assumes "quiet pre bs" and "newline \<notin> set bs" and "0 < n" and "unat n \<le> length arr"
  shows "read_line (pre @ rest) (Some arr) n errno =
    read_line_loop rest (stored arr n 0 bs) n (word_of_nat (counted n 0 bs)) (errno_after pre errno)"
  using read_line_loop_prefix [OF assms(3,4,1,2) _ assms(4), of 0 rest errno] assms(3)
  by (auto simp: read_line_def)

lemma read_line_blocks:
  assumes "quiet pre bs" and "newline \<notin> set bs" and "0 < n" and "unat n \<le> length arr"
  shows "read_line pre (Some arr) n errno = Inl Blocked"
  using read_line_prefix [OF assms, of "[]"] by simp

lemma read_line_fails:
  assumes "quiet pre bs" and "newline \<notin> set bs" and "0 < n" and "unat n \<le> length arr" and "e \<noteq> EINTR"
  shows "read_line (pre @ RErr e # rest) (Some arr) n errno = Inr (- 1, e, stored arr n 0 bs, rest)"
  using read_line_prefix [OF assms(1-4), of "RErr e # rest"] assms(5) by simp

lemma read_line_eof:
  assumes "quiet pre bs" and "newline \<notin> set bs" and n: "0 < n" "unat n \<le> length arr" "unat n \<le> 2 ^ 63"
  shows "read_line (pre @ REof # rest) (Some arr) n errno =
    (if bs = [] \<or> n = 1 then Inr (0, errno_after pre errno, arr, rest)
     else Inr (int (min (unat n - 1) (length bs)), errno_after pre errno, delivered arr n bs, rest))"
proof -
  have z: "word_of_nat (counted n 0 bs) = (0 :: size_t) \<longleftrightarrow> bs = [] \<or> n = 1"
  proof -
    have "word_of_nat (counted n 0 bs) = (0 :: size_t) \<longleftrightarrow> counted n 0 bs = 0"
      using counted_word [OF n(1), of bs] unat_eq_zero [of "word_of_nat (counted n 0 bs) :: size_t"] by simp
    moreover have "unat n - 1 = 0 \<longleftrightarrow> n = 1"
      using n(1) by (auto simp: word_less_nat_alt word_unat_eq_iff)
    ultimately show ?thesis by (auto simp: counted_def min_def split: if_splits)
  qed
  have "stored arr n 0 bs = arr" if "bs = [] \<or> n = 1"
    using that by (auto simp: stored_full)
  then show ?thesis
    using read_line_prefix [OF assms(1-4), of "REof # rest"] by (simp add: z read_line_finish_counted [OF n])
qed

lemma read_line_newline:
  assumes pre: "quiet pre bs" "newline \<notin> set bs" and n: "0 < n" "unat n \<le> length arr" "unat n \<le> 2 ^ 63"
  shows "read_line (pre @ RByte newline # rest) (Some arr) n errno =
    Inr (int (min (unat n - 1) (Suc (length bs))), errno_after pre errno, delivered arr n (bs @ [newline]), rest)"
proof -
  let ?c = "counted n 0 bs" and ?a = "stored arr n 0 bs" and ?bs = "bs @ [newline]"
  have lt: "(word_of_nat ?c :: size_t) < n - 1 \<longleftrightarrow> ?c < unat n - 1"
    by (simp add: word_less_nat_alt counted_word [OF n(1)] unat_pred [OF n(1)])
  show ?thesis
  proof (cases "?c < unat n - 1")
    case True
    then have c: "?c = length bs" "counted n 0 ?bs = Suc ?c" by (auto simp: counted_def)
    have "?c < length ?a" using True n(2) by simp
    moreover have "?a[?c := newline] = stored arr n 0 ?bs"
      using True n(2) c by (auto simp: stored_def counted_def Let_def list_update_append
          upd_conv_take_nth_drop Cons_nth_drop_Suc)
    moreover have "(word_of_nat ?c :: size_t) + 1 = word_of_nat (counted n 0 ?bs)" by (simp add: c(2))
    ultimately show ?thesis
      using read_line_prefix [OF pre n(1,2), of "RByte newline # rest"] True
      by (simp add: lt store_byte_def counted_word [OF n(1)] read_line_finish_counted [OF n, of ?bs, simplified])
  next
    case False
    then have "unat n - 1 \<le> length bs" by (auto simp: counted_def)
    then have "delivered arr n ?bs = delivered arr n bs" by (simp add: delivered_def)
    with False \<open>unat n - 1 \<le> length bs\<close> show ?thesis
      using read_line_prefix [OF pre n(1,2), of "RByte newline # rest"]
      by (simp add: lt read_line_finish_counted [OF n])
  qed
qed

section \<open>Properties\<close>

text \<open>
  C8: a call whose descriptor delivers, between any number of interrupted reads, bytes without a
  newline and then a newline returns the number of bytes of the line including its newline, at
  most \<open>n - 1\<close>, with exactly these bytes and a terminating null in the buffer, the rest of
  the array untouched and nothing read beyond the newline. At end of file it returns the unfinished
  line the same way, or 0 with the array untouched when there is none (or no room for a byte). Any
  other error gives minus one with its errno, and with no further input the call waits.
\<close>

theorem read_line_outcomes:
  assumes "quiet pre bs" and "newline \<notin> set bs" and "0 < n" and "unat n \<le> length arr" and "unat n \<le> 2 ^ 63"
    and "e \<noteq> EINTR"
  shows "read_line (pre @ RByte newline # rest) (Some arr) n errno =
      Inr (int (min (unat n - 1) (Suc (length bs))), errno_after pre errno, delivered arr n (bs @ [newline]), rest) \<and>
    read_line (pre @ REof # rest) (Some arr) n errno =
      (if bs = [] \<or> n = 1 then Inr (0, errno_after pre errno, arr, rest)
       else Inr (int (min (unat n - 1) (length bs)), errno_after pre errno, delivered arr n bs, rest)) \<and>
    (\<exists>arr'. read_line (pre @ RErr e # rest) (Some arr) n errno = Inr (- 1, e, arr', rest)) \<and>
    read_line pre (Some arr) n errno = Inl Blocked"
  using read_line_newline [OF assms(1-5)] read_line_eof [OF assms(1-5)] read_line_fails [OF assms(1-4,6)]
    read_line_blocks [OF assms(1-4)] by simp

theorem read_line_outcomes_witness:
  "read_line ([RByte CHR ''h'', RErr EINTR, RByte CHR ''i''] @ [RByte newline, RByte CHR ''x'']) (Some ''........'') 8 0 =
      Inr (3, EINTR, ''hi'' @ [newline, nul] @ ''....'', [RByte CHR ''x'']) \<and>
   read_line ([RByte CHR ''h'', RErr EINTR, RByte CHR ''i''] @ [REof]) (Some ''........'') 8 0 =
      Inr (2, EINTR, ''hi'' @ [nul] @ ''.....'', [])"
  using read_line_outcomes [of "[RByte CHR ''h'', RErr EINTR, RByte CHR ''i'']" "''hi''" 8 "''........''" 5
      "[RByte CHR ''x'']" 0]
    read_line_outcomes [of "[RByte CHR ''h'', RErr EINTR, RByte CHR ''i'']" "''hi''" 8 "''........''" 5 "[]" 0]
  by (simp add: errno_after_def delivered_def)

text \<open>
  The reader never stores outside a buffer of \<open>n\<close> bytes, whatever the descriptor answers,
  and rejects a missing buffer and \<open>n = 0\<close> with \<open>EINVAL\<close> without reading.
\<close>

lemma read_line_stays_in_buffer:
  "(unat n \<le> length arr \<longrightarrow> read_line fd (Some arr) n errno \<noteq> Inl Undefined) \<and>
   read_line fd None n errno = Inr (- 1, EINVAL, [], fd) \<and>
   read_line fd (Some arr) 0 errno = Inr (- 1, EINVAL, arr, fd)"
proof -
  have "read_line_loop fd arr n tot errno \<noteq> Inl Undefined"
    if "0 < n" "unat tot \<le> unat n - 1" "unat n \<le> length arr" for tot errno arr
    using that
  proof (induction fd arr n tot errno rule: read_line_loop.induct)
    case (4 ch fd arr n tot errno)
    show ?case
    proof (cases "tot < n - 1")
      case True
      then have lt: "unat tot < unat n - 1" using unat_pred [OF 4(3)] by (simp add: word_less_nat_alt)
      then have "unat (tot + 1) = Suc (unat tot)"
        using unat_size_t_bound [of n] by (subst unat_add_size_t) simp_all
      then show ?thesis using True lt 4 by (auto simp: store_byte_def read_line_finish_def)
    next
      case False
      then show ?thesis using 4 by (auto simp: store_byte_def read_line_finish_def word_less_nat_alt)
    qed
  qed (auto simp: store_byte_def read_line_finish_def word_less_nat_alt)
  from this [of 0] show ?thesis by (auto simp: read_line_def word_neq_0_conv)
qed

end
