(* ===== verification/Circular_Buffer.thy ===== *)
theory Circular_Buffer
  imports Prelude
begin

text \<open>
  The circular buffer of the character driver (\<open>aesd-char-driver/aesd-circular-buffer.c\<close>
  and \<open>.h\<close>): ten entries, an insertion index, an extraction index and a full flag, all at
  the widths of the C struct. The list \<open>cb_list\<close> of the stored entries, oldest first, is
  the abstract view: adding an entry keeps the last ten, and the lookup by character offset is
  \<open>locate\<close> on the sizes of that list. An array access out of range is the value \<open>None\<close>.
\<close>

section \<open>State\<close>

abbreviation (input) AESDCHAR_MAX_WRITE_OPERATIONS_SUPPORTED :: nat where
  "AESDCHAR_MAX_WRITE_OPERATIONS_SUPPORTED \<equiv> 10"

record aesd_buffer_entry =
  buffptr :: ptr
  esize :: size_t

record aesd_circular_buffer =
  cb_entry :: "aesd_buffer_entry list"
  cb_in_offs :: u8
  cb_out_offs :: u8
  cb_full :: bool

section \<open>Operations\<close>

text \<open>The byte pattern that \<open>memset(.., 0, ..)\<close> leaves in an entry.\<close>

definition zero_entry :: aesd_buffer_entry where
  "zero_entry = \<lparr>buffptr = NULL, esize = 0\<rparr>"

definition aesd_circular_buffer_init :: aesd_circular_buffer where
  "aesd_circular_buffer_init =
     \<lparr>cb_entry = replicate AESDCHAR_MAX_WRITE_OPERATIONS_SUPPORTED zero_entry,
      cb_in_offs = 0, cb_out_offs = 0, cb_full = False\<rparr>"

text \<open>
  The search loop. \<open>i\<close> is the loop counter, \<open>current_length\<close> the bytes skipped so far;
  both sums are of type \<open>size_t\<close> and wrap. The result is the index of the entry in the array
  (the returned pointer) and the value stored through \<open>entry_offset_byte_rtn\<close>.
\<close>

function find_entry_loop ::
    "aesd_circular_buffer \<Rightarrow> size_t \<Rightarrow> nat \<Rightarrow> size_t \<Rightarrow> (nat \<times> size_t) option" where
  "find_entry_loop buffer char_offset i current_length =
     (if i < AESDCHAR_MAX_WRITE_OPERATIONS_SUPPORTED then
        let entry_index = (unat (cb_out_offs buffer) + i) mod AESDCHAR_MAX_WRITE_OPERATIONS_SUPPORTED;
            entry = cb_entry buffer ! entry_index
        in if current_length + esize entry > char_offset
           then Some (entry_index, char_offset - current_length)
           else find_entry_loop buffer char_offset (Suc i) (current_length + esize entry)
      else None)"
  by pat_completeness auto
termination
  by (relation "measure (\<lambda>(buffer, char_offset, i, current_length).
      AESDCHAR_MAX_WRITE_OPERATIONS_SUPPORTED - i)") auto

declare find_entry_loop.simps [simp del]

definition aesd_circular_buffer_find_entry_offset_for_fpos ::
    "aesd_circular_buffer option \<Rightarrow> size_t \<Rightarrow> bool \<Rightarrow> (nat \<times> size_t) option" where
  "aesd_circular_buffer_find_entry_offset_for_fpos buffer char_offset rtn_is_null =
     (case buffer of
        None \<Rightarrow> None
      | Some b \<Rightarrow> if rtn_is_null then None else find_entry_loop b char_offset 0 0)"

text \<open>
  Adding an entry. The array store at \<open>in_offs\<close> is undefined outside the ten slots; the
  index arithmetic is done in \<open>int\<close> and truncated back to \<open>uint8_t\<close>.
\<close>

definition aesd_circular_buffer_add_entry ::
    "aesd_circular_buffer \<Rightarrow> aesd_buffer_entry \<Rightarrow> aesd_circular_buffer option" where
  "aesd_circular_buffer_add_entry buffer add_entry =
     (if unat (cb_in_offs buffer) < length (cb_entry buffer) then
        let b1 = buffer\<lparr>cb_entry := (cb_entry buffer)[unat (cb_in_offs buffer) := add_entry]\<rparr>;
            b2 = (if cb_full b1
                  then b1\<lparr>cb_out_offs := word_of_nat
                         ((unat (cb_out_offs b1) + 1) mod AESDCHAR_MAX_WRITE_OPERATIONS_SUPPORTED)\<rparr>
                  else b1);
            b3 = b2\<lparr>cb_in_offs := word_of_nat
                     ((unat (cb_in_offs b2) + 1) mod AESDCHAR_MAX_WRITE_OPERATIONS_SUPPORTED)\<rparr>
        in Some (b3\<lparr>cb_full := (cb_in_offs b3 = cb_out_offs b3)\<rparr>)
      else None)"

text \<open>
  The iteration macro: \<open>index\<close> is a \<open>uint8_t\<close>, the body may change a state and may
  fail.
\<close>

function AESD_CIRCULAR_BUFFER_FOREACH ::
    "(aesd_buffer_entry \<Rightarrow> 's \<Rightarrow> 's option) \<Rightarrow> aesd_circular_buffer \<Rightarrow> u8 \<Rightarrow> 's \<Rightarrow> 's option" where
  "AESD_CIRCULAR_BUFFER_FOREACH body buffer index s =
     (if unat index < AESDCHAR_MAX_WRITE_OPERATIONS_SUPPORTED
      then Option.bind (body (cb_entry buffer ! unat index) s)
             (\<lambda>s'. AESD_CIRCULAR_BUFFER_FOREACH body buffer (index + 1) s')
      else Some s)"
  by pat_completeness auto
termination
  by (relation "measure (\<lambda>(body, buffer, index, s).
      AESDCHAR_MAX_WRITE_OPERATIONS_SUPPORTED - unat index)") (auto simp: unat_word_ariths)

declare AESD_CIRCULAR_BUFFER_FOREACH.simps [simp del]

section \<open>Invariant and abstract view\<close>

definition cb_inv :: "aesd_circular_buffer \<Rightarrow> bool" where
  "cb_inv b \<longleftrightarrow>
     length (cb_entry b) = AESDCHAR_MAX_WRITE_OPERATIONS_SUPPORTED \<and>
     unat (cb_in_offs b) < AESDCHAR_MAX_WRITE_OPERATIONS_SUPPORTED \<and>
     unat (cb_out_offs b) < AESDCHAR_MAX_WRITE_OPERATIONS_SUPPORTED \<and>
     (if cb_full b then cb_in_offs b = cb_out_offs b
      else cb_out_offs b = 0 \<and> drop (unat (cb_in_offs b)) (cb_entry b) =
        replicate (AESDCHAR_MAX_WRITE_OPERATIONS_SUPPORTED - unat (cb_in_offs b)) zero_entry)"

definition cb_list :: "aesd_circular_buffer \<Rightarrow> aesd_buffer_entry list" where
  "cb_list b =
     (if cb_full b then rotate (unat (cb_out_offs b)) (cb_entry b)
      else take (unat (cb_in_offs b)) (cb_entry b))"

abbreviation entry_sizes :: "aesd_buffer_entry list \<Rightarrow> nat list" where
  "entry_sizes es \<equiv> map (\<lambda>e. unat (esize e)) es"

abbreviation cb_total :: "aesd_circular_buffer \<Rightarrow> nat" where
  "cb_total b \<equiv> sum_list (entry_sizes (cb_list b))"

lemma cb_init_inv: "cb_inv aesd_circular_buffer_init"
  by (simp add: cb_inv_def aesd_circular_buffer_init_def)

lemma cb_init_list: "cb_list aesd_circular_buffer_init = []"
  by (simp add: cb_list_def aesd_circular_buffer_init_def)

lemma cb_list_length: "cb_inv b \<Longrightarrow> length (cb_list b) \<le> AESDCHAR_MAX_WRITE_OPERATIONS_SUPPORTED"
  by (auto simp: cb_inv_def cb_list_def)

text \<open>Reading the ten slots from \<open>out_offs\<close> on gives the stored entries, then empty slots.\<close>

lemma cb_scan_order:
  assumes "cb_inv b"
  shows "rotate (unat (cb_out_offs b)) (cb_entry b) =
    cb_list b @ replicate (AESDCHAR_MAX_WRITE_OPERATIONS_SUPPORTED - length (cb_list b)) zero_entry"
proof (cases "cb_full b")
  case True
  with assms show ?thesis by (simp add: cb_inv_def cb_list_def)
next
  case False
  with assms have "cb_out_offs b = 0"
    and "drop (unat (cb_in_offs b)) (cb_entry b) = replicate (10 - unat (cb_in_offs b)) zero_entry"
    and "unat (cb_in_offs b) < 10" and "length (cb_entry b) = 10"
    by (auto simp: cb_inv_def)
  with False show ?thesis
    using append_take_drop_id [of "unat (cb_in_offs b)" "cb_entry b"] by (simp add: cb_list_def)
qed

lemma cb_list_nth:
  assumes "cb_inv b" and "i < length (cb_list b)"
  shows "cb_entry b ! ((unat (cb_out_offs b) + i) mod AESDCHAR_MAX_WRITE_OPERATIONS_SUPPORTED) = cb_list b ! i"
proof -
  have i: "i < length (cb_entry b)" and l: "length (cb_entry b) = 10"
    using assms cb_list_length [OF assms(1)] by (auto simp: cb_inv_def)
  have "rotate (unat (cb_out_offs b)) (cb_entry b) ! i = cb_list b ! i"
    using assms by (simp add: cb_scan_order nth_append)
  then show ?thesis using nth_rotate [OF i] by (simp add: l)
qed

section \<open>Adding an entry\<close>

lemma add_entry_full:
  assumes inv: "cb_inv b" and full: "cb_full b"
  shows "\<exists>b'. aesd_circular_buffer_add_entry b e = Some b' \<and> cb_inv b' \<and> cb_full b' \<and>
    cb_list b' = tl (cb_list b) @ [e]"
proof -
  define k where "k = unat (cb_out_offs b)"
  from inv full have len: "length (cb_entry b) = 10" and k: "k < 10"
    and "in": "cb_in_offs b = cb_out_offs b"
    by (auto simp: cb_inv_def k_def)
  define b' where "b' = b\<lparr>cb_entry := (cb_entry b)[k := e],
    cb_out_offs := word_of_nat (Suc k mod 10), cb_in_offs := word_of_nat (Suc k mod 10)\<rparr>"
  have add: "aesd_circular_buffer_add_entry b e = Some b'"
    using full k len "in"
    by (simp add: aesd_circular_buffer_add_entry_def b'_def k_def)
  have k': "unat (word_of_nat (Suc k mod 10) :: u8) = Suc k mod 10"
    by (simp add: wrap_simps)
  have "cb_list b' = rotate (Suc k mod 10) ((cb_entry b)[k := e])"
    using full by (simp add: cb_list_def b'_def k')
  also have "\<dots> = rotate (Suc k) ((cb_entry b)[k := e])"
    using len rotate_conv_mod [of "Suc k" "(cb_entry b)[k := e]"] by simp
  also have "\<dots> = tl (cb_list b) @ [e]"
    using k len full by (simp add: rotate_overwrite_oldest cb_list_def k_def del: rotate_Suc)
  finally have "cb_list b' = tl (cb_list b) @ [e]" .
  moreover have "cb_inv b'" and "cb_full b'"
    using full len k' by (simp_all add: cb_inv_def b'_def)
  ultimately show ?thesis using add by blast
qed

lemma add_entry_not_full:
  assumes inv: "cb_inv b" and not_full: "\<not> cb_full b"
  shows "\<exists>b'. aesd_circular_buffer_add_entry b e = Some b' \<and> cb_inv b' \<and>
    cb_list b' = cb_list b @ [e]"
proof -
  define k where "k = unat (cb_in_offs b)"
  from inv not_full have len: "length (cb_entry b) = 10" and k: "k < 10"
    and out: "cb_out_offs b = 0"
    and free: "drop k (cb_entry b) = replicate (10 - k) zero_entry"
    by (auto simp: cb_inv_def k_def)
  have "drop (Suc k) (cb_entry b) = drop 1 (drop k (cb_entry b))" by simp
  then have free': "drop (Suc k) (cb_entry b) = replicate (9 - k) zero_entry"
    unfolding free by simp
  define b' where "b' = b\<lparr>cb_entry := (cb_entry b)[k := e],
    cb_in_offs := word_of_nat (Suc k mod 10), cb_full := (k = 9)\<rparr>"
  have k': "unat (word_of_nat (Suc k mod 10) :: u8) = Suc k mod 10"
    by (simp add: wrap_simps)
  have "(word_of_nat (Suc k mod 10) = (0 :: u8)) = (k = 9)"
    using k k' unat_eq_zero [of "word_of_nat (Suc k mod 10) :: u8"] by (auto dest: dvd_imp_le)
  then have add: "aesd_circular_buffer_add_entry b e = Some b'"
    using not_full k len out
    by (simp add: aesd_circular_buffer_add_entry_def b'_def k_def)
  have snoc: "take (Suc k) ((cb_entry b)[k := e]) = cb_list b @ [e]"
    using not_full k len by (simp add: cb_list_def k_def take_Suc_conv_app_nth)
  show ?thesis
  proof (cases "k = 9")
    case True
    then have "cb_list b' = cb_list b @ [e]"
      using snoc len out by (simp add: cb_list_def b'_def)
    with True add len out show ?thesis
      by (auto simp: cb_inv_def b'_def)
  next
    case False
    with k have "Suc k < 10" by simp
    then have "cb_list b' = cb_list b @ [e]"
      using snoc k' False by (simp add: cb_list_def b'_def)
    moreover have "cb_inv b'"
      using \<open>Suc k < 10\<close> False len out free' k' by (simp add: cb_inv_def b'_def)
    ultimately show ?thesis using add by blast
  qed
qed

lemma cb_full_list_length:
  assumes "cb_inv b"
  shows "cb_full b \<longleftrightarrow> length (cb_list b) = AESDCHAR_MAX_WRITE_OPERATIONS_SUPPORTED"
  using assms by (auto simp: cb_inv_def cb_list_def)

lemma add_entry_step:
  assumes "cb_inv b"
  shows "\<exists>b'. aesd_circular_buffer_add_entry b e = Some b' \<and> cb_inv b' \<and>
    cb_list b' = last_n AESDCHAR_MAX_WRITE_OPERATIONS_SUPPORTED (cb_list b @ [e])"
proof (cases "cb_full b")
  case True
  with assms have "last_n 10 (cb_list b @ [e]) = tl (cb_list b) @ [e]"
    by (simp add: last_n_snoc_full cb_full_list_length)
  with add_entry_full [OF assms True, of e] show ?thesis by auto
next
  case False
  with assms cb_list_length [OF assms] have "length (cb_list b @ [e]) \<le> 10"
    by (simp add: cb_full_list_length)
  with add_entry_not_full [OF assms False, of e] show ?thesis by auto
qed

interpretation ring: bounded_history cb_inv cb_list aesd_circular_buffer_add_entry
  aesd_circular_buffer_init AESDCHAR_MAX_WRITE_OPERATIONS_SUPPORTED
  by unfold_locales (simp_all add: cb_init_inv cb_init_list add_entry_step)

section \<open>Lookup by character offset\<close>

text \<open>The sizes of the ten slots, in the order of the search loop.\<close>

abbreviation scan_sizes :: "aesd_circular_buffer \<Rightarrow> nat list" where
  "scan_sizes b \<equiv> entry_sizes (rotate (unat (cb_out_offs b)) (cb_entry b))"

lemma scan_sizes_eq:
  "cb_inv b \<Longrightarrow> scan_sizes b = entry_sizes (cb_list b) @ replicate (10 - length (cb_list b)) 0"
  by (simp add: cb_scan_order zero_entry_def)

lemma scan_sizes_total: "cb_inv b \<Longrightarrow> sum_list (scan_sizes b) = cb_total b"
  by (simp only: scan_sizes_eq sum_list_append sum_list_replicate)

lemma find_entry_loop_locate:
  assumes inv: "cb_inv b" and total: "cb_total b < 2 ^ 64"
  shows "i \<le> 10 \<Longrightarrow> unat cur = sum_list (take i (scan_sizes b)) \<Longrightarrow> unat cur \<le> unat off \<Longrightarrow>
    find_entry_loop b off i cur =
      map_option (\<lambda>(j, k). ((unat (cb_out_offs b) + (i + j)) mod 10, word_of_nat k))
        (locate (drop i (scan_sizes b)) (unat off - unat cur))"
proof (induction "10 - i" arbitrary: i cur)
  case 0
  moreover have "length (scan_sizes b) = 10" using inv by (simp add: cb_inv_def)
  ultimately show ?case by (simp add: find_entry_loop.simps [of b off 10 cur])
next
  case (Suc d)
  let ?idx = "(unat (cb_out_offs b) + i) mod 10"
  let ?e = "cb_entry b ! ?idx"
  have i: "i < 10" and d: "d = 10 - Suc i" using Suc.hyps(2) by simp_all
  have len: "length (cb_entry b) = 10" using inv by (simp add: cb_inv_def)
  have size_i: "scan_sizes b ! i = unat (esize ?e)"
    using i len by (simp add: nth_rotate)
  have upto: "sum_list (take (Suc i) (scan_sizes b)) = unat cur + unat (esize ?e)"
    using i len Suc.prems(2) by (simp add: take_Suc_conv_app_nth size_i nth_rotate)
  have "sum_list (take (Suc i) (scan_sizes b)) \<le> cb_total b"
    unfolding scan_sizes_total [OF inv, symmetric]
    by (metis append_take_drop_id le_add1 sum_list_append)
  then have nowrap: "unat (cur + esize ?e) = unat cur + unat (esize ?e)"
    using upto total by (intro unat_add_size_t) simp
  have rest: "drop i (scan_sizes b) = unat (esize ?e) # drop (Suc i) (scan_sizes b)"
    using i len size_i by (simp add: Cons_nth_drop_Suc [symmetric] nth_rotate drop_map)
  show ?case
  proof (cases "off < cur + esize ?e")
    case True
    then have "unat off - unat cur < unat (esize ?e)"
      using Suc.prems(3) by (simp add: word_less_nat_alt nowrap)
    moreover have "off - cur = word_of_nat (unat off - unat cur)"
      unfolding unat_diff_size_t [OF Suc.prems(3), symmetric] by simp
    ultimately show ?thesis
      using True i rest by (simp add: find_entry_loop.simps [of b off i] Let_def)
  next
    case False
    then have ge: "unat cur + unat (esize ?e) \<le> unat off"
      by (simp add: word_less_nat_alt nowrap)
    have "find_entry_loop b off i cur = find_entry_loop b off (Suc i) (cur + esize ?e)"
      using False i by (simp add: find_entry_loop.simps [of b off i] Let_def)
    also have "\<dots> = map_option (\<lambda>(j, k). ((unat (cb_out_offs b) + (Suc i + j)) mod 10, word_of_nat k))
        (locate (drop (Suc i) (scan_sizes b)) (unat off - unat (cur + esize ?e)))"
      by (rule Suc.hyps(1) [OF d]) (use i upto nowrap ge in simp_all)
    also have "\<dots> = map_option (\<lambda>(j, k). ((unat (cb_out_offs b) + (i + j)) mod 10, word_of_nat k))
        (locate (drop i (scan_sizes b)) (unat off - unat cur))"
      using ge less_diff_conv2 by (auto simp: rest nowrap option.map_comp comp_def split_def)
    finally show ?thesis .
  qed
qed

lemma find_entry_locate:
  assumes "cb_inv b" and "cb_total b < 2 ^ 64"
  shows "aesd_circular_buffer_find_entry_offset_for_fpos (Some b) off False =
    map_option (\<lambda>(j, k). ((unat (cb_out_offs b) + j) mod 10, word_of_nat k))
      (locate (entry_sizes (cb_list b)) (unat off))"
  using find_entry_loop_locate [OF assms, of 0 0 off] assms(1)
  by (simp add: aesd_circular_buffer_find_entry_offset_for_fpos_def scan_sizes_eq locate_append_zeros)

section \<open>Iteration\<close>

lemma foreach_from:
  "unat index \<le> 10 \<Longrightarrow> length (cb_entry b) = 10 \<Longrightarrow>
    AESD_CIRCULAR_BUFFER_FOREACH body b index s =
      ofold (\<lambda>s e. body e s) s (drop (unat index) (cb_entry b))"
proof (induction body b index s rule: AESD_CIRCULAR_BUFFER_FOREACH.induct)
  case (1 body b index s)
  show ?case
  proof (cases "unat index < 10")
    case True
    then have suc: "unat (index + 1) = Suc (unat index)" by (simp add: unat_word_ariths)
    have rest: "drop (unat index) (cb_entry b) =
        cb_entry b ! unat index # drop (Suc (unat index)) (cb_entry b)"
      using True "1.prems" by (simp add: Cons_nth_drop_Suc)
    show ?thesis
      using True "1.IH" [OF True] "1.prems"(2) suc
      by (subst AESD_CIRCULAR_BUFFER_FOREACH.simps) (simp add: rest cong: Option.bind_cong)
  next
    case False
    with "1.prems" show ?thesis by (simp add: AESD_CIRCULAR_BUFFER_FOREACH.simps [of body b index])
  qed
qed

lemma foreach_entries:
  "length (cb_entry b) = 10 \<Longrightarrow>
    AESD_CIRCULAR_BUFFER_FOREACH body b 0 s = ofold (\<lambda>s e. body e s) s (cb_entry b)"
  by (simp add: foreach_from)

section \<open>Properties\<close>

text \<open>
  C5: starting from the initialised buffer, any sequence of insertions succeeds (no array access
  leaves the ten slots), keeps the invariant, and leaves exactly the last ten entries, oldest
  first: when the buffer is full the oldest entry is the one overwritten.
\<close>

theorem ring_keeps_last_ten:
  "\<exists>b. ofold aesd_circular_buffer_add_entry aesd_circular_buffer_init es = Some b \<and> cb_inv b \<and>
     cb_list b = last_n AESDCHAR_MAX_WRITE_OPERATIONS_SUPPORTED es"
  by (rule ring.run_start)

text \<open>
  C6: after any insertions whose last ten sizes do not overflow \<open>size_t\<close>, the lookup of a
  character offset finds the entry that holds that character when the stored entries are laid end
  to end, with the offset inside it, and finds nothing exactly when the offset is past the end.
\<close>

theorem find_entry_by_offset:
  assumes "ofold aesd_circular_buffer_add_entry aesd_circular_buffer_init es = Some b"
    and "sum_list (entry_sizes (last_n AESDCHAR_MAX_WRITE_OPERATIONS_SUPPORTED es)) < 2 ^ 64"
  shows "case locate (entry_sizes (last_n AESDCHAR_MAX_WRITE_OPERATIONS_SUPPORTED es)) (unat off) of
      None \<Rightarrow> aesd_circular_buffer_find_entry_offset_for_fpos (Some b) off False = None
    | Some (j, k) \<Rightarrow> \<exists>index.
        aesd_circular_buffer_find_entry_offset_for_fpos (Some b) off False = Some (index, word_of_nat k) \<and>
        index < AESDCHAR_MAX_WRITE_OPERATIONS_SUPPORTED \<and>
        cb_entry b ! index = last_n AESDCHAR_MAX_WRITE_OPERATIONS_SUPPORTED es ! j"
proof -
  from ring.run_start [of es] assms(1) have inv: "cb_inv b" and ents: "cb_list b = last_n 10 es"
    by auto
  show ?thesis
    using find_entry_locate [OF inv, of off] assms(2) cb_list_nth [OF inv]
    by (auto simp: ents dest!: locate_SomeD split: option.splits)
qed

theorem find_entry_by_offset_witness:
  "let es = map (\<lambda>n. \<lparr>buffptr = Ptr n, esize = word_of_nat (Suc n)\<rparr>) [0..<11] in
   \<exists>b index. ofold aesd_circular_buffer_add_entry aesd_circular_buffer_init es = Some b \<and>
     aesd_circular_buffer_find_entry_offset_for_fpos (Some b) 6 False = Some (index, 1) \<and>
     cb_entry b ! index = \<lparr>buffptr = Ptr 3, esize = 4\<rparr>"
proof -
  define es where "es = map (\<lambda>n. \<lparr>buffptr = Ptr n, esize = word_of_nat (Suc n)\<rparr>) [0..<11]"
  obtain b where b: "ofold aesd_circular_buffer_add_entry aesd_circular_buffer_init es = Some b"
    using ring.run_start [of es] by blast
  have sizes: "entry_sizes (last_n 10 es) = [2, 3, 4, 5, 6, 7, 8, 9, 10, 11]"
    unfolding es_def by code_simp
  then have total: "sum_list (entry_sizes (last_n 10 es)) < 2 ^ 64" by simp
  have loc: "locate (entry_sizes (last_n 10 es)) (unat (6 :: size_t)) = Some (2, 1)"
    unfolding sizes by simp
  have at: "last_n 10 es ! 2 = \<lparr>buffptr = Ptr 3, esize = 4\<rparr>"
    unfolding es_def by code_simp
  show ?thesis unfolding Let_def es_def [symmetric]
    using find_entry_by_offset [OF b total, of 6] b unfolding loc by (auto simp: at)
qed

end
