(* ===== verification/Kernel_Memory.thy ===== *)
theory Kernel_Memory
  imports Prelude "HOL-Library.Monad_Syntax"
begin

text \<open>
  The kernel memory interface as the driver uses it: a heap of allocated byte blocks, the slab
  allocator calls, \<open>memcpy\<close> into a block and the copies to and from user space. What the
  environment decides (whether an allocation succeeds, where the block is and which bytes a fresh
  block holds, how many bytes a user copy could not transfer) is an argument. A call the C code must
  not make (a double free, an access outside a block) is \<open>None\<close>, so that memory safety of
  the driver is the claim that its handlers never return \<open>None\<close>.
\<close>

section \<open>Blocks\<close>

type_synonym kheap = "nat \<rightharpoonup> bytes"

text \<open>
  The answer of the allocator: failure, or an address and the bytes found there (the allocator
  does not clear the block).
\<close>

type_synonym alloc = "(nat \<times> bytes) option"

definition kmalloc :: "kheap \<Rightarrow> size_t \<Rightarrow> alloc \<Rightarrow> ptr \<times> kheap" where
  [c_defs]: "kmalloc h n rc =
     (if n = 0 then (ZERO_SIZE_PTR, h)
      else case rc of None \<Rightarrow> (NULL, h) | Some (a, junk) \<Rightarrow> (Ptr a, h(a \<mapsto> junk)))"

definition kfree :: "kheap \<Rightarrow> ptr \<Rightarrow> kheap option" where
  [c_defs]: "kfree h p =
     (case p of
        Ptr a \<Rightarrow> (if h a = None then None else Some (h(a := None)))
      | _ \<Rightarrow> Some h)"

text \<open>
  \<open>krealloc\<close> keeps the old contents up to the smaller of both sizes; on failure it returns
  NULL and leaves the old block allocated.
\<close>

definition krealloc :: "kheap \<Rightarrow> ptr \<Rightarrow> size_t \<Rightarrow> alloc \<Rightarrow> (ptr \<times> kheap) option" where
  [c_defs]: "krealloc h p n rc =
     (if n = 0 then map_option (\<lambda>h'. (ZERO_SIZE_PTR, h')) (kfree h p)
      else case p of
        Ptr a \<Rightarrow>
          (case h a of
             None \<Rightarrow> None
           | Some old \<Rightarrow>
               (case rc of
                  None \<Rightarrow> Some (NULL, h)
                | Some (b, junk) \<Rightarrow>
                    Some (Ptr b, (h(a := None))(b \<mapsto> take (unat n) old @ drop (length old) junk))))
      | _ \<Rightarrow> Some (kmalloc h n rc))"

text \<open>\<open>memcpy(p + off, bs, len)\<close> and its reading counterpart.\<close>

definition kstore :: "kheap \<Rightarrow> ptr \<Rightarrow> nat \<Rightarrow> bytes \<Rightarrow> kheap option" where
  [c_defs]: "kstore h p off bs =
     (if bs = [] then Some h
      else case p of
        Ptr a \<Rightarrow>
          (case h a of
             None \<Rightarrow> None
           | Some blk \<Rightarrow>
               (if off + length bs \<le> length blk
                then Some (h(a \<mapsto> take off blk @ bs @ drop (off + length bs) blk))
                else None))
      | _ \<Rightarrow> None)"

definition kload :: "kheap \<Rightarrow> ptr \<Rightarrow> nat \<Rightarrow> nat \<Rightarrow> bytes option" where
  [c_defs]: "kload h p off n =
     (if n = 0 then Some []
      else case p of
        Ptr a \<Rightarrow>
          (case h a of
             None \<Rightarrow> None
           | Some blk \<Rightarrow> (if off + n \<le> length blk then Some (take n (drop off blk)) else None))
      | _ \<Rightarrow> None)"

text \<open>
  \<open>copy_from_user\<close> transfers all but \<open>uncopied\<close> bytes, clears the rest of the
  destination and returns \<open>uncopied\<close>; \<open>copy_to_user\<close> delivers all but
  \<open>uncopied\<close> bytes.
\<close>

definition copy_from_user :: "kheap \<Rightarrow> ptr \<Rightarrow> bytes \<Rightarrow> size_t \<Rightarrow> nat \<Rightarrow> (nat \<times> kheap) option" where
  [c_defs]: "copy_from_user h p ubuf n uncopied =
     map_option (\<lambda>h'. (uncopied, h'))
       (kstore h p 0 (take (unat n - uncopied) ubuf @ replicate uncopied nul))"

definition copy_to_user :: "kheap \<Rightarrow> ptr \<Rightarrow> nat \<Rightarrow> size_t \<Rightarrow> nat \<Rightarrow> (nat \<times> bytes) option" where
  [c_defs]: "copy_to_user h p off n uncopied =
     map_option (\<lambda>bs. (uncopied, take (unat n - uncopied) bs)) (kload h p off (unat n))"

section \<open>What the allocator guarantees\<close>

text \<open>
  A successful answer for \<open>n\<close> bytes is a block of that size at an address that is not
  allocated (or, when reallocating, possibly the block being resized), and no block reaches two
  gigabytes: the slab allocator refuses sizes above \<open>KMALLOC_MAX_SIZE\<close>.
\<close>

definition block_limit :: nat where
  "block_limit = 2 ^ 31"

definition alloc_ok :: "kheap \<Rightarrow> ptr \<Rightarrow> size_t \<Rightarrow> alloc \<Rightarrow> bool" where
  "alloc_ok h p n rc \<longleftrightarrow>
     (case rc of
        None \<Rightarrow> True
      | Some (a, junk) \<Rightarrow> length junk = unat n \<and> unat n < block_limit \<and> (h a = None \<or> p = Ptr a))"

text \<open>The bytes behind a pointer; a pointer that is not a block has none.\<close>

definition block :: "kheap \<Rightarrow> ptr \<Rightarrow> bytes" where
  "block h p = (case p of Ptr a \<Rightarrow> (case h a of None \<Rightarrow> [] | Some bs \<Rightarrow> bs) | _ \<Rightarrow> [])"

text \<open>A pointer the driver may hold with a size: exactly the size of its block.\<close>

definition valid_block :: "kheap \<Rightarrow> ptr \<Rightarrow> nat \<Rightarrow> bool" where
  "valid_block h p n \<longleftrightarrow>
     (case p of
        Ptr a \<Rightarrow> (\<exists>bs. h a = Some bs \<and> length bs = n \<and> 0 < n)
      | _ \<Rightarrow> n = 0)"

lemma block_simps [simp]:
  "block h NULL = []" "block h ZERO_SIZE_PTR = []"
  "h a = Some bs \<Longrightarrow> block h (Ptr a) = bs"
  by (simp_all add: block_def)

lemma valid_block_simps [simp]:
  "valid_block h NULL n \<longleftrightarrow> n = 0" "valid_block h ZERO_SIZE_PTR n \<longleftrightarrow> n = 0"
  by (simp_all add: valid_block_def)

lemma valid_block_Ptr: "valid_block h (Ptr a) n \<longleftrightarrow> (\<exists>bs. h a = Some bs \<and> length bs = n \<and> 0 < n)"
  by (simp add: valid_block_def)

lemma valid_block_length: "valid_block h p n \<Longrightarrow> length (block h p) = n"
  by (cases p) (auto simp: valid_block_def block_def)

lemma block_upd_other [simp]: "p \<noteq> Ptr a \<Longrightarrow> block (h(a := v)) p = block h p"
  by (cases p) (auto simp: block_def)

lemma valid_block_upd_other [simp]: "p \<noteq> Ptr a \<Longrightarrow> valid_block (h(a := v)) p n = valid_block h p n"
  by (cases p) (auto simp: valid_block_def)

lemma kload_valid:
  "valid_block h p n \<Longrightarrow> off + m \<le> n \<Longrightarrow> kload h p off m = Some (take m (drop off (block h p)))"
  by (cases p) (auto simp: kload_def valid_block_def)

lemma kfree_valid:
  assumes "valid_block h p n"
  shows "\<exists>h'. kfree h p = Some h' \<and> (\<forall>a. h' a = (if p = Ptr a then None else h a))"
  using assms by (cases p) (auto simp: kfree_def valid_block_def)

end
