(* ===== verification/Char_Driver.thy ===== *)
theory Char_Driver
  imports Circular_Buffer Kernel_Memory
begin

unbundle bit_operations_syntax

text \<open>
  The character driver (\<open>aesd-char-driver/main.c\<close>, \<open>aesdchar.h\<close>): the device record
  with its circular buffer, its pending entry and its mutex, and the module entry points and file
  operations as functions on the kernel state. Results the kernel decides (allocations, user copies,
  an interrupted lock, device registration) are arguments, collected in one record per handler.
  \<open>None\<close> is an access the code must never make. The abstract view of the device is the list
  of the last ten complete lines and the bytes of the line not yet finished.
\<close>

section \<open>State\<close>

record aesd_dev =
  dev_buffer :: aesd_circular_buffer
  dev_entry :: aesd_buffer_entry
  dev_lock :: bool
  dev_cdev_ops :: bool

text \<open>
  The module's globals and the kernel state they touch: the heap, the registered device region
  and the device number under which the character device is live.
\<close>

record kernel =
  aesd_device :: aesd_dev
  aesd_major :: u32
  kmem :: kheap
  chrdev_region :: "u32 option"
  cdev_live :: "u32 option"

datatype dev_ptr = DevNull | AesdDevice

record struct_file =
  private_data :: dev_ptr
  f_pos :: loff_t

record struct_inode =
  i_cdev :: dev_ptr

abbreviation set_lock :: "bool \<Rightarrow> kernel \<Rightarrow> kernel" where
  "set_lock l k \<equiv> k\<lparr>aesd_device := (aesd_device k)\<lparr>dev_lock := l\<rparr>\<rparr>"

abbreviation set_entry :: "aesd_buffer_entry \<Rightarrow> kernel \<Rightarrow> kernel" where
  "set_entry e k \<equiv> k\<lparr>aesd_device := (aesd_device k)\<lparr>dev_entry := e\<rparr>\<rparr>"

abbreviation set_buffer :: "aesd_circular_buffer \<Rightarrow> kernel \<Rightarrow> kernel" where
  "set_buffer b k \<equiv> k\<lparr>aesd_device := (aesd_device k)\<lparr>dev_buffer := b\<rparr>\<rparr>"

section \<open>Open, release and read\<close>

definition aesd_open :: "struct_inode \<Rightarrow> struct_file \<Rightarrow> int \<times> struct_file" where
  "aesd_open inode filp = (0, filp\<lparr>private_data := i_cdev inode\<rparr>)"

definition aesd_release :: "struct_inode \<Rightarrow> struct_file \<Rightarrow> int \<times> struct_file" where
  "aesd_release inode filp = (0, filp)"

record read_env =
  r_lock_rc :: int
  r_uncopied :: nat

text \<open>The result is the return value, the file with its position, the bytes that reached the
  user buffer, and the kernel state.\<close>

definition aesd_read ::
    "read_env \<Rightarrow> struct_file \<Rightarrow> size_t \<Rightarrow> kernel \<Rightarrow> (int \<times> struct_file \<times> bytes \<times> kernel) option" where
  "aesd_read env filp count k =
     (if private_data filp = DevNull then None
      else if r_lock_rc env \<noteq> 0 then Some (- ERESTARTSYS, filp, [], k)
      else
        let k1 = set_lock True k; buffer = dev_buffer (aesd_device k1) in
        case aesd_circular_buffer_find_entry_offset_for_fpos (Some buffer) (f_pos filp) False of
          None \<Rightarrow> Some (0, filp, [], set_lock False k1)
        | Some (index, entry_offset_byte) \<Rightarrow>
            let entry = cb_entry buffer ! index;
                bytes_to_copy = min count (esize entry - entry_offset_byte)
            in case copy_to_user (kmem k1) (buffptr entry) (unat entry_offset_byte) bytes_to_copy
                      (r_uncopied env) of
                 None \<Rightarrow> None
               | Some (rest, out) \<Rightarrow>
                   if rest \<noteq> 0 then Some (- EFAULT, filp, out, set_lock False k1)
                   else Some (sint bytes_to_copy, filp\<lparr>f_pos := f_pos filp + bytes_to_copy\<rparr>, out,
                          set_lock False k1))"

section \<open>Write\<close>

record write_env =
  w_lock_rc :: int
  w_kmalloc :: alloc
  w_uncopied :: nat
  w_krealloc :: alloc

text \<open>
  The search for the first newline. The counter is an \<open>int\<close>: stepping past its maximum and
  reading outside the buffer are \<open>None\<close>. The result is \<open>newline_pos\<close>, minus one when there
  is no newline.
\<close>

function newline_scan :: "bytes \<Rightarrow> size_t \<Rightarrow> nat \<Rightarrow> int option" where
  "newline_scan kbuf count i =
     (if i < unat count then
        if length kbuf \<le> i then None
        else if kbuf ! i = newline then Some (int i)
        else if INT_MAX \<le> i then None
        else newline_scan kbuf count (Suc i)
      else Some (- 1))"
  by pat_completeness auto
termination
  by (relation "measure (\<lambda>(kbuf, count, i). unat count - i)") auto

declare newline_scan.simps [simp del]

text \<open>The label \<open>exit_free\<close>, falling through to \<open>exit\<close>.\<close>

definition exit_free :: "int \<Rightarrow> ptr \<Rightarrow> kernel \<Rightarrow> (int \<times> kernel) option" where
  "exit_free retval kbuf k = map_option (\<lambda>h. (retval, (set_lock False k)\<lparr>kmem := h\<rparr>)) (kfree (kmem k) kbuf)"

text \<open>
  Both branches of the write resize the pending entry and append \<open>copy_size\<close> bytes of
  \<open>kbuf\<close>; \<open>False\<close> reports that \<open>krealloc\<close> returned NULL, which the code has by
  then stored in \<open>buffptr\<close>.
\<close>

definition grow_entry :: "alloc \<Rightarrow> ptr \<Rightarrow> size_t \<Rightarrow> kernel \<Rightarrow> (bool \<times> kernel) option" where
  "grow_entry rc kbuf copy_size k =
     (let e = dev_entry (aesd_device k) in
      case krealloc (kmem k) (buffptr e) (esize e + copy_size) rc of
        None \<Rightarrow> None
      | Some (p, h1) \<Rightarrow>
          let e1 = e\<lparr>buffptr := p\<rparr>; k1 = (set_entry e1 k)\<lparr>kmem := h1\<rparr> in
          if p = NULL then Some (False, k1)
          else do {
            src \<leftarrow> kload h1 kbuf 0 (unat copy_size);
            h2 \<leftarrow> kstore h1 p (unat (esize e1)) src;
            Some (True, (set_entry (e1\<lparr>esize := esize e1 + copy_size\<rparr>) k1)\<lparr>kmem := h2\<rparr>)
          })"

definition aesd_write ::
    "write_env \<Rightarrow> struct_file \<Rightarrow> bytes \<Rightarrow> size_t \<Rightarrow> kernel \<Rightarrow> (int \<times> kernel) option" where
  "aesd_write env filp buf count k =
     (if private_data filp = DevNull then None
      else if w_lock_rc env \<noteq> 0 then Some (- ERESTARTSYS, k)
      else
        let k1 = set_lock True k; (kbuf, h1) = kmalloc (kmem k1) count (w_kmalloc env);
            k2 = k1\<lparr>kmem := h1\<rparr>
        in if kbuf = NULL then Some (- ENOMEM, set_lock False k2)
        else do {
          (rest, h2) \<leftarrow> copy_from_user h1 kbuf buf count (w_uncopied env);
          let k3 = k2\<lparr>kmem := h2\<rparr>;
          if rest \<noteq> 0 then exit_free (- EFAULT) kbuf k3
          else do {
            contents \<leftarrow> kload h2 kbuf 0 (unat count);
            newline_pos \<leftarrow> newline_scan contents count 0;
            if newline_pos = - 1 then do {
              (ok, k4) \<leftarrow> grow_entry (w_krealloc env) kbuf count k3;
              if \<not> ok then exit_free (- ENOMEM) kbuf k4
              else exit_free (sint count) kbuf k4
            } else do {
              let copy_size = word_of_int (newline_pos + 1);
              (ok, k4) \<leftarrow> grow_entry (w_krealloc env) kbuf copy_size k3;
              if \<not> ok then exit_free (- ENOMEM) kbuf k4
              else do {
                b \<leftarrow> aesd_circular_buffer_add_entry (dev_buffer (aesd_device k4))
                       (dev_entry (aesd_device k4));
                exit_free (sint count) kbuf
                  (set_entry \<lparr>buffptr = NULL, esize = 0\<rparr> (set_buffer b k4))
              }
            }
          }
        })"

section \<open>Module load and unload\<close>

definition MKDEV :: "u32 \<Rightarrow> u32 \<Rightarrow> u32" where
  "MKDEV ma mi = push_bit 20 ma OR mi"

definition MAJOR :: "u32 \<Rightarrow> u32" where
  "MAJOR d = drop_bit 20 d"

abbreviation aesd_minor :: u32 where
  "aesd_minor \<equiv> 0"

text \<open>What the kernel answers to the registration calls; \<open>i_dev\<close> is the number assigned when
  the region is granted.\<close>

record init_env =
  i_region_rc :: int
  i_dev :: u32
  i_cdev_add_rc :: int

definition aesd_setup_cdev :: "init_env \<Rightarrow> kernel \<Rightarrow> int \<times> kernel" where
  "aesd_setup_cdev env k =
     (let devno = MKDEV (aesd_major k) aesd_minor;
          k1 = k\<lparr>aesd_device := (aesd_device k)\<lparr>dev_cdev_ops := True\<rparr>\<rparr>;
          err = i_cdev_add_rc env
      in (err, if err \<noteq> 0 then k1 else k1\<lparr>cdev_live := Some devno\<rparr>))"

text \<open>\<open>memset(&aesd_device, 0, ...)\<close>.\<close>

definition zero_dev :: aesd_dev where
  "zero_dev = \<lparr>dev_buffer = \<lparr>cb_entry = replicate AESDCHAR_MAX_WRITE_OPERATIONS_SUPPORTED zero_entry,
       cb_in_offs = 0, cb_out_offs = 0, cb_full = False\<rparr>,
     dev_entry = zero_entry, dev_lock = False, dev_cdev_ops = False\<rparr>"

definition aesd_init_module :: "init_env \<Rightarrow> kernel \<Rightarrow> int \<times> kernel" where
  "aesd_init_module env k =
     (let result = i_region_rc env;
          dev = (if result < 0 then 0 else i_dev env);
          k1 = (if result < 0 then k else k\<lparr>chrdev_region := Some dev\<rparr>)\<lparr>aesd_major := MAJOR dev\<rparr>
      in if result < 0 then (result, k1)
      else
        let k2 = k1\<lparr>aesd_device := zero_dev\<rparr>;
            k3 = set_lock False k2;
            k4 = set_entry \<lparr>buffptr = NULL, esize = 0\<rparr> k3;
            k5 = set_buffer aesd_circular_buffer_init k4;
            (result2, k6) = aesd_setup_cdev env k5
        in if result2 \<noteq> 0 then (result2, k6\<lparr>chrdev_region := None\<rparr>) else (result2, k6))"

definition aesd_cleanup_module :: "kernel \<Rightarrow> kernel option" where
  "aesd_cleanup_module k =
     (let d = aesd_device k in do {
        h1 \<leftarrow> (if buffptr (dev_entry d) \<noteq> NULL then kfree (kmem k) (buffptr (dev_entry d))
               else Some (kmem k));
        h2 \<leftarrow> AESD_CIRCULAR_BUFFER_FOREACH
               (\<lambda>entry h. if buffptr entry \<noteq> NULL then kfree h (buffptr entry) else Some h)
               (dev_buffer d) 0 h1;
        Some (k\<lparr>kmem := h2, cdev_live := None, chrdev_region := None\<rparr>)
      })"

section \<open>Invariant and abstract view\<close>

definition entry_ok :: "kheap \<Rightarrow> aesd_buffer_entry \<Rightarrow> bool" where
  "entry_ok h e \<longleftrightarrow> valid_block h (buffptr e) (unat (esize e)) \<and> unat (esize e) < block_limit"

definition addrs :: "aesd_buffer_entry list \<Rightarrow> nat list" where
  "addrs es = concat (map (\<lambda>e. case buffptr e of Ptr a \<Rightarrow> [a] | _ \<Rightarrow> []) es)"

definition dev_entries :: "kernel \<Rightarrow> aesd_buffer_entry list" where
  "dev_entries k = dev_entry (aesd_device k) # cb_list (dev_buffer (aesd_device k))"

definition dev_inv :: "kernel \<Rightarrow> bool" where
  "dev_inv k \<longleftrightarrow>
     \<not> dev_lock (aesd_device k) \<and>
     cb_inv (dev_buffer (aesd_device k)) \<and>
     (\<forall>e \<in> set (dev_entries k). entry_ok (kmem k) e) \<and>
     distinct (addrs (dev_entries k))"

definition dev_lines :: "kernel \<Rightarrow> bytes list" where
  "dev_lines k = map (\<lambda>e. block (kmem k) (buffptr e)) (cb_list (dev_buffer (aesd_device k)))"

definition dev_pending :: "kernel \<Rightarrow> bytes" where
  "dev_pending k = block (kmem k) (buffptr (dev_entry (aesd_device k)))"

text \<open>The part of a write that the device keeps: everything up to and including the first
  newline.\<close>

definition upto_newline :: "bytes \<Rightarrow> bytes" where
  "upto_newline bs = (if newline \<in> set bs then takeWhile (\<lambda>c. c \<noteq> newline) bs @ [newline] else bs)"

definition write_spec :: "bytes list \<times> bytes \<Rightarrow> bytes \<Rightarrow> bytes list \<times> bytes" where
  "write_spec = (\<lambda>(lines, pending) bs.
     if newline \<in> set bs
     then (last_n AESDCHAR_MAX_WRITE_OPERATIONS_SUPPORTED (lines @ [pending @ upto_newline bs]), [])
     else (lines, pending @ bs))"

abbreviation dev_view :: "kernel \<Rightarrow> bytes list \<times> bytes" where
  "dev_view k \<equiv> (dev_lines k, dev_pending k)"

end
