(* ===== verification/Driver_Correct.thy ===== *)
theory Driver_Correct
  imports Char_Driver
begin

text \<open>
  Correctness of the character driver: the handlers never make an undefined access, they keep the
  device invariant, writing refines \<open>write_spec\<close> on the abstract view and reading returns the
  bytes of the concatenated lines at the file position.
\<close>

section \<open>Entries and frames\<close>

lemma entry_ok_frame:
  assumes "\<And>a. buffptr e = Ptr a \<Longrightarrow> h' a = h a"
  shows "entry_ok h' e = entry_ok h e" and "block h' (buffptr e) = block h (buffptr e)"
  using assms by (cases "buffptr e"; auto simp: entry_ok_def valid_block_def block_def)+

lemma entry_ok_alloc: "entry_ok h e \<Longrightarrow> buffptr e = Ptr a \<Longrightarrow> h a \<noteq> None"
  by (auto simp: entry_ok_def valid_block_Ptr)

lemma addrs_simps [simp]:
  "addrs [] = []" "addrs (es @ fs) = addrs es @ addrs fs"
  "addrs (e # es) = (case buffptr e of Ptr a \<Rightarrow> [a] | _ \<Rightarrow> []) @ addrs es"
  by (simp_all add: addrs_def)

lemma in_addrs_iff: "a \<in> set (addrs es) \<longleftrightarrow> (\<exists>e \<in> set es. buffptr e = Ptr a)"
  by (induction es) (auto split: ptr.splits)

lemma distinct_addrs_drop: "distinct (addrs es) \<Longrightarrow> distinct (addrs (drop n es))"
  by (metis addrs_simps(2) append_take_drop_id distinct_append)

lemma distinct_addrs_last_n: "distinct (addrs es) \<Longrightarrow> distinct (addrs (last_n n es))"
  by (simp add: last_n_def distinct_addrs_drop)

section \<open>The newline search\<close>

lemma newline_scan_from:
  assumes "length bs = unat count" and "unat count < block_limit"
  shows "i \<le> length bs \<Longrightarrow> newline_scan bs count i =
    Some (if newline \<in> set (drop i bs)
          then int (i + length (takeWhile (\<lambda>c. c \<noteq> newline) (drop i bs))) else - 1)"
proof (induction "length bs - i" arbitrary: i)
  case 0
  with assms show ?case by (simp add: newline_scan.simps [of bs count "unat count"])
next
  case (Suc d)
  then have i: "i < length bs" by simp
  have step: "drop i bs = bs ! i # drop (Suc i) bs" using i by (simp add: Cons_nth_drop_Suc)
  have "i < INT_MAX" using i assms by (simp add: block_limit_def INT_MAX_def)
  moreover have "newline_scan bs count (Suc i) =
    Some (if newline \<in> set (drop (Suc i) bs)
          then int (Suc i + length (takeWhile (\<lambda>c. c \<noteq> newline) (drop (Suc i) bs))) else - 1)"
    by (rule Suc.hyps(1)) (use Suc.hyps(2) i in simp_all)
  ultimately show ?case
    using i assms(1) by (simp add: newline_scan.simps [of bs count i] step)
qed

lemma newline_scan_found:
  assumes "length bs = unat count" and "unat count < block_limit"
  shows "newline_scan bs count 0 =
    Some (if newline \<in> set bs then int (length (takeWhile (\<lambda>c. c \<noteq> newline) bs)) else - 1)"
  using newline_scan_from [OF assms, of 0] by simp

lemma upto_newline_take:
  "newline \<in> set bs \<Longrightarrow> upto_newline bs = take (Suc (length (takeWhile (\<lambda>c. c \<noteq> newline) bs))) bs"
proof (induction bs)
  case Nil
  then show ?case by simp
next
  case (Cons c bs)
  then show ?case by (cases "c = newline") (auto simp: upto_newline_def)
qed

lemma takeWhile_prefix_newline:
  "takeWhile (\<lambda>c. c \<noteq> newline) (line @ newline # rest) = takeWhile (\<lambda>c. c \<noteq> newline) (line @ [newline])"
  by (induction line) auto

lemma upto_newline_length: "length (upto_newline bs) \<le> length bs"
  by (cases "newline \<in> set bs") (simp_all add: upto_newline_take, simp add: upto_newline_def)

section \<open>Growing the pending entry\<close>

text \<open>
  The successful case, with its frame: the pending block moves from \<open>p\<close> to \<open>q\<close>, holds
  the old bytes followed by the new ones, and every other block is untouched.
\<close>

lemma grow_entry_ok:
  fixes k n rc
  defines "e \<equiv> dev_entry (aesd_device k)" and "h \<equiv> kmem k"
  assumes ok: "entry_ok h e"
    and src: "length bs = m" "unat n \<le> m"
    and kbuf: "kbuf = Ptr c \<and> h c = Some bs \<and> buffptr e \<noteq> Ptr c \<or> m = 0"
    and alloc: "alloc_ok h (buffptr e) (esize e + n) rc"
    and succ: "rc \<noteq> None \<or> esize e + n = 0"
    and small: "unat n < block_limit"
  shows "\<exists>q h'. grow_entry rc kbuf n k =
        Some (True, (set_entry \<lparr>buffptr = q, esize = esize e + n\<rparr> k)\<lparr>kmem := h'\<rparr>) \<and>
      entry_ok h' \<lparr>buffptr = q, esize = esize e + n\<rparr> \<and>
      block h' q = block h (buffptr e) @ take (unat n) bs \<and>
      (\<forall>a. buffptr e \<noteq> Ptr a \<longrightarrow> q \<noteq> Ptr a \<longrightarrow> h' a = h a) \<and>
      (\<forall>a. buffptr e = Ptr a \<longrightarrow> q \<noteq> Ptr a \<longrightarrow> h' a = None) \<and>
      (\<forall>a. q = Ptr a \<longrightarrow> h a = None \<or> buffptr e = Ptr a)"
proof -
  have lim: "unat (esize e) < block_limit" and val: "valid_block h (buffptr e) (unat (esize e))"
    using ok by (simp_all add: entry_ok_def)
  have sum: "unat (esize e + n) = unat (esize e) + unat n"
    using lim small by (intro unat_add_size_t) (simp add: block_limit_def)
  show ?thesis
  proof (cases "unat (esize e) + unat n = 0")
    case True
    then have zero: "esize e = 0" "n = 0" by (simp_all add: unat_eq_zero)
    with val have "buffptr e = NULL \<or> buffptr e = ZERO_SIZE_PTR"
      by (cases "buffptr e") (simp_all add: valid_block_Ptr)
    then show ?thesis
      using zero lim
      by (intro exI [of _ ZERO_SIZE_PTR] exI [of _ h])
        (auto simp: grow_entry_def Let_def c_defs e_def [symmetric] h_def [symmetric]
          entry_ok_def block_limit_def)
  next
    case False
    then have nz: "esize e + n \<noteq> 0" using sum by (metis unat_0)
    from nz succ obtain b junk where rc: "rc = Some (b, junk)" by (cases rc) auto
    with alloc sum have junk: "length junk = unat (esize e) + unat n"
      and fresh: "h b = None \<or> buffptr e = Ptr b" and tot: "unat (esize e + n) < block_limit"
      by (auto simp: alloc_ok_def)
    define old where "old = block h (buffptr e)"
    define h0 where "h0 = (case buffptr e of Ptr a \<Rightarrow> h(a := None) | _ \<Rightarrow> h)"
    have old: "length old = unat (esize e)" using valid_block_length [OF val] by (simp add: old_def)
    have re: "krealloc h (buffptr e) (esize e + n) rc = Some (Ptr b, h0(b \<mapsto> old @ drop (length old) junk))"
      using val nz sum old by (cases "buffptr e") (auto simp: c_defs rc h0_def old_def valid_block_Ptr)
    have kb: "n \<noteq> 0 \<Longrightarrow> kbuf = Ptr c \<and> h0 c = Some bs \<and> b \<noteq> c"
      using kbuf src fresh by (auto simp: h0_def unat_eq_zero split: ptr.splits)
    have ld: "kload (h0(b \<mapsto> old @ drop (length old) junk)) kbuf 0 (unat n) = Some (take (unat n) bs)"
      using kb src by (cases "n = 0") (auto simp: kload_def unat_eq_zero)
    have st: "kstore (h0(b \<mapsto> old @ drop (length old) junk)) (Ptr b) (unat (esize e)) (take (unat n) bs) =
        Some (h0(b \<mapsto> old @ take (unat n) bs))"
      using junk old src by (auto simp: kstore_def unat_eq_zero)
    have "grow_entry rc kbuf n k =
        Some (True, (set_entry \<lparr>buffptr = Ptr b, esize = esize e + n\<rparr> k)\<lparr>kmem := h0(b \<mapsto> old @ take (unat n) bs)\<rparr>)"
      by (simp add: grow_entry_def Let_def e_def [symmetric] h_def [symmetric] re ld st)
    moreover have "entry_ok (h0(b \<mapsto> old @ take (unat n) bs)) \<lparr>buffptr = Ptr b, esize = esize e + n\<rparr>"
      using tot old src False by (simp add: entry_ok_def valid_block_Ptr sum)
    moreover have "\<forall>a. buffptr e \<noteq> Ptr a \<longrightarrow> b \<noteq> a \<longrightarrow> h0 a = h a"
      by (auto simp: h0_def split: ptr.splits)
    ultimately show ?thesis
      using fresh
      by (intro exI [of _ "Ptr b"] exI [of _ "h0(b \<mapsto> old @ take (unat n) bs)"])
        (auto simp: old_def h0_def)
  qed
qed

section \<open>The environment of a write\<close>

text \<open>
  What the kernel guarantees about the calls a write makes: the user buffer has the announced
  length, a user copy reports at most that many bytes, and the allocator answers as documented for
  the two sizes the handler asks for.
\<close>

definition write_request :: "bytes \<Rightarrow> kernel \<Rightarrow> size_t" where
  "write_request buf k = esize (dev_entry (aesd_device k)) + word_of_nat (length (upto_newline buf))"

definition write_lawful :: "write_env \<Rightarrow> bytes \<Rightarrow> size_t \<Rightarrow> kernel \<Rightarrow> bool" where
  "write_lawful env buf count k \<longleftrightarrow>
     length buf = unat count \<and> w_uncopied env \<le> unat count \<and>
     alloc_ok (kmem k) NULL count (w_kmalloc env) \<and>
     alloc_ok (snd (kmalloc (kmem k) count (w_kmalloc env))) (buffptr (dev_entry (aesd_device k)))
       (write_request buf k) (w_krealloc env)"

text \<open>No call fails: the lock is taken, memory is available, the user buffer is readable.\<close>

definition write_succeeds :: "write_env \<Rightarrow> bytes \<Rightarrow> size_t \<Rightarrow> kernel \<Rightarrow> bool" where
  "write_succeeds env buf count k \<longleftrightarrow> w_lock_rc env = 0 \<and> w_uncopied env = 0 \<and>
     (w_kmalloc env \<noteq> None \<or> count = 0) \<and> (w_krealloc env \<noteq> None \<or> write_request buf k = 0)"

lemma alloc_ok_same_dom:
  "(\<And>a. h' a = None \<longleftrightarrow> h a = None) \<Longrightarrow> alloc_ok h' p n rc = alloc_ok h p n rc"
  by (auto simp: alloc_ok_def split: option.splits)

text \<open>The first half of the handler: the kernel copy of the user's bytes.\<close>

lemma kbuf_phase:
  assumes "alloc_ok h NULL count rc" and "rc \<noteq> None \<or> count = 0" and "length buf = unat count"
    and "uncopied \<le> unat count"
  shows "\<exists>kbuf h1 h2 c. kmalloc h count rc = (kbuf, h1) \<and> kbuf \<noteq> NULL \<and>
    copy_from_user h1 kbuf buf count uncopied = Some (uncopied, h2) \<and>
    kload h2 kbuf 0 (unat count) = Some (take (unat count - uncopied) buf @ replicate uncopied nul) \<and>
    (\<forall>a. h2 a = None \<longleftrightarrow> h1 a = None) \<and>
    (kbuf = Ptr c \<and> h c = None \<and>
       h2 = h(c \<mapsto> take (unat count - uncopied) buf @ replicate uncopied nul) \<or>
     kbuf = ZERO_SIZE_PTR \<and> h2 = h \<and> buf = [])"
proof (cases "count = 0")
  case True
  with assms(3,4) show ?thesis
    by (intro exI [of _ ZERO_SIZE_PTR] exI [of _ h]) (auto simp: c_defs)
next
  case False
  with assms(1,2) obtain c junk where rc: "rc = Some (c, junk)" "length junk = unat count" "h c = None"
    by (auto simp: alloc_ok_def)
  from False have "unat count \<noteq> 0" by (simp add: unat_eq_zero)
  with assms(3,4) False rc show ?thesis
    by (intro exI [of _ "Ptr c"] exI [of _ "h(c \<mapsto> junk)"]
        exI [of _ "h(c \<mapsto> take (unat count - uncopied) buf @ replicate uncopied nul)"] exI [of _ c])
      (auto simp: c_defs)
qed

lemma write_lawful_small:
  "write_lawful env buf count k \<Longrightarrow> w_kmalloc env \<noteq> None \<or> count = 0 \<Longrightarrow> unat count < block_limit"
  by (auto simp: write_lawful_def alloc_ok_def block_limit_def)

lemma upto_newline_word:
  assumes "length bs = unat count" and "unat count < block_limit"
  shows "unat (word_of_nat (length (upto_newline bs)) :: size_t) = length (upto_newline bs)"
    and "take (length (upto_newline bs)) bs = upto_newline bs"
    and "newline \<in> set bs \<Longrightarrow>
      word_of_int (int (length (takeWhile (\<lambda>c. c \<noteq> newline) bs)) + 1) =
      (word_of_nat (length (upto_newline bs)) :: size_t)"
    and "newline \<notin> set bs \<Longrightarrow> word_of_nat (length (upto_newline bs)) = count"
proof -
  show "unat (word_of_nat (length (upto_newline bs)) :: size_t) = length (upto_newline bs)"
    using upto_newline_length [of bs] assms
    by (intro unat_of_nat_size_t) (simp add: block_limit_def)
  show "take (length (upto_newline bs)) bs = upto_newline bs"
    by (cases "newline \<in> set bs") (simp_all add: upto_newline_take min_def, simp add: upto_newline_def)
  show "word_of_int (int (length (takeWhile (\<lambda>c. c \<noteq> newline) bs)) + 1) =
      (word_of_nat (length (upto_newline bs)) :: size_t)" if "newline \<in> set bs"
    using that by (simp add: upto_newline_def)
  show "word_of_nat (length (upto_newline bs)) = count" if "newline \<notin> set bs"
    using that assms(1) by (simp add: upto_newline_def)
qed

text \<open>The second half of the handler, once the bytes are in the kernel buffer.\<close>

lemma aesd_write_second_half:
  fixes k env buf count
  defines "n \<equiv> word_of_nat (length (upto_newline buf)) :: size_t"
  assumes dev: "private_data filp = AesdDevice" and lock: "w_lock_rc env = 0" "w_uncopied env = 0"
    and m: "kmalloc (kmem k) count (w_kmalloc env) = (kbuf, h1)" "kbuf \<noteq> NULL"
    and cp: "copy_from_user h1 kbuf buf count 0 = Some (0, h2)"
    and ld: "kload h2 kbuf 0 (unat count) = Some buf"
    and len: "length buf = unat count" and small: "unat count < block_limit"
  shows "aesd_write env filp buf count k =
    Option.bind (grow_entry (w_krealloc env) kbuf n ((set_lock True k)\<lparr>kmem := h2\<rparr>))
      (\<lambda>(ok, k4). if \<not> ok then exit_free (- ENOMEM) kbuf k4
        else if newline \<in> set buf
        then Option.bind (aesd_circular_buffer_add_entry (dev_buffer (aesd_device k4)) (dev_entry (aesd_device k4)))
               (\<lambda>b. exit_free (sint count) kbuf (set_entry zero_entry (set_buffer b k4)))
        else exit_free (sint count) kbuf k4)"
proof -
  have scan: "newline_scan buf count 0 =
      Some (if newline \<in> set buf then int (length (takeWhile (\<lambda>c. c \<noteq> newline) buf)) else - 1)"
    by (rule newline_scan_found [OF len small])
  show ?thesis
    using dev lock m cp ld upto_newline_word(3,4) [OF len small]
    by (auto simp: aesd_write_def Let_def scan n_def zero_entry_def intro!: Option.bind_cong)
qed

section \<open>A write that succeeds\<close>

text \<open>
  The pending entry grows and the kernel buffer is freed: \<open>h\<close> is the heap before the kernel
  buffer was allocated, \<open>h'\<close> the one after it was freed.
\<close>

lemma grow_then_free:
  fixes k3
  defines "e \<equiv> dev_entry (aesd_device k3)"
  assumes old: "entry_ok h e"
    and kbuf: "kbuf = Ptr c \<and> h c = None \<and> kmem k3 = h(c \<mapsto> buf) \<or> kbuf = ZERO_SIZE_PTR \<and> kmem k3 = h \<and> buf = []"
    and n: "unat n \<le> length buf" "unat n < block_limit"
    and alloc: "alloc_ok (kmem k3) (buffptr e) (esize e + n) rc" "rc \<noteq> None \<or> esize e + n = 0"
  shows "\<exists>q h3 h'. grow_entry rc kbuf n k3 = Some (True, (set_entry \<lparr>buffptr = q, esize = esize e + n\<rparr> k3)\<lparr>kmem := h3\<rparr>) \<and>
      kfree h3 kbuf = Some h' \<and> entry_ok h' \<lparr>buffptr = q, esize = esize e + n\<rparr> \<and>
      block h' q = block h (buffptr e) @ take (unat n) buf \<and>
      (\<forall>a. h a \<noteq> None \<longrightarrow> buffptr e \<noteq> Ptr a \<longrightarrow> q \<noteq> Ptr a \<and> h' a = h a)"
proof -
  have notc: "kbuf = Ptr c \<Longrightarrow> buffptr e \<noteq> Ptr c" using kbuf entry_ok_alloc [OF old, of c] by auto
  have same: "buffptr e = Ptr a \<Longrightarrow> kmem k3 a = h a" for a using kbuf notc by auto
  have ok: "entry_ok (kmem k3) e" and blk: "block (kmem k3) (buffptr e) = block h (buffptr e)"
    using old entry_ok_frame [OF same] by simp_all
  obtain q h3 where grow: "grow_entry rc kbuf n k3 = Some (True, (set_entry \<lparr>buffptr = q, esize = esize e + n\<rparr> k3)\<lparr>kmem := h3\<rparr>)"
    and new: "entry_ok h3 \<lparr>buffptr = q, esize = esize e + n\<rparr>"
    and blk3: "block h3 q = block h (buffptr e) @ take (unat n) buf"
    and fr: "\<And>a. buffptr e \<noteq> Ptr a \<Longrightarrow> q \<noteq> Ptr a \<Longrightarrow> h3 a = kmem k3 a"
    and fresh: "\<And>a. q = Ptr a \<Longrightarrow> kmem k3 a = None \<or> buffptr e = Ptr a"
    using grow_entry_ok [of k3 buf "length buf" n kbuf c rc] ok n kbuf notc alloc blk by (auto simp: e_def)
  define h' where "h' = (case kbuf of Ptr a \<Rightarrow> h3(a := None) | _ \<Rightarrow> h3)"
  have qc: "kbuf = Ptr c \<Longrightarrow> q \<noteq> Ptr c \<and> h3 c = Some buf" using kbuf notc fresh [of c] fr [of c] by auto
  have free: "kfree h3 kbuf = Some h'" using qc kbuf by (auto simp: kfree_def h'_def)
  have "q = Ptr a \<Longrightarrow> h' a = h3 a" for a using qc kbuf by (auto simp: h'_def)
  then have new': "entry_ok h' \<lparr>buffptr = q, esize = esize e + n\<rparr>" and blk': "block h' q = block h3 q"
    using new entry_ok_frame [of "\<lparr>buffptr = q, esize = esize e + n\<rparr>" h' h3] by simp_all
  have "q \<noteq> Ptr a \<and> h' a = h a" if a: "h a \<noteq> None" "buffptr e \<noteq> Ptr a" for a
  proof
    show q: "q \<noteq> Ptr a" using a kbuf fresh [of a] by (auto split: if_splits)
    show "h' a = h a" using a kbuf fr [OF a(2) q] by (auto simp: h'_def)
  qed
  with grow free new' blk3 blk' show ?thesis by metis
qed

text \<open>
  The effect of a successful write, with its frame. \<open>e'\<close> is the pending entry after the
  append; \<open>h'\<close> is the heap when the handler returns.
\<close>

lemma aesd_write_effect:
  fixes k env buf count
  defines "d \<equiv> aesd_device k" and "n \<equiv> word_of_nat (length (upto_newline buf)) :: size_t"
  defines "e \<equiv> dev_entry d"
  assumes inv: "dev_inv k" and dev: "private_data filp = AesdDevice"
    and law: "write_lawful env buf count k" and succ: "write_succeeds env buf count k"
  shows "\<exists>q h'. let e' = \<lparr>buffptr = q, esize = esize e + n\<rparr> in
      aesd_write env filp buf count k =
        (if newline \<in> set buf
         then map_option (\<lambda>b. (int (unat count),
           k\<lparr>aesd_device := d\<lparr>dev_buffer := b, dev_entry := zero_entry, dev_lock := False\<rparr>, kmem := h'\<rparr>))
             (aesd_circular_buffer_add_entry (dev_buffer d) e')
         else Some (int (unat count),
           k\<lparr>aesd_device := d\<lparr>dev_entry := e', dev_lock := False\<rparr>, kmem := h'\<rparr>)) \<and>
      entry_ok h' e' \<and> block h' q = dev_pending k @ upto_newline buf \<and>
      (\<forall>a. kmem k a \<noteq> None \<longrightarrow> buffptr e \<noteq> Ptr a \<longrightarrow> q \<noteq> Ptr a \<and> h' a = kmem k a)"
proof -
  from succ have km: "w_kmalloc env \<noteq> None \<or> count = 0"
    and lock: "w_lock_rc env = 0" "w_uncopied env = 0"
    and kr: "w_krealloc env \<noteq> None \<or> esize e + n = 0"
    by (auto simp: write_succeeds_def write_request_def e_def d_def n_def)
  from law have len: "length buf = unat count"
    and al1: "alloc_ok (kmem k) NULL count (w_kmalloc env)"
    and al2: "alloc_ok (snd (kmalloc (kmem k) count (w_kmalloc env))) (buffptr e) (esize e + n) (w_krealloc env)"
    by (simp_all add: write_lawful_def write_request_def e_def d_def n_def)
  note small = write_lawful_small [OF law km]
  have n: "unat n = length (upto_newline buf)"
    unfolding n_def using upto_newline_length [of buf] small len
    by (intro unat_of_nat_size_t) (simp add: block_limit_def)
  have cnt: "sint count = int (unat count)"
    using small by (intro sint_small_size_t) (simp add: block_limit_def)
  obtain kbuf h1 h2 c where
    m: "kmalloc (kmem k) count (w_kmalloc env) = (kbuf, h1)" "kbuf \<noteq> NULL"
    and cp: "copy_from_user h1 kbuf buf count 0 = Some (0, h2)"
    and ld: "kload h2 kbuf 0 (unat count) = Some buf" and dom: "\<And>a. h2 a = None \<longleftrightarrow> h1 a = None"
    and sh: "kbuf = Ptr c \<and> kmem k c = None \<and> h2 = (kmem k)(c \<mapsto> buf) \<or> kbuf = ZERO_SIZE_PTR \<and> h2 = kmem k \<and> buf = []"
    using kbuf_phase [OF al1 km len, of 0] len by auto
  define k3 where "k3 = k\<lparr>aesd_device := d\<lparr>dev_lock := True\<rparr>, kmem := h2\<rparr>"
  have k3: "dev_entry (aesd_device k3) = e" "kmem k3 = h2" by (simp_all add: k3_def e_def)
  have old: "entry_ok (kmem k) e" using inv by (simp add: dev_inv_def dev_entries_def e_def d_def)
  have "alloc_ok h2 (buffptr e) (esize e + n) (w_krealloc env)" using al2 m(1) alloc_ok_same_dom [OF dom] by simp
  with grow_then_free [of "kmem k" k3 kbuf c buf n "w_krealloc env", unfolded k3, OF old sh _ _ _ kr] n len small
    upto_newline_length [of buf]
  obtain q h3 h' where grow: "grow_entry (w_krealloc env) kbuf n k3 =
        Some (True, (set_entry \<lparr>buffptr = q, esize = esize e + n\<rparr> k3)\<lparr>kmem := h3\<rparr>)"
    and free: "kfree h3 kbuf = Some h'" and new: "entry_ok h' \<lparr>buffptr = q, esize = esize e + n\<rparr>"
    and blk: "block h' q = block (kmem k) (buffptr e) @ take (unat n) buf"
    and frame: "\<forall>a. kmem k a \<noteq> None \<longrightarrow> buffptr e \<noteq> Ptr a \<longrightarrow> q \<noteq> Ptr a \<and> h' a = kmem k a" by auto
  have "block h' q = dev_pending k @ upto_newline buf"
    using blk n upto_newline_word(2) [OF len small] by (simp add: dev_pending_def e_def d_def)
  with aesd_write_second_half [OF dev lock m(1) m(2) cp ld len small] grow new frame free cnt
  show ?thesis
    by (intro exI [of _ q] exI [of _ h']) (auto simp: exit_free_def n_def k3_def d_def Let_def map_conv_bind_option comp_def)
qed

text \<open>
  Invariant and view of a state whose stored entries are those of \<open>k\<close> with their blocks
  untouched, possibly with one entry \<open>e'\<close> appended, and whose pending entry is \<open>p'\<close>.
\<close>

lemma dev_entries_framed:
  assumes inv: "dev_inv k"
    and frame: "\<And>a. kmem k a \<noteq> None \<Longrightarrow> buffptr (dev_entry (aesd_device k)) \<noteq> Ptr a \<Longrightarrow>
      q \<noteq> Ptr a \<and> h' a = kmem k a"
  shows "\<And>e. e \<in> set (cb_list (dev_buffer (aesd_device k))) \<Longrightarrow>
      entry_ok h' e \<and> block h' (buffptr e) = block (kmem k) (buffptr e)"
    and "\<And>a. q = Ptr a \<Longrightarrow> a \<notin> set (addrs (cb_list (dev_buffer (aesd_device k))))"
    and "distinct (addrs (cb_list (dev_buffer (aesd_device k))))"
proof -
  let ?L = "cb_list (dev_buffer (aesd_device k))" and ?p = "dev_entry (aesd_device k)"
  have ok: "e \<in> set ?L \<Longrightarrow> entry_ok (kmem k) e" for e
    using inv by (simp add: dev_inv_def dev_entries_def)
  have other: "e \<in> set ?L \<Longrightarrow> buffptr e = Ptr a \<Longrightarrow> kmem k a \<noteq> None \<and> buffptr ?p \<noteq> Ptr a" for e a
    using inv ok [of e] by (auto simp: dev_inv_def dev_entries_def in_addrs_iff dest: entry_ok_alloc)
  show "entry_ok h' e \<and> block h' (buffptr e) = block (kmem k) (buffptr e)" if e: "e \<in> set ?L" for e
  proof -
    have "h' a = kmem k a" if "buffptr e = Ptr a" for a using other [OF e that] frame [of a] by blast
    then show ?thesis using entry_ok_frame [of e h' "kmem k"] ok [OF e] by blast
  qed
  show "a \<notin> set (addrs ?L)" if "q = Ptr a" for a
    using that other frame by (fastforce simp: in_addrs_iff)
  show "distinct (addrs ?L)" using inv by (simp add: dev_inv_def dev_entries_def)
qed

text \<open>Storing the entry \<open>e'\<close> as the newest line and starting an empty one.\<close>

lemma commit_entry:
  assumes inv: "dev_inv k" and new: "entry_ok h' e'"
    and frame: "\<And>a. kmem k a \<noteq> None \<Longrightarrow> buffptr (dev_entry (aesd_device k)) \<noteq> Ptr a \<Longrightarrow> buffptr e' \<noteq> Ptr a \<and> h' a = kmem k a"
  shows "\<exists>b. aesd_circular_buffer_add_entry (dev_buffer (aesd_device k)) e' = Some b \<and>
    (\<forall>k'. k' = k\<lparr>aesd_device := (aesd_device k)\<lparr>dev_buffer := b, dev_entry := zero_entry, dev_lock := False\<rparr>, kmem := h'\<rparr> \<longrightarrow>
      dev_inv k' \<and> dev_lines k' = last_n 10 (dev_lines k @ [block h' (buffptr e')]) \<and> dev_pending k' = [])"
proof -
  let ?d = "aesd_device k"
  have cb: "cb_inv (dev_buffer ?d)" using inv by (simp add: dev_inv_def)
  note framed = dev_entries_framed [OF inv, of "buffptr e'" h', OF frame]
  from add_entry_step [OF cb, of e'] obtain b where
    b: "aesd_circular_buffer_add_entry (dev_buffer ?d) e' = Some b" "cb_inv b"
      "cb_list b = last_n 10 (cb_list (dev_buffer ?d) @ [e'])" by blast
  have all: "\<And>e. e \<in> set (cb_list b) \<Longrightarrow> entry_ok h' e"
    using b(3) set_last_n_subset framed(1) new by fastforce
  have dis: "distinct (addrs (cb_list b))"
    unfolding b(3) using framed(2,3)
    by (intro distinct_addrs_last_n) (auto split: ptr.splits)
  have lines: "map (\<lambda>e. block h' (buffptr e)) (cb_list b) = last_n 10 (dev_lines k @ [block h' (buffptr e')])"
    unfolding b(3) last_n_map [symmetric] using framed(1) by (simp add: dev_lines_def cong: map_cong)
  show ?thesis
    using b all dis lines
    by (simp add: dev_inv_def dev_entries_def dev_lines_def dev_pending_def zero_entry_def entry_ok_def block_limit_def)
qed

lemma aesd_write_refines:
  assumes inv: "dev_inv k" and dev: "private_data filp = AesdDevice"
    and law: "write_lawful env buf count k" and succ: "write_succeeds env buf count k"
  shows "\<exists>k'. aesd_write env filp buf count k = Some (int (unat count), k') \<and> dev_inv k' \<and>
    dev_view k' = write_spec (dev_view k) buf"
proof -
  let ?d = "aesd_device k" and ?n = "word_of_nat (length (upto_newline buf)) :: size_t"
  from aesd_write_effect [OF assms] obtain q h' where
    run: "aesd_write env filp buf count k =
        (if newline \<in> set buf
         then map_option (\<lambda>b. (int (unat count),
           k\<lparr>aesd_device := ?d\<lparr>dev_buffer := b, dev_entry := zero_entry, dev_lock := False\<rparr>, kmem := h'\<rparr>))
             (aesd_circular_buffer_add_entry (dev_buffer ?d) \<lparr>buffptr = q, esize = esize (dev_entry ?d) + ?n\<rparr>)
         else Some (int (unat count),
           k\<lparr>aesd_device := ?d\<lparr>dev_entry := \<lparr>buffptr = q, esize = esize (dev_entry ?d) + ?n\<rparr>, dev_lock := False\<rparr>, kmem := h'\<rparr>))"
    and new: "entry_ok h' \<lparr>buffptr = q, esize = esize (dev_entry ?d) + ?n\<rparr>"
    and blk: "block h' q = dev_pending k @ upto_newline buf"
    and fr: "\<And>a. kmem k a \<noteq> None \<Longrightarrow> buffptr (dev_entry ?d) \<noteq> Ptr a \<Longrightarrow> q \<noteq> Ptr a \<and> h' a = kmem k a"
    unfolding Let_def by blast
  note framed = dev_entries_framed [OF inv, of q h', OF fr]
  have cb: "cb_inv (dev_buffer ?d)" using inv by (simp add: dev_inv_def)
  show ?thesis
  proof (cases "newline \<in> set buf")
    case False
    with run new blk framed cb show ?thesis
      by (auto simp: dev_inv_def dev_entries_def dev_lines_def dev_pending_def write_spec_def
          upto_newline_def split: ptr.splits)
  next
    case True
    from commit_entry [OF inv new] fr obtain b where
      b: "aesd_circular_buffer_add_entry (dev_buffer ?d) \<lparr>buffptr = q, esize = esize (dev_entry ?d) + ?n\<rparr> = Some b"
      and k': "\<And>k'. k' = k\<lparr>aesd_device := ?d\<lparr>dev_buffer := b, dev_entry := zero_entry, dev_lock := False\<rparr>, kmem := h'\<rparr> \<Longrightarrow>
        dev_inv k' \<and> dev_lines k' = last_n 10 (dev_lines k @ [block h' q]) \<and> dev_pending k' = []" by auto
    show ?thesis using True run b k' [OF refl] by (simp add: blk write_spec_def)
  qed
qed

section \<open>A write that fails\<close>

lemma unlock_idem [simp]:
  "\<not> dev_lock (aesd_device k) \<Longrightarrow> k\<lparr>aesd_device := (aesd_device k)\<lparr>dev_lock := False\<rparr>, kmem := kmem k\<rparr> = k"
  by (cases k; cases "aesd_device k") simp

lemma kfree_fresh: "h c = None \<Longrightarrow> kfree (h(c \<mapsto> bs)) (Ptr c) = Some h"
  by (auto simp: kfree_def fun_upd_idem)

text \<open>
  \<open>krealloc\<close> fails: the handler has already overwritten \<open>buffptr\<close> with NULL, and only
  the kernel copy of the user's bytes is freed.
\<close>

lemma grow_entry_fails:
  assumes "entry_ok h (dev_entry (aesd_device k))" and "esize (dev_entry (aesd_device k)) + n \<noteq> 0"
    and "kmem k = h"
  shows "grow_entry None kbuf n k =
    Some (False, (set_entry ((dev_entry (aesd_device k))\<lparr>buffptr := NULL\<rparr>) k)\<lparr>kmem := h\<rparr>)"
  using assms by (cases "buffptr (dev_entry (aesd_device k))")
    (auto simp: grow_entry_def Let_def c_defs entry_ok_def valid_block_Ptr)

lemma aesd_write_fails:
  assumes inv: "dev_inv k" and dev: "private_data filp = AesdDevice"
    and law: "write_lawful env buf count k" and fail: "\<not> write_succeeds env buf count k"
  shows "aesd_write env filp buf count k =
    (if w_lock_rc env \<noteq> 0 then Some (- ERESTARTSYS, k)
     else if w_kmalloc env = None \<and> count \<noteq> 0 then Some (- ENOMEM, k)
     else if w_uncopied env \<noteq> 0 then Some (- EFAULT, k)
     else Some (- ENOMEM, set_entry ((dev_entry (aesd_device k))\<lparr>buffptr := NULL\<rparr>) k))"
proof -
  let ?e = "dev_entry (aesd_device k)"
  have unlocked: "\<not> dev_lock (aesd_device k)" and old: "entry_ok (kmem k) ?e"
    using inv by (simp_all add: dev_inv_def dev_entries_def)
  consider "w_lock_rc env \<noteq> 0" | "w_lock_rc env = 0" "w_kmalloc env = None" "count \<noteq> 0"
    | "w_lock_rc env = 0" "w_kmalloc env \<noteq> None \<or> count = 0" by blast
  then show ?thesis
  proof cases
    case 1
    then show ?thesis using dev by (simp add: aesd_write_def)
  next
    case 2
    then show ?thesis using dev unlocked by (simp add: aesd_write_def kmalloc_def)
  next
    case 3
    from law have len: "length buf = unat count" and unc: "w_uncopied env \<le> unat count"
      and al: "alloc_ok (kmem k) NULL count (w_kmalloc env)"
      by (simp_all add: write_lawful_def)
    note small = write_lawful_small [OF law 3(2)]
    let ?bs = "take (unat count - w_uncopied env) buf @ replicate (w_uncopied env) nul"
    obtain kbuf h1 h2 c where
      m: "kmalloc (kmem k) count (w_kmalloc env) = (kbuf, h1)" "kbuf \<noteq> NULL"
      and cp: "copy_from_user h1 kbuf buf count (w_uncopied env) = Some (w_uncopied env, h2)"
      and ld: "kload h2 kbuf 0 (unat count) = Some ?bs"
      and sh: "kbuf = Ptr c \<and> kmem k c = None \<and> h2 = (kmem k)(c \<mapsto> ?bs) \<or> kbuf = ZERO_SIZE_PTR \<and> h2 = kmem k \<and> buf = []"
      using kbuf_phase [OF al 3(2) len unc] by blast
    have free: "kfree h2 kbuf = Some (kmem k)" using sh kfree_fresh by (auto simp: kfree_def)
    show ?thesis
    proof (cases "w_uncopied env = 0")
      case False
      with 3 dev m cp free unlocked show ?thesis
        by (auto simp: aesd_write_def Let_def exit_free_def)
    next
      case True
      have same: "buffptr ?e = Ptr a \<Longrightarrow> h2 a = kmem k a" for a
        using sh entry_ok_alloc [OF old] by auto
      have ok2: "entry_ok h2 ?e" using old entry_ok_frame [OF same] by simp
      from fail 3 True have none: "w_krealloc env = None" and req: "write_request buf k \<noteq> 0"
        unfolding write_succeeds_def by blast+
      have cp0: "copy_from_user h1 kbuf buf count 0 = Some (0, h2)"
        and ld0: "kload h2 kbuf 0 (unat count) = Some buf"
        using cp ld True len by simp_all
      have "aesd_write env filp buf count k = exit_free (- ENOMEM) kbuf
          ((set_entry (?e\<lparr>buffptr := NULL\<rparr>) ((set_lock True k)\<lparr>kmem := h2\<rparr>))\<lparr>kmem := h2\<rparr>)"
        using aesd_write_second_half [OF dev 3(1) True m cp0 ld0 len small]
          grow_entry_fails [of h2 "(set_lock True k)\<lparr>kmem := h2\<rparr>"] ok2 none req
        by (simp add: write_request_def)
      also have "\<dots> = Some (- ENOMEM, set_entry (?e\<lparr>buffptr := NULL\<rparr>) k)"
        using free unlocked by (cases k; cases "aesd_device k") (simp add: exit_free_def)
      finally show ?thesis using 3 True by auto
    qed
  qed
qed

section \<open>Reading\<close>

lemma cb_total_small:
  assumes "dev_inv k"
  shows "cb_total (dev_buffer (aesd_device k)) < 2 ^ 64"
proof -
  let ?L = "cb_list (dev_buffer (aesd_device k))"
  have cb: "cb_inv (dev_buffer (aesd_device k))" using assms by (simp add: dev_inv_def)
  have "\<And>e. e \<in> set ?L \<Longrightarrow> unat (esize e) \<le> block_limit"
    using assms by (auto simp: dev_inv_def dev_entries_def entry_ok_def)
  then have "sum_list (entry_sizes ?L) \<le> (\<Sum>e\<leftarrow>?L. block_limit)"
    by (intro sum_list_mono) simp
  also have "\<dots> \<le> 10 * block_limit"
    using cb_list_length [OF cb] by (simp add: sum_list_triv)
  also have "\<dots> < 2 ^ 64" by (simp add: block_limit_def)
  finally show ?thesis .
qed

lemma entry_sizes_lines:
  "dev_inv k \<Longrightarrow> entry_sizes (cb_list (dev_buffer (aesd_device k))) = map length (dev_lines k)"
  by (auto simp: dev_inv_def dev_entries_def dev_lines_def entry_ok_def valid_block_length)

text \<open>
  How many bytes a read of \<open>count\<close> bytes at position \<open>pos\<close> returns: it stops at the end
  of the stored line that holds the position.
\<close>

definition read_length :: "bytes list \<Rightarrow> nat \<Rightarrow> nat \<Rightarrow> nat" where
  "read_length lines pos count =
     (case locate (map length lines) pos of
        None \<Rightarrow> 0
      | Some (i, off) \<Rightarrow> min count (length (lines ! i) - off))"

lemma aesd_read_refines:
  assumes inv: "dev_inv k" and dev: "private_data filp = AesdDevice"
    and env: "r_lock_rc env = 0" "r_uncopied env = 0"
  shows "let n = read_length (dev_lines k) (unat (f_pos filp)) (unat count) in
    aesd_read env filp count k =
      Some (int n, filp\<lparr>f_pos := f_pos filp + word_of_nat n\<rparr>,
        take n (drop (unat (f_pos filp)) (concat (dev_lines k))), k)"
proof -
  let ?b = "dev_buffer (aesd_device k)"
  have cb: "cb_inv ?b" and unlocked: "\<not> dev_lock (aesd_device k)" using inv by (simp_all add: dev_inv_def)
  have find: "aesd_circular_buffer_find_entry_offset_for_fpos (Some ?b) (f_pos filp) False =
      map_option (\<lambda>(j, k). ((unat (cb_out_offs ?b) + j) mod 10, word_of_nat k))
        (locate (map length (dev_lines k)) (unat (f_pos filp)))"
    using find_entry_locate [OF cb cb_total_small [OF inv]] by (simp add: entry_sizes_lines [OF inv])
  have id: "k\<lparr>aesd_device := (aesd_device k)\<lparr>dev_lock := False\<rparr>\<rparr> = k"
    using unlocked by (cases k; cases "aesd_device k") simp
  show ?thesis
  proof (cases "locate (map length (dev_lines k)) (unat (f_pos filp))")
    case None
    then show ?thesis using dev env find id by (simp add: aesd_read_def read_length_def)
  next
    case (Some ik)
    then obtain i off where loc: "locate (map length (dev_lines k)) (unat (f_pos filp)) = Some (i, off)"
      by (cases ik) simp
    note at = locate_concat [OF loc]
    define e where "e = cb_list ?b ! i"
    have i: "i < length (cb_list ?b)" using at(2) by (simp add: dev_lines_def)
    have slot: "cb_entry ?b ! ((unat (cb_out_offs ?b) + i) mod 10) = e"
      using cb_list_nth [OF cb i] by (simp add: e_def)
    have "entry_ok (kmem k) e" using inv i by (simp add: dev_inv_def dev_entries_def e_def)
    then have val: "valid_block (kmem k) (buffptr e) (unat (esize e))" and lim: "unat (esize e) < block_limit"
      by (simp_all add: entry_ok_def)
    have line: "dev_lines k ! i = block (kmem k) (buffptr e)" using i by (simp add: dev_lines_def e_def)
    then have size: "unat (esize e) = length (dev_lines k ! i)" using valid_block_length [OF val] by simp
    have off: "unat (word_of_nat off :: size_t) = off"
      using at(3) size lim by (intro unat_of_nat_size_t) (simp add: block_limit_def)
    define n where "n = min count (esize e - word_of_nat off)"
    have un: "unat n = min (unat count) (length (dev_lines k ! i) - off)"
      using at(3) size off by (simp add: n_def min_def word_le_nat_alt unat_diff_size_t)
    have rl: "read_length (dev_lines k) (unat (f_pos filp)) (unat count) = unat n"
      by (simp add: read_length_def loc un)
    have sn: "sint n = int (unat n)"
      using un lim size by (intro sint_small_size_t) (simp add: block_limit_def)
    have ld: "kload (kmem k) (buffptr e) off (unat n) = Some (take (unat n) (drop off (dev_lines k ! i)))"
      unfolding line using at(3) un size by (intro kload_valid [OF val]) simp
    have out: "take (unat n) (drop (unat (f_pos filp)) (concat (dev_lines k))) = take (unat n) (drop off (dev_lines k ! i))"
      using at(1) un by simp
    show ?thesis
      unfolding Let_def rl out
      using dev env find loc slot ld off sn id by (simp add: aesd_read_def Let_def n_def [symmetric] copy_to_user_def)
  qed
qed

lemma read_length_bounds:
  "read_length lines pos count = n \<Longrightarrow>
    n \<le> count \<and> (n = 0 \<longleftrightarrow> count = 0 \<or> length (concat lines) \<le> pos) \<and> (0 < n \<longrightarrow> pos + n \<le> length (concat lines))"
proof (cases "locate (map length lines) pos")
  case None
  assume "read_length lines pos count = n"
  with None show ?thesis
    using locate_None_iff [of "map length lines" pos] by (auto simp: read_length_def length_concat)
next
  case (Some p)
  obtain i off where p: "p = (i, off)" by (cases p)
  assume n: "read_length lines pos count = n"
  have d: "drop pos (concat lines) = drop off (lines ! i) @ concat (drop (Suc i) lines)"
    and off: "off < length (lines ! i)"
    using locate_concat [of lines pos i off] Some p by simp_all
  have len: "length (concat lines) - pos = length (lines ! i) - off + length (concat (drop (Suc i) lines))"
    using arg_cong [OF d, of length] by (simp del: length_concat)
  have "n = min count (length (lines ! i) - off)"
    using n Some p by (simp add: read_length_def)
  then show ?thesis using len off by auto
qed

lemma dev_lines_total: "dev_inv k \<Longrightarrow> length (concat (dev_lines k)) < 2 ^ 64"
  using cb_total_small [of k] entry_sizes_lines [of k] by (simp add: length_concat)

text \<open>A read that is let through, seen from the reader: the position moves over what was read.\<close>

lemma aesd_read_step:
  assumes inv: "dev_inv k" and dev: "private_data filp = AesdDevice"
    and env: "r_lock_rc env = 0" "r_uncopied env = 0"
  shows "\<exists>out filp'. aesd_read env filp count k = Some (int (length out), filp', out, k) \<and>
    private_data filp' = AesdDevice \<and> length out \<le> unat count \<and>
    (out = [] \<longleftrightarrow> count = 0 \<or> length (concat (dev_lines k)) \<le> unat (f_pos filp)) \<and>
    unat (f_pos filp') = unat (f_pos filp) + length out \<and>
    drop (unat (f_pos filp)) (concat (dev_lines k)) = out @ drop (unat (f_pos filp')) (concat (dev_lines k))"
proof -
  let ?C = "concat (dev_lines k)" and ?p = "unat (f_pos filp)"
  define n where "n = read_length (dev_lines k) ?p (unat count)"
  have n: "n \<le> unat count" "n = 0 \<longleftrightarrow> unat count = 0 \<or> length ?C \<le> ?p" "0 < n \<longrightarrow> ?p + n \<le> length ?C"
    using read_length_bounds [OF n_def [symmetric]] by simp_all
  define out where "out = take n (drop ?p ?C)"
  have len: "length out = n" using n by (auto simp: out_def simp del: length_concat)
  have small: "unat (word_of_nat n :: size_t) = n"
    using n(1) unat_size_t_bound [of count] by (intro unat_of_nat_size_t) simp
  have pos: "unat (f_pos filp + word_of_nat n) = ?p + n"
  proof (cases "n = 0")
    case False
    then show ?thesis using n(3) dev_lines_total [OF inv] by (subst unat_add_size_t) (simp_all add: small)
  qed simp
  have "drop ?p ?C = out @ drop (?p + n) ?C"
    unfolding out_def by (metis append_take_drop_id drop_drop add.commute)
  moreover have "aesd_read env filp count k = Some (int n, filp\<lparr>f_pos := f_pos filp + word_of_nat n\<rparr>, out, k)"
    using aesd_read_refines [OF inv dev env, of count] by (simp add: Let_def n_def out_def)
  moreover have "out = [] \<longleftrightarrow> count = 0 \<or> length ?C \<le> ?p"
    using n(2) len by (auto simp: unat_eq_zero simp del: length_concat)
  ultimately show ?thesis using dev n(1) len pos
    by (intro exI [of _ out] exI [of _ "filp\<lparr>f_pos := f_pos filp + word_of_nat n\<rparr>"]) (simp del: length_concat)
qed

text \<open>Past the end of the contents nothing is copied, so a failing copy does not matter there.\<close>

lemma aesd_read_granted:
  assumes inv: "dev_inv k" and dev: "private_data filp = AesdDevice" and lock: "r_lock_rc env = 0"
    and copy: "r_uncopied env = 0 \<or> length (concat (dev_lines k)) \<le> unat (f_pos filp)"
  shows "\<exists>out filp'. aesd_read env filp count k = Some (int (length out), filp', out, k) \<and>
    private_data filp' = AesdDevice \<and> length out \<le> unat count \<and>
    (out = [] \<longleftrightarrow> count = 0 \<or> length (concat (dev_lines k)) \<le> unat (f_pos filp)) \<and>
    unat (f_pos filp') = unat (f_pos filp) + length out \<and>
    drop (unat (f_pos filp)) (concat (dev_lines k)) = out @ drop (unat (f_pos filp')) (concat (dev_lines k))"
proof (cases "r_uncopied env = 0")
  case True
  then show ?thesis using aesd_read_step [OF inv dev lock] by blast
next
  case False
  then have past: "length (concat (dev_lines k)) \<le> unat (f_pos filp)" using copy by simp
  then have "locate (map length (dev_lines k)) (unat (f_pos filp)) = None"
    by (simp add: locate_None_iff length_concat)
  then have "aesd_circular_buffer_find_entry_offset_for_fpos (Some (dev_buffer (aesd_device k))) (f_pos filp) False = None"
    using find_entry_locate [of "dev_buffer (aesd_device k)" "f_pos filp"] inv cb_total_small [OF inv]
      entry_sizes_lines [OF inv] by (simp add: dev_inv_def)
  moreover have "k\<lparr>aesd_device := (aesd_device k)\<lparr>dev_lock := False\<rparr>\<rparr> = k"
    using inv by (cases k; cases "aesd_device k") (simp add: dev_inv_def)
  ultimately have "aesd_read env filp count k = Some (0, filp, [], k)"
    using dev lock by (simp add: aesd_read_def)
  then show ?thesis using past dev by (simp del: length_concat)
qed

text \<open>Reading on with buffers of any sizes until everything has been read.\<close>

fun dev_reads :: "read_env \<Rightarrow> struct_file \<Rightarrow> size_t list \<Rightarrow> kernel \<Rightarrow> bytes option" where
  "dev_reads env filp [] k = Some []"
| "dev_reads env filp (count # counts) k =
     (case aesd_read env filp count k of
        None \<Rightarrow> None
      | Some (retval, filp', out, k') \<Rightarrow> map_option (\<lambda>bs. out @ bs) (dev_reads env filp' counts k'))"

lemma dev_reads_rest:
  assumes "dev_inv k" and "r_lock_rc env = 0" "r_uncopied env = 0" and "0 \<notin> set counts"
  shows "private_data filp = AesdDevice \<Longrightarrow> length (concat (dev_lines k)) - unat (f_pos filp) \<le> length counts \<Longrightarrow>
    dev_reads env filp counts k = Some (drop (unat (f_pos filp)) (concat (dev_lines k)))"
  using assms(4)
proof (induction counts arbitrary: filp)
  case Nil
  then show ?case by simp
next
  case (Cons count counts)
  let ?C = "concat (dev_lines k)"
  from aesd_read_step [OF assms(1) Cons.prems(1) assms(2,3), of count] obtain out f' where
    rd: "aesd_read env filp count k = Some (int (length out), f', out, k)" "private_data f' = AesdDevice"
    and out: "out = [] \<longleftrightarrow> count = 0 \<or> length ?C \<le> unat (f_pos filp)"
    and pos: "unat (f_pos f') = unat (f_pos filp) + length out"
    and rest: "drop (unat (f_pos filp)) ?C = out @ drop (unat (f_pos f')) ?C" by blast
  have "length ?C - unat (f_pos f') \<le> length counts"
    using Cons.prems(2,3) out pos by (cases out) (auto simp del: length_concat)
  from Cons.IH [OF rd(2) this] Cons.prems(3) rd(1) rest show ?case by simp
qed

lemma aesd_read_copy_fault:
  assumes inv: "dev_inv k" and dev: "private_data filp = AesdDevice"
    and env: "r_lock_rc env = 0" "r_uncopied env \<noteq> 0"
    and pos: "unat (f_pos filp) < length (concat (dev_lines k))"
  shows "\<exists>out. aesd_read env filp count k = Some (- EFAULT, filp, out, k) \<and> length out \<le> unat count"
proof -
  let ?env = "env\<lparr>r_uncopied := 0\<rparr>"
  let ?b = "dev_buffer (aesd_device k)"
  have "locate (map length (dev_lines k)) (unat (f_pos filp)) \<noteq> None"
    using pos by (simp add: locate_None_iff length_concat)
  then obtain index off where
    f: "aesd_circular_buffer_find_entry_offset_for_fpos (Some ?b) (f_pos filp) False = Some (index, off)"
    using find_entry_locate [of ?b "f_pos filp"] inv cb_total_small [OF inv] entry_sizes_lines [OF inv]
    by (auto simp: dev_inv_def)
  let ?e = "cb_entry ?b ! index"
  have good: "aesd_read ?env filp count k \<noteq> None"
    using aesd_read_refines [OF inv dev, of ?env count] env by (auto simp: Let_def)
  then obtain bs where "kload (kmem k) (buffptr ?e) (unat off) (unat (min count (esize ?e - off))) = Some bs"
    using dev env(1) f by (auto simp: aesd_read_def Let_def copy_to_user_def split: option.splits)
  moreover have "length (take (unat (min count (esize ?e - off)) - r_uncopied env) bs) \<le> unat count"
    using word_le_nat_alt [of "min count (esize ?e - off)" count] by (simp add: min.coboundedI1)
  moreover have "k\<lparr>aesd_device := (aesd_device k)\<lparr>dev_lock := False\<rparr>\<rparr> = k"
    using inv by (cases k; cases "aesd_device k") (simp add: dev_inv_def)
  ultimately show ?thesis
    using dev env f by (auto simp: aesd_read_def Let_def copy_to_user_def)
qed

lemma read_keeps_kernel:
  assumes inv: "dev_inv k" and dev: "private_data filp = AesdDevice"
  shows "\<exists>r f out. aesd_read env filp count k = Some (r, f, out, k)"
proof (cases "r_lock_rc env = 0")
  case True
  show ?thesis
  proof (cases "r_uncopied env = 0 \<or> length (concat (dev_lines k)) \<le> unat (f_pos filp)")
    case True
    from aesd_read_granted [OF inv dev \<open>r_lock_rc env = 0\<close> this, of count] show ?thesis by blast
  next
    case False
    then show ?thesis using aesd_read_copy_fault [OF inv dev \<open>r_lock_rc env = 0\<close>, of count] by auto
  qed
qed (use dev in \<open>simp add: aesd_read_def\<close>)

section \<open>The block of a dropped line\<close>

lemma evicted_block_stays:
  assumes inv: "dev_inv k" and dev: "private_data filp = AesdDevice"
    and law: "write_lawful env buf count k" and succ: "write_succeeds env buf count k"
    and nl: "newline \<in> set buf" and full: "cb_full (dev_buffer (aesd_device k))"
    and a: "buffptr (hd (cb_list (dev_buffer (aesd_device k)))) = Ptr a"
  shows "\<exists>k'. aesd_write env filp buf count k = Some (int (unat count), k') \<and>
    kmem k' a = kmem k a \<and> kmem k a \<noteq> None \<and> a \<notin> set (addrs (dev_entries k'))"
proof -
  let ?d = "aesd_device k" and ?n = "word_of_nat (length (upto_newline buf)) :: size_t"
  let ?L = "cb_list (dev_buffer ?d)"
  have cb: "cb_inv (dev_buffer ?d)" using inv by (simp add: dev_inv_def)
  then have "length ?L = 10" using full by (simp add: cb_full_list_length)
  then obtain e0 L' where L: "?L = e0 # L'" by (cases ?L) auto
  have ok: "entry_ok (kmem k) e0" and e0: "buffptr e0 = Ptr a"
    using inv a by (simp_all add: dev_inv_def dev_entries_def L)
  have alloc: "kmem k a \<noteq> None" by (rule entry_ok_alloc [OF ok e0])
  have pend: "buffptr (dev_entry ?d) \<noteq> Ptr a" and rest: "a \<notin> set (addrs L')"
    using inv e0 by (auto simp: dev_inv_def dev_entries_def L)
  from aesd_write_effect [OF inv dev law succ] obtain q h' where
    run: "aesd_write env filp buf count k =
      map_option (\<lambda>b. (int (unat count),
        k\<lparr>aesd_device := ?d\<lparr>dev_buffer := b, dev_entry := zero_entry, dev_lock := False\<rparr>, kmem := h'\<rparr>))
        (aesd_circular_buffer_add_entry (dev_buffer ?d) \<lparr>buffptr = q, esize = esize (dev_entry ?d) + ?n\<rparr>)"
    and fr: "q \<noteq> Ptr a" "h' a = kmem k a"
    unfolding Let_def using nl alloc pend by auto
  from add_entry_full [OF cb full, of "\<lparr>buffptr = q, esize = esize (dev_entry ?d) + ?n\<rparr>"] obtain b where
    b: "aesd_circular_buffer_add_entry (dev_buffer ?d) \<lparr>buffptr = q, esize = esize (dev_entry ?d) + ?n\<rparr> = Some b"
      "cb_list b = L' @ [\<lparr>buffptr = q, esize = esize (dev_entry ?d) + ?n\<rparr>]"
    by (auto simp: L)
  show ?thesis
    using run b fr alloc rest by (auto simp: dev_entries_def zero_entry_def split: ptr.splits)
qed

section \<open>Sequences of writes\<close>

text \<open>The bytes of a stream cut into complete lines and an unfinished rest.\<close>

fun split_lines :: "bytes \<Rightarrow> bytes list \<times> bytes" where
  "split_lines [] = ([], [])"
| "split_lines (c # cs) =
     (case split_lines cs of (ls, r) \<Rightarrow>
        if c = newline then ([newline] # ls, r)
        else case ls of [] \<Rightarrow> ([], c # r) | l # ls' \<Rightarrow> ((c # l) # ls', r))"

lemma split_lines_append_rest:
  "newline \<notin> set t \<Longrightarrow> split_lines (s @ t) = (fst (split_lines s), snd (split_lines s) @ t)"
proof (induction s)
  case Nil
  then show ?case by (induction t) auto
next
  case (Cons c s)
  then show ?case by (auto split: prod.splits list.splits)
qed

lemma split_lines_append_line:
  "newline \<notin> set t \<Longrightarrow>
    split_lines (s @ t @ [newline]) = (fst (split_lines s) @ [snd (split_lines s) @ t @ [newline]], [])"
proof (induction s)
  case Nil
  then show ?case by (induction t) auto
next
  case (Cons c s)
  then show ?case by (auto split: prod.splits list.splits)
qed

text \<open>A chunk with at most one newline, at its end: what line-oriented clients write.\<close>

definition line_chunk :: "bytes \<Rightarrow> bool" where
  "line_chunk bs \<longleftrightarrow> newline \<notin> set (butlast bs)"

lemma line_chunk_cases:
  assumes "line_chunk bs"
  shows "newline \<notin> set bs \<or> (\<exists>t. bs = t @ [newline] \<and> newline \<notin> set t)"
  using assms by (cases bs rule: rev_cases) (auto simp: line_chunk_def)

lemma write_spec_stream:
  assumes "line_chunk bs"
  shows "write_spec (last_n 10 (fst (split_lines s)), snd (split_lines s)) bs =
    (last_n 10 (fst (split_lines (s @ bs))), snd (split_lines (s @ bs)))"
  using line_chunk_cases [OF assms]
proof
  assume "newline \<notin> set bs"
  then show ?thesis by (simp add: write_spec_def split_lines_append_rest)
next
  assume "\<exists>t. bs = t @ [newline] \<and> newline \<notin> set t"
  then obtain t where t: "bs = t @ [newline]" "newline \<notin> set t" by blast
  then have "takeWhile (\<lambda>c. c \<noteq> newline) bs = t" by (auto simp: takeWhile_tail takeWhile_eq_all_conv)
  then show ?thesis
    using t last_n_last_n_snoc [of 10 "fst (split_lines s)" "snd (split_lines s) @ t @ [newline]"]
    by (simp add: write_spec_def upto_newline_def split_lines_append_line)
qed

text \<open>
  A sequence of \<open>write\<close> calls on an open device, with the environment of each, and what it
  takes for all of them to succeed.
\<close>

fun dev_writes :: "struct_file \<Rightarrow> (write_env \<times> bytes) list \<Rightarrow> kernel \<Rightarrow> kernel option" where
  "dev_writes filp [] k = Some k"
| "dev_writes filp ((env, bs) # ws) k =
     Option.bind (aesd_write env filp bs (word_of_nat (length bs)) k) (\<lambda>(r, k'). dev_writes filp ws k')"

fun writes_succeed :: "struct_file \<Rightarrow> (write_env \<times> bytes) list \<Rightarrow> kernel \<Rightarrow> bool" where
  "writes_succeed filp [] k = True"
| "writes_succeed filp ((env, bs) # ws) k =
     (write_lawful env bs (word_of_nat (length bs)) k \<and> write_succeeds env bs (word_of_nat (length bs)) k \<and>
      (case aesd_write env filp bs (word_of_nat (length bs)) k of
         None \<Rightarrow> False | Some (r, k') \<Rightarrow> writes_succeed filp ws k'))"

lemma dev_writes_view:
  assumes dev: "private_data filp = AesdDevice"
  shows "dev_inv k \<Longrightarrow> writes_succeed filp ws k \<Longrightarrow>
    \<exists>k'. dev_writes filp ws k = Some k' \<and> dev_inv k' \<and>
      dev_view k' = foldl write_spec (dev_view k) (map snd ws)"
proof (induction ws arbitrary: k)
  case Nil
  then show ?case by simp
next
  case (Cons w ws)
  obtain env bs where w: "w = (env, bs)" by (cases w)
  let ?n = "word_of_nat (length bs) :: size_t"
  from Cons.prems w have law: "write_lawful env bs ?n k" "write_succeeds env bs ?n k" by simp_all
  from aesd_write_refines [OF Cons.prems(1) dev law] obtain k1 where
    k1: "aesd_write env filp bs ?n k = Some (int (unat ?n), k1)" "dev_inv k1"
      "dev_view k1 = write_spec (dev_view k) bs" by blast
  from Cons.prems(2) w k1(1) have "writes_succeed filp ws k1" by simp
  from Cons.IH [OF k1(2) this] w k1 show ?case by simp
qed

lemma foldl_write_spec_stream:
  "\<forall>bs \<in> set chunks. line_chunk bs \<Longrightarrow>
    foldl write_spec (last_n 10 (fst (split_lines s)), snd (split_lines s)) chunks =
      (last_n 10 (fst (split_lines (s @ concat chunks))), snd (split_lines (s @ concat chunks)))"
  by (induction chunks arbitrary: s) (simp_all add: write_spec_stream)

section \<open>Module load and unload\<close>

lemma init_state_inv:
  assumes "dev_buffer (aesd_device k) = aesd_circular_buffer_init" and "dev_entry (aesd_device k) = zero_entry"
    and "\<not> dev_lock (aesd_device k)"
  shows "dev_inv k" and "dev_view k = ([], [])"
  using assms
  by (simp_all add: dev_inv_def dev_entries_def cb_init_inv cb_init_list entry_ok_def zero_entry_def
      block_limit_def dev_lines_def dev_pending_def)

lemma aesd_init_module_effect:
  "aesd_init_module env k = (r, k') \<Longrightarrow>
    (r = 0 \<longrightarrow> dev_inv k' \<and> dev_view k' = ([], []) \<and> kmem k' = kmem k \<and>
       chrdev_region k' = Some (i_dev env) \<and> cdev_live k' = Some (MKDEV (MAJOR (i_dev env)) aesd_minor)) \<and>
    (r \<noteq> 0 \<longrightarrow> kmem k' = kmem k \<and> cdev_live k' = cdev_live k \<and>
       (chrdev_region k = None \<longrightarrow> chrdev_region k' = None))"
  by (auto simp: aesd_init_module_def aesd_setup_cdev_def Let_def zero_entry_def
      init_state_inv(1) init_state_inv(2) [unfolded prod.inject]
      split: if_splits)

lemma ofold_kfree:
  assumes "distinct (addrs es)" and "\<And>a. a \<in> set (addrs es) \<Longrightarrow> h a \<noteq> None"
  shows "ofold (\<lambda>h e. if buffptr e \<noteq> NULL then kfree h (buffptr e) else Some h) h es =
    Some (\<lambda>a. if a \<in> set (addrs es) then None else h a)"
  using assms
proof (induction es arbitrary: h)
  case Nil
  then show ?case by simp
next
  case (Cons e es)
  show ?case
  proof (cases "buffptr e")
    case (Ptr a)
    with Cons.prems have a: "h a \<noteq> None" "a \<notin> set (addrs es)" by simp_all
    have "ofold (\<lambda>h e. if buffptr e \<noteq> NULL then kfree h (buffptr e) else Some h) (h(a := None)) es =
        Some (\<lambda>b. if b \<in> set (addrs es) then None else (h(a := None)) b)"
      using Cons.prems Ptr a by (intro Cons.IH) auto
    with Ptr a show ?thesis by (auto simp: kfree_def fun_eq_iff)
  qed (use Cons in \<open>simp_all add: kfree_def\<close>)
qed

lemma addrs_zero [simp]: "addrs (replicate n zero_entry) = []"
  by (induction n) (simp_all add: zero_entry_def)

lemma addrs_rotate:
  "set (addrs (rotate n es)) = set (addrs es)" "distinct (addrs (rotate n es)) = distinct (addrs es)"
proof -
  have *: "addrs es = addrs (take (n mod length es) es) @ addrs (drop (n mod length es) es)"
    by (metis addrs_simps(2) append_take_drop_id)
  show "set (addrs (rotate n es)) = set (addrs es)" by (subst *) (auto simp: rotate_drop_take)
  show "distinct (addrs (rotate n es)) = distinct (addrs es)" using arg_cong [OF *, of distinct] by (auto simp: rotate_drop_take)
qed

lemma addrs_array:
  assumes "cb_inv b"
  shows "set (addrs (cb_entry b)) = set (addrs (cb_list b))"
    and "distinct (addrs (cb_entry b)) = distinct (addrs (cb_list b))"
  using addrs_rotate [of "unat (cb_out_offs b)" "cb_entry b"] cb_scan_order [OF assms] by simp_all

lemma aesd_cleanup_module_effect:
  assumes inv: "dev_inv k"
  shows "aesd_cleanup_module k =
    Some (k\<lparr>kmem := (\<lambda>a. if a \<in> set (addrs (dev_entries k)) then None else kmem k a),
            cdev_live := None, chrdev_region := None\<rparr>)"
proof -
  let ?p = "dev_entry (aesd_device k)" and ?b = "dev_buffer (aesd_device k)"
  let ?free = "\<lambda>h e. if buffptr e \<noteq> NULL then kfree h (buffptr e) else Some h"
  have cb: "cb_inv ?b" using inv by (simp add: dev_inv_def)
  then have len: "length (cb_entry ?b) = 10" by (simp add: cb_inv_def)
  have "distinct (addrs (?p # cb_list ?b))" using inv by (simp add: dev_inv_def dev_entries_def)
  then have dist: "distinct (addrs (?p # cb_entry ?b))"
    using addrs_array [OF cb] by simp
  have alloc: "\<And>a. a \<in> set (addrs (?p # cb_entry ?b)) \<Longrightarrow> kmem k a \<noteq> None"
    using inv addrs_array(1) [OF cb] entry_ok_alloc
    by (fastforce simp: dev_inv_def dev_entries_def in_addrs_iff simp del: addrs_simps(3))
  have set: "set (addrs (?p # cb_entry ?b)) = set (addrs (dev_entries k))"
    using addrs_array(1) [OF cb] by (simp add: dev_entries_def)
  have "ofold ?free (kmem k) (?p # cb_entry ?b) =
      Some (\<lambda>a. if a \<in> set (addrs (dev_entries k)) then None else kmem k a)"
    using ofold_kfree [OF dist alloc] unfolding set .
  then show ?thesis
    unfolding aesd_cleanup_module_def Let_def foreach_entries [OF len] ofold.simps
    by (auto simp: Option.bind_eq_Some_conv)
qed

section \<open>After a failed reallocation\<close>

lemma request_nonzero:
  assumes inv: "dev_inv k" and law: "write_lawful env buf count k" and km: "w_kmalloc env \<noteq> None"
    and pend: "dev_pending k \<noteq> []"
  shows "write_request buf k \<noteq> 0"
proof -
  let ?e = "dev_entry (aesd_device k)"
  have ok: "valid_block (kmem k) (buffptr ?e) (unat (esize ?e))" "unat (esize ?e) < block_limit"
    using inv by (simp_all add: dev_inv_def dev_entries_def entry_ok_def)
  have small: "unat count < block_limit" using write_lawful_small [OF law] km by simp
  have len: "length buf = unat count" using law by (simp add: write_lawful_def)
  note word = upto_newline_word(1) [OF len small]
  have "unat (write_request buf k) = unat (esize ?e) + unat (word_of_nat (length (upto_newline buf)) :: size_t)"
    unfolding write_request_def
    using ok(2) upto_newline_length [of buf] len small word
    by (intro unat_add_size_t) (simp add: block_limit_def)
  moreover have "unat (esize ?e) \<noteq> 0" using valid_block_length [OF ok(1)] pend
    unfolding dev_pending_def by (metis length_0_conv)
  ultimately show ?thesis by (metis add_is_0 unat_0)
qed

text \<open>
  The state a failed \<open>krealloc\<close> leaves behind: the pending entry has no buffer but keeps its
  size. The next append allocates a fresh block for the stale size plus the new bytes and copies
  only the new bytes into it.
\<close>

lemma dev_inv_clear_entry: "dev_inv k \<Longrightarrow> dev_inv (set_entry zero_entry k)"
  by (auto simp: dev_inv_def dev_entries_def zero_entry_def entry_ok_def block_limit_def split: ptr.splits)

text \<open>A read at the beginning of the last line.\<close>

lemma read_last_line:
  assumes inv: "dev_inv k" and dev: "private_data filp = AesdDevice" "r_lock_rc env = 0" "r_uncopied env = 0"
    and lines: "dev_lines k = ls @ [l]" and pos: "unat (f_pos filp) = length (concat ls)" and l: "l \<noteq> []"
  shows "\<exists>f'. aesd_read env filp count k = Some (int (min (unat count) (length l)), f', take (unat count) l, k)"
proof -
  have "locate (map length ls @ [length l]) (sum_list (map length ls)) = Some (length ls, 0)"
    using l by (induction ls) simp_all
  then have "read_length (dev_lines k) (unat (f_pos filp)) (unat count) = min (unat count) (length l)"
    by (simp add: read_length_def lines pos length_concat)
  with aesd_read_refines [OF inv dev, of count] pos show ?thesis by (simp add: Let_def lines min_def)
qed

lemma grow_entry_stale:
  fixes k n
  defines "e \<equiv> dev_entry (aesd_device k)"
  assumes stale: "buffptr e = NULL"
    and kbuf: "kbuf = Ptr c" "kmem k c = Some bs" "b \<noteq> c" "unat n \<le> length bs" "n \<noteq> 0"
    and junk: "length junk = unat (esize e) + unat n" "length junk < 2 ^ 64"
  shows "grow_entry (Some (b, junk)) kbuf n k =
    Some (True, (set_entry \<lparr>buffptr = Ptr b, esize = esize e + n\<rparr> k)
      \<lparr>kmem := (kmem k)(b \<mapsto> take (unat (esize e)) junk @ take (unat n) bs)\<rparr>)"
proof -
  have sum: "unat (esize e + n) = unat (esize e) + unat n"
    using junk by (intro unat_add_size_t) simp
  have "unat n \<noteq> 0" using kbuf(5) by (simp add: unat_eq_zero)
  then have nz: "esize e + n \<noteq> 0" using sum by (metis add_is_0 unat_0)
  show ?thesis
    using stale kbuf junk nz \<open>unat n \<noteq> 0\<close>
    by (auto simp add: grow_entry_def Let_def e_def [symmetric] c_defs min_def)
qed

lemma stale_write_commits_junk:
  fixes k env
  defines "e \<equiv> dev_entry (aesd_device k)"
  assumes inv: "dev_inv (set_entry zero_entry k)" and dev: "private_data filp = AesdDevice"
    and stale: "buffptr e = NULL" and nl: "newline \<in> set buf"
    and env: "w_lock_rc env = 0" "w_uncopied env = 0" "w_kmalloc env = Some (c, cjunk)"
      "w_krealloc env = Some (b, junk)"
    and law: "write_lawful env buf count k"
    and size: "unat (esize e) < block_limit"
  shows "\<exists>k'. aesd_write env filp buf count k = Some (int (unat count), k') \<and>
    dev_inv k' \<and> dev_lines k' = last_n 10 (dev_lines k @ [take (unat (esize e)) junk @ upto_newline buf]) \<and>
    length junk = unat (esize e) + length (upto_newline buf)"
proof -
  let ?n = "word_of_nat (length (upto_newline buf)) :: size_t"
  have len: "length buf = unat count" using law by (simp add: write_lawful_def)
  have "0 < length buf" using nl by auto
  with len have nz: "count \<noteq> 0" by auto
  have small: "unat count < block_limit" using write_lawful_small [OF law] env(3) by simp
  note word = upto_newline_word [OF len small]
  from law env nz len have c: "kmem k c = None" and cj: "length cjunk = unat count" and bc: "b \<noteq> c" and b: "kmem k b = None"
    and jl: "length junk = unat (esize e + ?n)" "unat (esize e + ?n) < block_limit"
    by (auto simp: write_lawful_def alloc_ok_def kmalloc_def write_request_def e_def stale [unfolded e_def] split: if_splits)
  have sum: "unat (esize e + ?n) = unat (esize e) + unat ?n"
    using size small word(1) upto_newline_length [of buf] len
    by (intro unat_add_size_t) (simp add: block_limit_def)
  have upl: "0 < length (upto_newline buf)" using nl by (simp add: upto_newline_def)
  have n0: "?n \<noteq> 0" using word(1) upl by (metis less_numeral_extra(3) unat_0)
  let ?h2 = "(kmem k)(c \<mapsto> buf)"
  have m: "kmalloc (kmem k) count (w_kmalloc env) = (Ptr c, (kmem k)(c \<mapsto> cjunk))" "Ptr c \<noteq> NULL"
    using nz env by (simp_all add: kmalloc_def)
  have cp: "copy_from_user ((kmem k)(c \<mapsto> cjunk)) (Ptr c) buf count 0 = Some (0, ?h2)"
    and ld: "kload ?h2 (Ptr c) 0 (unat count) = Some buf"
    using len cj \<open>0 < length buf\<close> by (auto simp: c_defs)
  define e' where "e' = \<lparr>buffptr = Ptr b, esize = esize e + ?n\<rparr>"
  define h3 where "h3 = ?h2(b \<mapsto> take (unat (esize e)) junk @ upto_newline buf)"
  have grow: "grow_entry (w_krealloc env) (Ptr c) ?n ((set_lock True k)\<lparr>kmem := ?h2\<rparr>) =
      Some (True, (set_entry e' ((set_lock True k)\<lparr>kmem := ?h2\<rparr>))\<lparr>kmem := h3\<rparr>)"
    using grow_entry_stale [of "(set_lock True k)\<lparr>kmem := ?h2\<rparr>" "Ptr c" c buf b ?n junk]
      stale bc word(1,2) upto_newline_length [of buf] n0 jl sum
    by (simp add: env e'_def h3_def e_def block_limit_def)
  define h' where "h' = (kmem k)(b \<mapsto> take (unat (esize e)) junk @ upto_newline buf)"
  have free: "kfree h3 (Ptr c) = Some h'" using bc c by (auto simp: kfree_def h3_def h'_def fun_eq_iff)
  have new: "entry_ok h' e'"
    using jl sum word(1) upl by (auto simp: entry_ok_def e'_def h'_def valid_block_Ptr)
  have "dev_lines (set_entry zero_entry k) = dev_lines k" "block h' (buffptr e') = take (unat (esize e)) junk @ upto_newline buf"
    by (simp_all add: dev_lines_def e'_def h'_def)
  note lines = this
  have "buffptr e' \<noteq> Ptr a \<and> h' a = kmem (set_entry zero_entry k) a" if "kmem (set_entry zero_entry k) a \<noteq> None" for a
    using that b by (auto simp: e'_def h'_def)
  then obtain rb where
    rb: "aesd_circular_buffer_add_entry (dev_buffer (aesd_device k)) e' = Some rb"
    and k': "\<And>k'. k' = k\<lparr>aesd_device := (aesd_device k)\<lparr>dev_buffer := rb, dev_entry := zero_entry, dev_lock := False\<rparr>, kmem := h'\<rparr> \<Longrightarrow>
      dev_inv k' \<and> dev_lines k' = last_n 10 (dev_lines k @ [take (unat (esize e)) junk @ upto_newline buf])"
    using commit_entry [OF inv new, unfolded lines] by auto
  have "sint count = int (unat count)" using small by (intro sint_small_size_t) (simp add: block_limit_def)
  then show ?thesis
    using aesd_write_second_half [OF dev env(1,2) m cp ld len small] grow rb free nl k' [OF refl] jl(1) sum word(1)
    by (auto simp: exit_free_def zero_entry_def)
qed

end
