(* ===== verification/Filestore.thy ===== *)
theory Filestore
  imports Driver_Correct
begin

text \<open>
  The filestore of \<open>server/aesdsocket.c\<close>, in both configurations: on the character device
  (\<open>USE_AESD_CHAR_DEVICE\<close>, the one the source defines), where every operation opens the device
  and reaches the driver's file operations, and on a regular file held open for the life of the
  server. Both guard the store with one mutex and send its contents to a socket through a buffer of
  1024 bytes. Answers of the C library and the kernel that the program cannot foresee are arguments.
  Logging is not modelled.
\<close>

section \<open>The process\<close>

text \<open>The state both configurations share: the mutex and what was sent on every socket.\<close>

record proc =
  file_mutex :: bool
  sent :: "nat \<Rightarrow> bytes"

text \<open>
  Locking a free mutex takes it, locking a held one waits; a nonzero return value changes nothing.
\<close>

definition pthread_mutex_lock :: "int \<Rightarrow> 'a proc_scheme \<Rightarrow> (int \<times> 'a proc_scheme) comp" where
  "pthread_mutex_lock rc w =
     (if rc \<noteq> 0 then Inr (rc, w)
      else if file_mutex w then Inl Blocked
      else Inr (0, w\<lparr>file_mutex := True\<rparr>))"

definition pthread_mutex_unlock :: "int \<Rightarrow> 'a proc_scheme \<Rightarrow> int \<times> 'a proc_scheme" where
  "pthread_mutex_unlock rc w = (rc, if rc \<noteq> 0 then w else w\<lparr>file_mutex := False\<rparr>)"

text \<open>
  \<open>send\<close> of \<open>len\<close> bytes of a buffer: it reads all of them, fails, or accepts the first
  \<open>k\<close>.
\<close>

definition sys_send :: "nat option \<Rightarrow> nat \<Rightarrow> bytes \<Rightarrow> size_t \<Rightarrow> 'a proc_scheme \<Rightarrow> (int \<times> 'a proc_scheme) comp" where
  "sys_send rc dest_fd buf len w =
     (if length buf < unat len then Inl Undefined
      else case rc of
        None \<Rightarrow> Inr (- 1, w)
      | Some k \<Rightarrow>
          let out = take (min k (unat len)) buf in
          Inr (int (length out), w\<lparr>sent := (sent w)(dest_fd := sent w dest_fd @ out)\<rparr>))"

section \<open>The sending loop\<close>

text \<open>
  The loop is the same in both configurations, over the \<open>read\<close> of the store. Its counter
  \<open>bytes_read\<close> is a \<open>size_t\<close>, so a \<open>read\<close> that returns minus one makes it the largest
  value of the type. The read comes before the test of \<open>ret\<close>. The result is \<open>None\<close> when the
  loop does not end.
\<close>

partial_function (option) send_loop ::
    "(nat \<Rightarrow> 'a proc_scheme \<Rightarrow> (int \<times> bytes \<times> 'a proc_scheme) comp) \<Rightarrow> (nat \<Rightarrow> nat option) \<Rightarrow> nat \<Rightarrow>
     nat \<Rightarrow> bytes \<Rightarrow> int \<Rightarrow> 'a proc_scheme \<Rightarrow> (int \<times> size_t \<times> 'a proc_scheme) comp option" where
  "send_loop rd sends i dest_fd file_buffer ret w =
     (case rd i w of
        Inl e \<Rightarrow> Some (Inl e)
      | Inr (r, out, w1) \<Rightarrow>
          let bytes_read = word_of_int r :: size_t;
              file_buffer1 = out @ drop (length out) file_buffer
          in if 0 < bytes_read \<and> ret \<noteq> - 1 then
               (case sys_send (sends i) dest_fd file_buffer1 bytes_read w1 of
                  Inl e \<Rightarrow> Some (Inl e)
                | Inr (rc, w2) \<Rightarrow>
                    send_loop rd sends (Suc i) dest_fd file_buffer1 (if rc = - 1 then - 1 else ret) w2)
             else Some (Inr (ret, bytes_read, w1)))"

section \<open>The device configuration\<close>

record world = proc +
  kern :: kernel
  fdt :: "nat \<rightharpoonup> struct_file"

definition device_inode :: struct_inode where
  "device_inode = \<lparr>i_cdev = AesdDevice\<rparr>"

text \<open>\<open>open\<close> of the device: the kernel chooses a descriptor, or fails.\<close>

definition sys_open :: "nat option \<Rightarrow> world \<Rightarrow> world" where
  "sys_open fd w =
     (case fd of
        None \<Rightarrow> w
      | Some n \<Rightarrow> w\<lparr>fdt := (fdt w)(n \<mapsto> snd (aesd_open device_inode \<lparr>private_data = DevNull, f_pos = 0\<rparr>))\<rparr>)"

text \<open>\<open>lseek\<close> sets the position or fails and leaves it.\<close>

definition sys_lseek :: "loff_t option \<Rightarrow> nat option \<Rightarrow> world \<Rightarrow> world" where
  "sys_lseek pos fd w =
     (case (pos, fd) of
        (Some p, Some n) \<Rightarrow> w\<lparr>fdt := (fdt w)(n := map_option (\<lambda>f. f\<lparr>f_pos := p\<rparr>) (fdt w n))\<rparr>
      | _ \<Rightarrow> w)"

text \<open>
  The handlers are installed with \<open>signal\<close>, so a call that a signal interrupts is restarted: when a
  driver operation returns \<open>-ERESTARTSYS\<close> the kernel makes it again once the handler has run, and in
  the end it gets the lock.
\<close>

definition restart_write :: "write_env \<Rightarrow> struct_file \<Rightarrow> bytes \<Rightarrow> size_t \<Rightarrow> kernel \<Rightarrow> (int \<times> kernel) option" where
  "restart_write env filp buf count k =
     Option.bind (aesd_write env filp buf count k) (\<lambda>(r, k1).
       if r = - ERESTARTSYS then aesd_write (env\<lparr>w_lock_rc := 0\<rparr>) filp buf count k1 else Some (r, k1))"

definition restart_read ::
    "read_env \<Rightarrow> struct_file \<Rightarrow> size_t \<Rightarrow> kernel \<Rightarrow> (int \<times> struct_file \<times> bytes \<times> kernel) option" where
  "restart_read env filp count k =
     Option.bind (aesd_read env filp count k) (\<lambda>(r, filp1, out, k1).
       if r = - ERESTARTSYS then aesd_read (env\<lparr>r_lock_rc := 0\<rparr>) filp1 count k1 else Some (r, filp1, out, k1))"

text \<open>The descriptor \<open>None\<close> is minus one; any other negative result of a driver operation is minus
  one with errno for the caller.\<close>

definition sys_write :: "write_env \<Rightarrow> nat option \<Rightarrow> bytes \<Rightarrow> size_t \<Rightarrow> world \<Rightarrow> (int \<times> world) comp" where
  "sys_write env fd data len w =
     (case Option.bind fd (fdt w) of
        None \<Rightarrow> Inr (- 1, w)
      | Some filp \<Rightarrow>
          (case restart_write env filp (take (unat len) data) len (kern w) of
             None \<Rightarrow> Inl Undefined
           | Some (r, k) \<Rightarrow> Inr (if r < 0 then - 1 else r, w\<lparr>kern := k\<rparr>)))"

definition sys_read :: "read_env \<Rightarrow> nat option \<Rightarrow> size_t \<Rightarrow> world \<Rightarrow> (int \<times> bytes \<times> world) comp" where
  "sys_read env fd len w =
     (case fd of
        None \<Rightarrow> Inr (- 1, [], w)
      | Some n \<Rightarrow>
          (case fdt w n of
             None \<Rightarrow> Inr (- 1, [], w)
           | Some filp \<Rightarrow>
               (case restart_read env filp len (kern w) of
                  None \<Rightarrow> Inl Undefined
                | Some (r, filp', out, k) \<Rightarrow>
                    Inr (if r < 0 then - 1 else r, out, w\<lparr>kern := k, fdt := (fdt w)(n \<mapsto> filp')\<rparr>))))"

definition sys_close :: "nat option \<Rightarrow> world \<Rightarrow> world" where
  "sys_close fd w = (case fd of None \<Rightarrow> w | Some n \<Rightarrow> w\<lparr>fdt := (fdt w)(n := None)\<rparr>)"

record fwrite_env =
  fw_lock_rc :: int
  fw_open :: "nat option"
  fw_lseek :: "loff_t option"
  fw_write :: write_env
  fw_unlock_rc :: int

definition filestore_write :: "fwrite_env \<Rightarrow> bytes \<Rightarrow> size_t \<Rightarrow> world \<Rightarrow> (int \<times> world) comp" where
  "filestore_write env data len w =
     andThen (pthread_mutex_lock (fw_lock_rc env) w) (\<lambda>(rc, w1).
       if rc \<noteq> 0 then Inr (- 1, w1)
       else
         let fd = fw_open env; w2 = sys_open fd w1; w3 = sys_lseek (fw_lseek env) fd w2 in
         andThen (sys_write (fw_write env) fd data len w3) (\<lambda>(r, w4).
           if r = - 1 then Inr (- 1, w4)
           else
             let (rc, w5) = pthread_mutex_unlock (fw_unlock_rc env) w4 in
             if rc \<noteq> 0 then Inr (- 1, w5)
             else Inr (0, sys_close fd w5)))"

text \<open>\<open>lseek(fd, 0, SEEK_SET)\<close> succeeds or fails.\<close>

record fread_env =
  fr_lock_rc :: int
  fr_open :: "nat option"
  fr_lseek_ok :: bool
  fr_buffer :: bytes
  fr_reads :: "nat \<Rightarrow> read_env"
  fr_sends :: "nat \<Rightarrow> nat option"
  fr_unlock_rc :: int

definition filestore_read_to_dest :: "fread_env \<Rightarrow> nat \<Rightarrow> world \<Rightarrow> (int \<times> world) comp option" where
  "filestore_read_to_dest env dest_fd w =
     (case pthread_mutex_lock (fr_lock_rc env) w of
        Inl e \<Rightarrow> Some (Inl e)
      | Inr (rc, w1) \<Rightarrow>
          if rc \<noteq> 0 then Some (Inr (- 1, w1))
          else
            let fd = fr_open env; w2 = sys_open fd w1; ret = (if fd = None then - 1 else 0);
                w3 = sys_lseek (if fr_lseek_ok env then Some 0 else None) fd w2
            in case send_loop (\<lambda>i. sys_read (fr_reads env i) fd 1024) (fr_sends env) 0 dest_fd
                      (fr_buffer env) ret w3 of
                 None \<Rightarrow> None
               | Some (Inl e) \<Rightarrow> Some (Inl e)
               | Some (Inr (ret1, bytes_read, w4)) \<Rightarrow>
                   let ret2 = (if bytes_read = - 1 then - 1 else ret1);
                       (rc, w5) = pthread_mutex_unlock (fr_unlock_rc env) w4;
                       ret3 = (if rc \<noteq> 0 then - 1 else ret2)
                   in Some (Inr (ret3, sys_close fd w5)))"

section \<open>The regular-file configuration\<close>

text \<open>
  The file is opened once, for appending; its descriptor has one position, which reads move and
  every write sets to the end. Removing the name leaves the open file as it is. A descriptor that
  was closed answers like minus one.
\<close>

record file_world = proc +
  filestore_fd :: "nat option"
  fdata :: bytes
  fpos :: nat
  flinked :: bool

definition file_init_filestore :: "nat option \<Rightarrow> int \<Rightarrow> file_world \<Rightarrow> int \<times> file_world" where
  "file_init_filestore fd mutex_rc w =
     (case fd of
        None \<Rightarrow> (- 1, w\<lparr>filestore_fd := None\<rparr>)
      | Some n \<Rightarrow>
          let w1 = w\<lparr>filestore_fd := Some n, fdata := (if flinked w then fdata w else []), fpos := 0,
                flinked := True\<rparr>
          in if mutex_rc = - 1 then (- 1, w1\<lparr>filestore_fd := None\<rparr>) else (0, w1\<lparr>file_mutex := False\<rparr>))"

text \<open>\<open>write\<close> on the file: \<open>None\<close> is an error, \<open>Some k\<close> appends the first \<open>k\<close> bytes.\<close>

definition file_write :: "nat option \<Rightarrow> bytes \<Rightarrow> size_t \<Rightarrow> file_world \<Rightarrow> int \<times> file_world" where
  "file_write rc data len w =
     (case (filestore_fd w, rc) of
        (Some n, Some k) \<Rightarrow>
          let out = take (min k (unat len)) data in
          (int (length out), w\<lparr>fdata := fdata w @ out, fpos := length (fdata w @ out)\<rparr>)
      | _ \<Rightarrow> (- 1, w))"

definition file_read :: "bool \<Rightarrow> nat \<Rightarrow> file_world \<Rightarrow> (int \<times> bytes \<times> file_world) comp" where
  "file_read ok len w =
     Inr (case filestore_fd w of
        Some n \<Rightarrow>
          if ok then
            let out = take len (drop (fpos w) (fdata w)) in
            (int (length out), out, w\<lparr>fpos := fpos w + length out\<rparr>)
          else (- 1, [], w)
      | None \<Rightarrow> (- 1, [], w))"

record file_write_env =
  ffw_lock_rc :: int
  ffw_write :: "nat option"
  ffw_unlock_rc :: int

definition file_filestore_write :: "file_write_env \<Rightarrow> bytes \<Rightarrow> size_t \<Rightarrow> file_world \<Rightarrow> (int \<times> file_world) comp" where
  "file_filestore_write env data len w =
     andThen (pthread_mutex_lock (ffw_lock_rc env) w) (\<lambda>(rc, w1).
       if rc \<noteq> 0 then Inr (- 1, w1)
       else
         let (r, w2) = file_write (ffw_write env) data len w1 in
         if r = - 1 then Inr (- 1, w2)
         else
           let (rc, w3) = pthread_mutex_unlock (ffw_unlock_rc env) w2 in
           if rc \<noteq> 0 then Inr (- 1, w3) else Inr (0, w3))"

record file_read_env =
  ffr_lock_rc :: int
  ffr_lseek_ok :: bool
  ffr_buffer :: bytes
  ffr_reads :: "nat \<Rightarrow> bool"
  ffr_sends :: "nat \<Rightarrow> nat option"
  ffr_unlock_rc :: int

definition file_filestore_read_to_dest :: "file_read_env \<Rightarrow> nat \<Rightarrow> file_world \<Rightarrow> (int \<times> file_world) comp option" where
  "file_filestore_read_to_dest env dest_fd w =
     (case pthread_mutex_lock (ffr_lock_rc env) w of
        Inl e \<Rightarrow> Some (Inl e)
      | Inr (rc, w1) \<Rightarrow>
          if rc \<noteq> 0 then Some (Inr (- 1, w1))
          else
            let w2 = (if ffr_lseek_ok env then w1\<lparr>fpos := 0\<rparr> else w1) in
            case send_loop (\<lambda>i. file_read (ffr_reads env i) 1024) (ffr_sends env) 0 dest_fd
                   (ffr_buffer env) 0 w2 of
              None \<Rightarrow> None
            | Some (Inl e) \<Rightarrow> Some (Inl e)
            | Some (Inr (ret1, bytes_read, w3)) \<Rightarrow>
                let ret2 = (if bytes_read = - 1 then - 1 else ret1);
                    (rc, w4) = pthread_mutex_unlock (ffr_unlock_rc env) w3
                in Some (Inr (if rc \<noteq> 0 then - 1 else ret2, w4)))"

definition file_filestore_close :: "bool \<Rightarrow> file_world \<Rightarrow> file_world" where
  "file_filestore_close removed w = (if removed then w\<lparr>flinked := False\<rparr> else w)"

text \<open>
  The timer thread of this configuration: after each sleep it writes the timestamp that
  \<open>strftime\<close> left in its buffer, up to the terminating null, and ignores the result. The thread
  never ends; this is its state after the given ticks.
\<close>

fun timer_thread :: "(file_write_env \<times> bytes) list \<Rightarrow> file_world \<Rightarrow> file_world comp" where
  "timer_thread [] w = Inr w"
| "timer_thread ((env, timestamp) # ticks) w =
     (if nul \<notin> set timestamp then Inl Undefined
      else
        let len = length (takeWhile (\<lambda>c. c \<noteq> nul) timestamp) in
        andThen (file_filestore_write env timestamp (word_of_nat len) w) (\<lambda>(rc, w'). timer_thread ticks w'))"

section \<open>Sources of bytes\<close>

text \<open>
  What the sending loop needs of its \<open>read\<close>: it delivers the next at most 1024 bytes of what is
  left, none only at the end, and changes nothing else the program relies on.
\<close>

definition sends_all :: "(nat \<Rightarrow> nat option) \<Rightarrow> bool" where
  "sends_all sends \<longleftrightarrow> (\<forall>i. case sends i of None \<Rightarrow> False | Some k \<Rightarrow> 1024 \<le> k)"

lemma sends_allD: "sends_all sends \<Longrightarrow> \<exists>k \<ge> 1024. sends i = Some k"
  by (auto simp: sends_all_def split: option.splits dest: spec [of _ i])

locale byte_source =
  fixes rd :: "nat \<Rightarrow> 'a proc_scheme \<Rightarrow> (int \<times> bytes \<times> 'a proc_scheme) comp"
    and inv :: "'a proc_scheme \<Rightarrow> bool"
    and rest :: "'a proc_scheme \<Rightarrow> bytes"
    and keep :: "'a proc_scheme \<Rightarrow> 'k"
  assumes rd_step: "inv w \<Longrightarrow> \<exists>out w'. rd i w = Inr (int (length out), out, w') \<and> length out \<le> 1024 \<and>
      rest w = out @ rest w' \<and> (out = [] \<longrightarrow> rest w = []) \<and> inv w' \<and> sent w' = sent w \<and> keep w' = keep w"
    and sent_frame: "inv w \<Longrightarrow> inv (w\<lparr>sent := f\<rparr>) \<and> rest (w\<lparr>sent := f\<rparr>) = rest w \<and> keep (w\<lparr>sent := f\<rparr>) = keep w"
begin

lemma send_all:
  assumes sends: "sends_all sends"
  shows "inv w \<Longrightarrow> length buf = 1024 \<Longrightarrow>
    \<exists>w'. send_loop rd sends i dest buf 0 w = Some (Inr (0, 0, w')) \<and> inv w' \<and> keep w' = keep w \<and>
      sent w' = (sent w)(dest := sent w dest @ rest w)"
proof (induction "length (rest w)" arbitrary: w i buf rule: less_induct)
  case less
  from rd_step [OF less.prems(1), of i] obtain out w1 where
    rd: "rd i w = Inr (int (length out), out, w1)" "length out \<le> 1024" "rest w = out @ rest w1"
      "out = [] \<longrightarrow> rest w = []" and w1: "inv w1" "sent w1 = sent w" "keep w1 = keep w" by blast
  have n: "unat (word_of_nat (length out) :: size_t) = length out"
    using rd(2) by (intro unat_of_nat_size_t) simp
  show ?case
  proof (cases "out = []")
    case True
    then show ?thesis using rd w1 by (subst send_loop.simps) simp
  next
    case False
    have pos: "0 < (word_of_nat (length out) :: size_t)" using False by (simp add: word_less_nat_alt n)
    let ?buf = "out @ drop (length out) buf"
    obtain k where k: "sends i = Some k" "1024 \<le> k" using sends_allD [OF sends] by blast
    define w2 where "w2 = w1\<lparr>sent := (sent w1)(dest := sent w1 dest @ out)\<rparr>"
    have w2: "inv w2" "rest w2 = rest w1" "keep w2 = keep w" "sent w2 = (sent w)(dest := sent w dest @ out)"
      using sent_frame [OF w1(1)] w1(2,3) by (simp_all add: w2_def)
    have snd: "sys_send (sends i) dest ?buf (word_of_nat (length out)) w1 = Inr (int (length out), w2)"
      using k rd(2) by (simp add: sys_send_def n w2_def min_def)
    have "length (rest w2) < length (rest w)" using rd(3) w2(2) False by simp
    from less.hyps [OF this w2(1), of ?buf "Suc i"] less.prems(2) rd(2) obtain w' where
      w': "send_loop rd sends (Suc i) dest ?buf 0 w2 = Some (Inr (0, 0, w'))" "inv w'" "keep w' = keep w2"
        "sent w' = (sent w2)(dest := sent w2 dest @ rest w2)" by auto
    have "send_loop rd sends i dest buf 0 w = Some (Inr (0, 0, w'))"
      using rd(1) pos snd w'(1) by (subst send_loop.simps) simp
    then show ?thesis using w'(2-4) w2(2-4) rd(3) by simp
  qed
qed

end

end
