(* ===== verification/Line_Store.thy ===== *)
theory Line_Store
  imports Prelude
begin

text \<open>
  The interface between the connection handler and the filestore. A store has a view; writing
  appends to the view in the store's own way, and reading sends what the view shows to a socket. The
  two predicates describe the environments in which the operations go through. Both configurations
  of the filestore provide it.
\<close>

locale line_store =
  fixes inv :: "'s \<Rightarrow> bool"
    and view :: "'s \<Rightarrow> 'v"
    and shown :: "'v \<Rightarrow> bytes"
    and app :: "'v \<Rightarrow> bytes \<Rightarrow> 'v"
    and out :: "'s \<Rightarrow> nat \<Rightarrow> bytes"
    and wr :: "'e \<Rightarrow> bytes \<Rightarrow> size_t \<Rightarrow> 's \<Rightarrow> (int \<times> 's) comp"
    and wr_ok :: "'e \<Rightarrow> bytes \<Rightarrow> 's \<Rightarrow> bool"
    and rd :: "'f \<Rightarrow> nat \<Rightarrow> 's \<Rightarrow> (int \<times> 's) comp option"
    and rd_ok :: "'f \<Rightarrow> 's \<Rightarrow> bool"
  assumes wr_prefix: "wr e data len s = wr e (take (unat len) data) len s"
    and wr_step: "inv s \<Longrightarrow> length bs < 2 ^ 63 \<Longrightarrow> wr_ok e bs s \<Longrightarrow>
      \<exists>s'. wr e bs (word_of_nat (length bs)) s = Inr (0, s') \<and> inv s' \<and> view s' = app (view s) bs \<and> out s' = out s"
    and rd_step: "inv s \<Longrightarrow> rd_ok f s \<Longrightarrow>
      \<exists>s'. rd f dest s = Some (Inr (0, s')) \<and> inv s' \<and> view s' = view s \<and>
        out s' = (out s)(dest := out s dest @ shown (view s))"

text \<open>What a client receives when after each of its chunks the whole store is sent back.\<close>

fun echoes :: "('v \<Rightarrow> bytes) \<Rightarrow> ('v \<Rightarrow> bytes \<Rightarrow> 'v) \<Rightarrow> 'v \<Rightarrow> bytes list \<Rightarrow> bytes" where
  "echoes shown app v [] = []"
| "echoes shown app v (c # cs) = (let v' = app v c in shown v' @ echoes shown app v' cs)"

text \<open>That a sequence of writes, each followed by a read, goes through.\<close>

fun serve_ok :: "(nat \<Rightarrow> bytes \<Rightarrow> size_t \<Rightarrow> 's \<Rightarrow> (int \<times> 's) comp) \<Rightarrow> (nat \<Rightarrow> 's \<Rightarrow> (int \<times> 's) comp option) \<Rightarrow>
    (nat \<Rightarrow> bytes \<Rightarrow> 's \<Rightarrow> bool) \<Rightarrow> (nat \<Rightarrow> 's \<Rightarrow> bool) \<Rightarrow> nat \<Rightarrow> bytes list \<Rightarrow> 's \<Rightarrow> bool" where
  "serve_ok wr rd wok rok i [] s = True"
| "serve_ok wr rd wok rok i (c # cs) s =
     (wok i c s \<and>
      (case wr i c (word_of_nat (length c)) s of
         Inl _ \<Rightarrow> False
       | Inr (r, s1) \<Rightarrow> rok i s1 \<and>
           (case rd i s1 of
              Some (Inr (r', s2)) \<Rightarrow> serve_ok wr rd wok rok (Suc i) cs s2
            | _ \<Rightarrow> False)))"

context line_store
begin

lemma serve_step:
  assumes "inv s" and "length c < 2 ^ 63"
    and "serve_ok (\<lambda>i. wr (we i)) (\<lambda>i. rd (re i) dest) (\<lambda>i. wr_ok (we i)) (\<lambda>i. rd_ok (re i)) i (c # cs) s"
  obtains s1 s2 where "wr (we i) c (word_of_nat (length c)) s = Inr (0, s1)" "rd (re i) dest s1 = Some (Inr (0, s2))"
    "inv s2" "view s2 = app (view s) c" "out s2 = (out s)(dest := out s dest @ shown (view s2))"
    "serve_ok (\<lambda>i. wr (we i)) (\<lambda>i. rd (re i) dest) (\<lambda>i. wr_ok (we i)) (\<lambda>i. rd_ok (re i)) (Suc i) cs s2"
proof -
  from assms wr_step [of s c "we i"] obtain s1 where
    s1: "wr (we i) c (word_of_nat (length c)) s = Inr (0, s1)" "inv s1" "view s1 = app (view s) c" "out s1 = out s"
    by auto
  with assms(3) have "rd_ok (re i) s1" by simp
  from rd_step [OF s1(2) this, of dest] obtain s2 where
    s2: "rd (re i) dest s1 = Some (Inr (0, s2))" "inv s2" "view s2 = view s1"
      "out s2 = (out s1)(dest := out s1 dest @ shown (view s1))" by blast
  with s1 assms(3) show thesis by (intro that [of s1 s2]) simp_all
qed

end

end
