(* ===== verification/Filestore_Correct.thy ===== *)
theory Filestore_Correct
  imports Filestore Line_Store
begin

text \<open>
  The filestore operations against what they promise: the stores are sources of bytes for the
  sending loop, a write appends, and a read sends exactly the contents; then the failure paths.
\<close>

section \<open>Interrupted calls\<close>

text \<open>An interrupted call is the same call with the lock granted.\<close>

lemma restart_read_granted:
  assumes "dev_inv k" and "private_data filp = AesdDevice"
  shows "restart_read env filp count k = aesd_read (env\<lparr>r_lock_rc := 0\<rparr>) filp count k"
proof (cases "r_lock_rc env = 0")
  case True
  then have same: "env\<lparr>r_lock_rc := 0\<rparr> = env" by (cases env) simp
  have "\<exists>r f out. aesd_read env filp count k = Some (r, f, out, k) \<and> r \<noteq> - ERESTARTSYS"
  proof (cases "r_uncopied env = 0 \<or> length (concat (dev_lines k)) \<le> unat (f_pos filp)")
    case True
    from aesd_read_granted [OF assms \<open>r_lock_rc env = 0\<close> this, of count] obtain out f where
      "aesd_read env filp count k = Some (int (length out), f, out, k)" by blast
    then show ?thesis by auto
  next
    case False
    then show ?thesis using aesd_read_copy_fault [OF assms \<open>r_lock_rc env = 0\<close>, of count] by auto
  qed
  then show ?thesis unfolding same by (auto simp: restart_read_def)
next
  case False
  then show ?thesis using assms(2) by (simp add: restart_read_def aesd_read_def)
qed

lemma restart_write_granted:
  assumes "dev_inv k" and "private_data filp = AesdDevice" and "write_lawful env buf count k"
  shows "restart_write env filp buf count k = aesd_write (env\<lparr>w_lock_rc := 0\<rparr>) filp buf count k"
proof (cases "w_lock_rc env = 0")
  case True
  then have same: "env\<lparr>w_lock_rc := 0\<rparr> = env" by (cases env) simp
  have "\<exists>r k'. aesd_write env filp buf count k = Some (r, k') \<and> r \<noteq> - ERESTARTSYS"
  proof (cases "write_succeeds env buf count k")
    case True
    from aesd_write_refines [OF assms this] obtain k' where
      "aesd_write env filp buf count k = Some (int (unat count), k')" by blast
    moreover have "int (unat count) \<noteq> - ERESTARTSYS" by linarith
    ultimately show ?thesis by blast
  next
    case False
    then show ?thesis using aesd_write_fails [OF assms False] True by auto
  qed
  then show ?thesis unfolding same by (auto simp: restart_write_def)
next
  case False
  then show ?thesis using assms(2) by (simp add: restart_write_def aesd_write_def)
qed

text \<open>With the lock granted at once nothing is restarted.\<close>

lemma restart_read_same:
  assumes "dev_inv k" "private_data filp = AesdDevice" "r_lock_rc env = 0"
  shows "restart_read env filp count k = aesd_read env filp count k"
proof -
  have "env\<lparr>r_lock_rc := 0\<rparr> = env" using assms(3) by (cases env) simp
  with restart_read_granted [OF assms(1,2), of env count] show ?thesis by simp
qed

lemma restart_write_same:
  assumes "dev_inv k" "private_data filp = AesdDevice" "write_lawful env buf count k" "w_lock_rc env = 0"
  shows "restart_write env filp buf count k = aesd_write env filp buf count k"
proof -
  have "env\<lparr>w_lock_rc := 0\<rparr> = env" using assms(4) by (cases env) simp
  with restart_write_granted [OF assms(1-3)] show ?thesis by simp
qed

lemma write_lawful_lock [simp]: "write_lawful (env\<lparr>w_lock_rc := rc\<rparr>) buf count k = write_lawful env buf count k"
  by (simp add: write_lawful_def)

section \<open>The device as a source of bytes\<close>

definition dev_src_inv :: "(nat \<Rightarrow> read_env) \<Rightarrow> nat \<Rightarrow> world \<Rightarrow> bool" where
  "dev_src_inv reads fd w \<longleftrightarrow> dev_inv (kern w) \<and> (\<forall>i. r_lock_rc (reads i) = 0 \<and> r_uncopied (reads i) = 0) \<and>
     (\<exists>f. fdt w fd = Some f \<and> private_data f = AesdDevice)"

definition dev_src_rest :: "nat \<Rightarrow> world \<Rightarrow> bytes" where
  "dev_src_rest fd w = (case fdt w fd of None \<Rightarrow> [] | Some f \<Rightarrow> drop (unat (f_pos f)) (concat (dev_lines (kern w))))"

definition dev_src_keep :: "nat \<Rightarrow> world \<Rightarrow> bool \<times> kernel \<times> (nat \<rightharpoonup> struct_file)" where
  "dev_src_keep fd w = (file_mutex w, kern w, (fdt w)(fd := None))"

lemma dev_read_step:
  assumes inv: "dev_src_inv reads fd w"
  shows "\<exists>out w'. sys_read (reads i) (Some fd) 1024 w = Inr (int (length out), out, w') \<and> length out \<le> 1024 \<and>
    dev_src_rest fd w = out @ dev_src_rest fd w' \<and> (out = [] \<longrightarrow> dev_src_rest fd w = []) \<and>
    dev_src_inv reads fd w' \<and> sent w' = sent w \<and> dev_src_keep fd w' = dev_src_keep fd w"
proof -
  let ?lines = "dev_lines (kern w)"
  from inv obtain f where f: "fdt w fd = Some f" "private_data f = AesdDevice" and k: "dev_inv (kern w)"
    and env: "r_lock_rc (reads i) = 0" "r_uncopied (reads i) = 0" by (auto simp: dev_src_inv_def)
  from aesd_read_step [OF k f(2) env, of 1024] obtain out f' where
    rd: "aesd_read (reads i) f 1024 (kern w) = Some (int (length out), f', out, kern w)" "private_data f' = AesdDevice"
      "length out \<le> 1024" "out = [] \<longrightarrow> length (concat ?lines) \<le> unat (f_pos f)"
      "drop (unat (f_pos f)) (concat ?lines) = out @ drop (unat (f_pos f')) (concat ?lines)"
    by auto
  then have "sys_read (reads i) (Some fd) 1024 w =
      Inr (int (length out), out, w\<lparr>kern := kern w, fdt := (fdt w)(fd \<mapsto> f')\<rparr>)"
    using f restart_read_same [OF k f(2) env(1)] by (simp add: sys_read_def)
  then show ?thesis
    using inv f rd(2-5)
    by (intro exI [of _ out]) (auto simp: dev_src_inv_def dev_src_rest_def dev_src_keep_def)
qed

interpretation dev_source: byte_source "\<lambda>i. sys_read (reads i) (Some fd) 1024" "dev_src_inv reads fd"
  "dev_src_rest fd" "dev_src_keep fd" for reads fd
proof unfold_locales
  fix w i
  assume "dev_src_inv reads fd w"
  from dev_read_step [OF this]
  show "\<exists>out w'. sys_read (reads i) (Some fd) 1024 w = Inr (int (length out), out, w') \<and> length out \<le> 1024 \<and>
    dev_src_rest fd w = out @ dev_src_rest fd w' \<and> (out = [] \<longrightarrow> dev_src_rest fd w = []) \<and>
    dev_src_inv reads fd w' \<and> sent w' = sent w \<and> dev_src_keep fd w' = dev_src_keep fd w" .
qed (auto simp: dev_src_inv_def dev_src_rest_def dev_src_keep_def)

section \<open>The file as a source of bytes\<close>

definition file_src_inv :: "(nat \<Rightarrow> bool) \<Rightarrow> file_world \<Rightarrow> bool" where
  "file_src_inv reads w \<longleftrightarrow> filestore_fd w \<noteq> None \<and> (\<forall>i. reads i)"

interpretation file_source: byte_source "\<lambda>i. file_read (reads i) 1024" "file_src_inv reads"
  "\<lambda>w. drop (fpos w) (fdata w)" "\<lambda>w. (file_mutex w, filestore_fd w, fdata w, flinked w)" for reads
proof unfold_locales
  fix w :: file_world and i
  assume inv: "file_src_inv reads w"
  let ?out = "take 1024 (drop (fpos w) (fdata w))"
  have "drop (fpos w) (fdata w) = ?out @ drop (fpos w + length ?out) (fdata w)"
  proof (cases "length (drop (fpos w) (fdata w)) \<le> 1024")
    case False
    then have "length ?out = 1024" by simp
    then show ?thesis by (metis append_take_drop_id drop_drop add.commute)
  qed simp
  then show "\<exists>out w'. file_read (reads i) 1024 w = Inr (int (length out), out, w') \<and> length out \<le> 1024 \<and>
      drop (fpos w) (fdata w) = out @ drop (fpos w') (fdata w') \<and> (out = [] \<longrightarrow> drop (fpos w) (fdata w) = []) \<and>
      file_src_inv reads w' \<and> sent w' = sent w \<and>
      (file_mutex w', filestore_fd w', fdata w', flinked w') = (file_mutex w, filestore_fd w, fdata w, flinked w)"
    using inv by (intro exI [of _ ?out]) (auto simp: file_src_inv_def file_read_def Let_def)
qed (simp add: file_src_inv_def)

section \<open>Store states\<close>

text \<open>A state between two operations, and the environments in which an operation goes through.\<close>

definition dev_store_inv :: "world \<Rightarrow> bool" where
  "dev_store_inv w \<longleftrightarrow> \<not> file_mutex w \<and> dev_inv (kern w)"

definition fwrite_ok :: "fwrite_env \<Rightarrow> bytes \<Rightarrow> world \<Rightarrow> bool" where
  "fwrite_ok env bs w \<longleftrightarrow> fw_lock_rc env = 0 \<and> fw_unlock_rc env = 0 \<and> length bs < 2 ^ 63 \<and>
     (case fw_open env of None \<Rightarrow> False | Some fd \<Rightarrow> fdt w fd = None) \<and>
     write_lawful (fw_write env) bs (word_of_nat (length bs)) (kern w) \<and>
     write_succeeds (fw_write env) bs (word_of_nat (length bs)) (kern w)"

definition fread_ok :: "fread_env \<Rightarrow> world \<Rightarrow> bool" where
  "fread_ok env w \<longleftrightarrow> fr_lock_rc env = 0 \<and> fr_unlock_rc env = 0 \<and> length (fr_buffer env) = 1024 \<and>
     (case fr_open env of None \<Rightarrow> False | Some fd \<Rightarrow> fdt w fd = None) \<and>
     (\<forall>i. r_lock_rc (fr_reads env i) = 0 \<and> r_uncopied (fr_reads env i) = 0) \<and> sends_all (fr_sends env)"

lemma word_of_length:
  fixes len :: size_t
  assumes "unat len \<le> length data"
  shows "word_of_nat (length (take (unat len) data)) = len"
  using assms by simp

lemma fd_opened [simp]:
  "sys_open (Some fd) w = w\<lparr>fdt := (fdt w)(fd \<mapsto> \<lparr>private_data = AesdDevice, f_pos = 0\<rparr>)\<rparr>"
  by (simp add: sys_open_def aesd_open_def device_inode_def)

lemma fd_seeked:
  "\<exists>p. sys_lseek pos (Some fd) (w\<lparr>fdt := m(fd \<mapsto> f)\<rparr>) = w\<lparr>fdt := m(fd \<mapsto> f\<lparr>f_pos := p\<rparr>)\<rparr>"
  by (cases pos) (auto simp: sys_lseek_def intro: exI [of _ "f_pos f"])

section \<open>The device configuration\<close>

lemma filestore_write_refines:
  assumes inv: "dev_store_inv w" and len: "unat len \<le> length data"
    and ok: "fwrite_ok env (take (unat len) data) w"
  shows "\<exists>w'. filestore_write env data len w = Inr (0, w') \<and> dev_store_inv w' \<and> sent w' = sent w \<and> fdt w' = fdt w \<and>
    dev_view (kern w') = write_spec (dev_view (kern w)) (take (unat len) data)"
proof -
  let ?bs = "take (unat len) data"
  from ok obtain fd where fd: "fw_open env = Some fd" "fdt w fd = None"
    by (auto simp: fwrite_ok_def split: option.splits)
  have len': "word_of_nat (length ?bs) = len" by (rule word_of_length [OF len])
  define w1 where "w1 = w\<lparr>file_mutex := True\<rparr>"
  obtain p where p: "sys_lseek (fw_lseek env) (Some fd) (sys_open (Some fd) w1) =
      w1\<lparr>fdt := (fdt w)(fd \<mapsto> \<lparr>private_data = AesdDevice, f_pos = p\<rparr>)\<rparr>"
    using fd_seeked [where pos = "fw_lseek env" and fd = fd and w = w1 and m = "fdt w" and
        f = "\<lparr>private_data = AesdDevice, f_pos = 0\<rparr>"]
    by (auto simp: w1_def)
  have "write_lawful (fw_write env) ?bs len (kern w)" "write_succeeds (fw_write env) ?bs len (kern w)"
    using ok unfolding fwrite_ok_def len' by simp_all
  from aesd_write_refines [OF _ _ this, of "\<lparr>private_data = AesdDevice, f_pos = p\<rparr>"] inv obtain k where
    k: "aesd_write (fw_write env) \<lparr>private_data = AesdDevice, f_pos = p\<rparr> ?bs len (kern w) = Some (int (unat len), k)"
      "dev_inv k" "dev_view k = write_spec (dev_view (kern w)) ?bs" by (auto simp: dev_store_inv_def)
  have same: "restart_write (fw_write env) \<lparr>private_data = AesdDevice, f_pos = p\<rparr> ?bs len (kern w) =
      aesd_write (fw_write env) \<lparr>private_data = AesdDevice, f_pos = p\<rparr> ?bs len (kern w)"
    by (rule restart_write_same) (use inv ok len' in \<open>simp_all add: dev_store_inv_def fwrite_ok_def write_succeeds_def\<close>)
  have "uint len \<noteq> - 1" using uint_ge_0 [of len] by linarith
  then have "filestore_write env data len w =
      Inr (0, w\<lparr>file_mutex := False, kern := k, fdt := (fdt w)(fd := None)\<rparr>)"
    using ok inv fd p k(1) same
    by (simp add: filestore_write_def pthread_mutex_lock_def pthread_mutex_unlock_def fwrite_ok_def dev_store_inv_def
        sys_write_def sys_close_def w1_def Let_def)
  moreover have "(fdt w)(fd := None) = fdt w" using fd(2) by (simp add: fun_upd_idem)
  ultimately show ?thesis using k(2,3) by (simp add: dev_store_inv_def)
qed

lemma filestore_read_refines:
  assumes inv: "dev_store_inv w" and ok: "fread_ok env w"
  shows "\<exists>w'. filestore_read_to_dest env dest w = Some (Inr (0, w')) \<and> dev_store_inv w' \<and> fdt w' = fdt w \<and>
    kern w' = kern w \<and> sent w' = (sent w)(dest := sent w dest @ concat (dev_lines (kern w)))"
proof -
  from ok obtain fd where fd: "fr_open env = Some fd" "fdt w fd = None"
    by (auto simp: fread_ok_def split: option.splits)
  define w3 where "w3 = w\<lparr>file_mutex := True, fdt := (fdt w)(fd \<mapsto> \<lparr>private_data = AesdDevice, f_pos = 0\<rparr>)\<rparr>"
  have seek: "sys_lseek (if fr_lseek_ok env then Some 0 else None) (Some fd)
      (sys_open (Some fd) (w\<lparr>file_mutex := True\<rparr>)) = w3"
    by (simp add: sys_lseek_def w3_def)
  have src: "dev_src_inv (fr_reads env) fd w3" "dev_src_rest fd w3 = concat (dev_lines (kern w))"
    using inv ok by (auto simp: dev_src_inv_def dev_src_rest_def w3_def dev_store_inv_def fread_ok_def)
  have sends: "sends_all (fr_sends env)" "length (fr_buffer env) = 1024" using ok by (simp_all add: fread_ok_def)
  from dev_source.send_all [OF sends(1) src(1) sends(2), of 0 dest] obtain w4 where
    w4: "send_loop (\<lambda>i. sys_read (fr_reads env i) (Some fd) 1024) (fr_sends env) 0 dest (fr_buffer env) 0 w3 =
        Some (Inr (0, 0, w4))" "dev_src_keep fd w4 = dev_src_keep fd w3"
      "sent w4 = (sent w)(dest := sent w dest @ concat (dev_lines (kern w)))"
    unfolding src(2) by (auto simp: w3_def)
  have keep: "kern w4 = kern w" "(fdt w4)(fd := None) = fdt w"
    using w4(2) fd(2) by (auto simp: dev_src_keep_def w3_def fun_upd_idem)
  have "filestore_read_to_dest env dest w = Some (Inr (0, w4\<lparr>file_mutex := False, fdt := (fdt w4)(fd := None)\<rparr>))"
    using ok inv fd seek w4(1)
    by (simp add: filestore_read_to_dest_def pthread_mutex_lock_def pthread_mutex_unlock_def fread_ok_def
        dev_store_inv_def sys_close_def Let_def)
  then show ?thesis using keep w4(3) inv by (simp add: dev_store_inv_def)
qed

text \<open>The device write fails: the mutex stays locked and the descriptor open.\<close>

lemma sys_write_fails:
  assumes "dev_inv (kern w)" and "write_lawful (fw_write env) (take (unat len) data) len (kern w)"
    and "\<not> write_succeeds ((fw_write env)\<lparr>w_lock_rc := 0\<rparr>) (take (unat len) data) len (kern w)"
    and "fdt w fd = Some f" "private_data f = AesdDevice"
  shows "\<exists>k. sys_write (fw_write env) (Some fd) data len w = Inr (- 1, w\<lparr>kern := k\<rparr>)"
proof -
  have "\<exists>r k. restart_write (fw_write env) f (take (unat len) data) len (kern w) = Some (r, k) \<and> r < 0"
    using aesd_write_fails [OF assms(1,5) _ assms(3)] restart_write_granted [OF assms(1,5,2)] assms(2) by simp
  then show ?thesis using assms(4) by (auto simp: sys_write_def)
qed

lemma filestore_write_stuck:
  assumes inv: "dev_store_inv w" and lock: "fw_lock_rc env = 0"
    and fail: "case fw_open env of None \<Rightarrow> True | Some fd \<Rightarrow>
      write_lawful (fw_write env) (take (unat len) data) len (kern w) \<and>
      \<not> write_succeeds ((fw_write env)\<lparr>w_lock_rc := 0\<rparr>) (take (unat len) data) len (kern w)"
  shows "\<exists>w'. filestore_write env data len w = Inr (- 1, w') \<and> file_mutex w' \<and> sent w' = sent w \<and>
    (\<forall>fd. fw_open env = Some fd \<longrightarrow> fdt w' fd \<noteq> None)"
proof (cases "fw_open env")
  case None
  then show ?thesis using inv lock
    by (simp add: filestore_write_def pthread_mutex_lock_def dev_store_inv_def sys_open_def sys_lseek_def sys_write_def
        split: option.splits)
next
  case (Some fd)
  define w1 where "w1 = w\<lparr>file_mutex := True\<rparr>"
  obtain p where p: "sys_lseek (fw_lseek env) (Some fd) (sys_open (Some fd) w1) =
      w1\<lparr>fdt := (fdt w)(fd \<mapsto> \<lparr>private_data = AesdDevice, f_pos = p\<rparr>)\<rparr>" (is "_ = ?w3")
    using fd_seeked [where pos = "fw_lseek env" and fd = fd and w = w1 and m = "fdt w" and
        f = "\<lparr>private_data = AesdDevice, f_pos = 0\<rparr>"]
    by (auto simp: w1_def)
  from sys_write_fails [of ?w3 env len data fd "\<lparr>private_data = AesdDevice, f_pos = p\<rparr>"] fail Some inv
  obtain k where k: "sys_write (fw_write env) (Some fd) data len ?w3 = Inr (- 1, ?w3\<lparr>kern := k\<rparr>)"
    by (auto simp: w1_def dev_store_inv_def)
  have "filestore_write env data len w = Inr (- 1, ?w3\<lparr>kern := k\<rparr>)"
    using inv lock Some p k
    by (simp add: filestore_write_def pthread_mutex_lock_def dev_store_inv_def w1_def)
  then show ?thesis using Some by (simp add: w1_def)
qed

lemma locked_store_blocks:
  assumes "file_mutex w"
  shows "fw_lock_rc env = 0 \<Longrightarrow> filestore_write env data len w = Inl Blocked"
    and "fr_lock_rc env' = 0 \<Longrightarrow> filestore_read_to_dest env' dest w = Some (Inl Blocked)"
  using assms by (simp_all add: filestore_write_def filestore_read_to_dest_def pthread_mutex_lock_def)

text \<open>
  A read that fails while nothing has failed before: \<open>bytes_read\<close> is 2 to the 64 minus 1, and
  \<open>send\<close> is asked for that many bytes of the buffer.
\<close>

lemma send_of_all_ones:
  assumes "length buf < 2 ^ 64 - 1"
  shows "sys_send sends dest buf (word_of_int (- 1)) w = Inl Undefined" and "unat (word_of_int (- 1) :: size_t) = 2 ^ 64 - 1"
proof -
  show m: "unat (word_of_int (- 1) :: size_t) = 2 ^ 64 - 1" by (simp add: unsigned_minus_1_eq_mask mask_eq_exp_minus_1)
  then show "sys_send sends dest buf (word_of_int (- 1)) w = Inl Undefined" using assms unfolding sys_send_def m by simp
qed

lemma send_loop_read_error:
  assumes "rd i w = Inr (- 1, out, w1)" and "length (out @ drop (length out) buf) < 2 ^ 64 - 1" and "ret \<noteq> - 1"
  shows "send_loop rd sends i dest buf ret w = Some (Inl Undefined)"
proof -
  note all_ones = send_of_all_ones [OF assms(2)]
  have "0 < (word_of_int (- 1) :: size_t)" unfolding word_less_nat_alt all_ones(2) by simp
  then show ?thesis using assms(1,3) all_ones(1) [of "sends i" dest w1] by (subst send_loop.simps) (simp add: Let_def del: word_of_int_minus)
qed

text \<open>The position of the device file after \<open>n\<close> more reads of the loop.\<close>

fun pos_after :: "bytes list \<Rightarrow> nat \<Rightarrow> nat \<Rightarrow> nat" where
  "pos_after lines p 0 = p"
| "pos_after lines p (Suc n) = pos_after lines (p + read_length lines p 1024) n"

lemma pos_after_ge: "p \<le> pos_after lines p n"
  by (induction n arbitrary: p) (auto intro: order_trans [OF le_add1])

text \<open>
  The loop goes on to its read number \<open>i + n\<close> when the reads before deliver bytes and no
  \<open>send\<close> fails, and there a copy to user space that fails makes the read fail.
\<close>

lemma send_loop_reaches_failure:
  assumes "dev_inv (kern w)" and "fdt w fd = Some f" "private_data f = AesdDevice" and "length buf = 1024"
    and "\<forall>j < n. r_uncopied (reads (i + j)) = 0 \<and> sends (i + j) \<noteq> None" and "r_uncopied (reads (i + n)) \<noteq> 0"
    and "pos_after (dev_lines (kern w)) (unat (f_pos f)) n < length (concat (dev_lines (kern w)))"
  shows "\<exists>w1 w2 buf1 out f1. send_loop (\<lambda>i. sys_read (reads i) (Some fd) 1024) sends i dest buf 0 w =
      send_loop (\<lambda>i. sys_read (reads i) (Some fd) 1024) sends (i + n) dest buf1 0 w1 \<and>
    sys_read (reads (i + n)) (Some fd) 1024 w1 = Inr (- 1, out, w2) \<and> length buf1 = 1024 \<and> length out \<le> 1024 \<and>
    kern w1 = kern w \<and> fdt w1 fd = Some f1 \<and> unat (f_pos f1) = pos_after (dev_lines (kern w)) (unat (f_pos f)) n"
  using assms
proof (induction n arbitrary: i w f buf)
  case 0
  from aesd_read_copy_fault [OF 0(1,3), of "(reads i)\<lparr>r_lock_rc := 0\<rparr>" 1024] 0(6,7) obtain out where
    "aesd_read ((reads i)\<lparr>r_lock_rc := 0\<rparr>) f 1024 (kern w) = Some (- EFAULT, f, out, kern w)" "length out \<le> 1024" by auto
  then have "sys_read (reads i) (Some fd) 1024 w = Inr (- 1, out, w\<lparr>kern := kern w, fdt := (fdt w)(fd \<mapsto> f)\<rparr>)"
    using 0(2) restart_read_granted [OF 0(1,3), of "reads i" 1024] by (simp add: sys_read_def)
  then show ?case using 0(2,4) \<open>length out \<le> 1024\<close> by (intro exI [of _ w] exI) auto
next
  case (Suc n)
  let ?lines = "dev_lines (kern w)" let ?p = "unat (f_pos f)" let ?env = "(reads i)\<lparr>r_lock_rc := 0\<rparr>"
  have here: "?p < length (concat ?lines)"
    using pos_after_ge [of ?p ?lines "Suc n"] Suc.prems(7) by linarith
  have env: "r_lock_rc ?env = 0" "r_uncopied ?env = 0" using Suc.prems(5) by (auto dest: spec [of _ 0])
  obtain k where k: "sends i = Some k" using Suc.prems(5) by (auto dest: spec [of _ 0])
  from aesd_read_step [OF Suc.prems(1,3) env, of 1024] obtain out f' where
    rd: "aesd_read ?env f 1024 (kern w) = Some (int (length out), f', out, kern w)" "private_data f' = AesdDevice"
      "length out \<le> 1024" "out \<noteq> []" "unat (f_pos f') = ?p + length out" using here by auto
  have "unat (1024 :: size_t) = 1024" by simp
  then have len: "read_length ?lines ?p 1024 = length out"
    using aesd_read_refines [OF Suc.prems(1,3) env, of 1024]
    unfolding rd(1) Let_def option.inject prod.inject of_nat_eq_iff by metis
  define w1 where "w1 = w\<lparr>kern := kern w, fdt := (fdt w)(fd \<mapsto> f')\<rparr>"
  define buf1 where "buf1 = out @ drop (length out) buf"
  have sys: "sys_read (reads i) (Some fd) 1024 w = Inr (int (length out), out, w1)"
    using Suc.prems(2) restart_read_granted [OF Suc.prems(1,3), of "reads i" 1024] rd(1) by (simp add: sys_read_def w1_def)
  have n: "unat (word_of_nat (length out) :: size_t) = length out" using rd(3) by (intro unat_of_nat_size_t) simp
  have buf1: "length buf1 = 1024" using rd(3) Suc.prems(4) by (simp add: buf1_def)
  obtain m w2 where send: "sys_send (sends i) dest buf1 (word_of_nat (length out)) w1 = Inr (int m, w2)"
    and w2: "kern w2 = kern w" "fdt w2 = fdt w1" using k n buf1 rd(3) by (auto simp: sys_send_def Let_def w1_def)
  have pos: "0 < (word_of_nat (length out) :: size_t)" using rd(4) n unfolding word_less_nat_alt by simp
  have "send_loop (\<lambda>i. sys_read (reads i) (Some fd) 1024) sends i dest buf 0 w =
      send_loop (\<lambda>i. sys_read (reads i) (Some fd) 1024) sends (Suc i) dest buf1 0 w2"
    by (subst send_loop.simps) (use sys send pos in \<open>simp add: buf1_def [symmetric] Let_def\<close>)
  moreover have "\<exists>w1' w2' buf1' out' f1. send_loop (\<lambda>i. sys_read (reads i) (Some fd) 1024) sends (Suc i) dest buf1 0 w2 =
      send_loop (\<lambda>i. sys_read (reads i) (Some fd) 1024) sends (Suc i + n) dest buf1' 0 w1' \<and>
    sys_read (reads (Suc i + n)) (Some fd) 1024 w1' = Inr (- 1, out', w2') \<and> length buf1' = 1024 \<and> length out' \<le> 1024 \<and>
    kern w1' = kern w2 \<and> fdt w1' fd = Some f1 \<and> unat (f_pos f1) = pos_after (dev_lines (kern w2)) (unat (f_pos f')) n"
  proof (rule Suc.IH)
    show "\<forall>j<n. r_uncopied (reads (Suc i + j)) = 0 \<and> sends (Suc i + j) \<noteq> None"
      using Suc.prems(5) by (metis Suc_mono add_Suc_shift)
  qed (use Suc.prems(1,6,7) w2 rd(2,5) buf1 len in \<open>simp_all add: w1_def\<close>)
  ultimately show ?case using w2(1) rd(5) len by simp
qed

section \<open>The file configuration\<close>

definition file_store_inv :: "file_world \<Rightarrow> bool" where
  "file_store_inv w \<longleftrightarrow> \<not> file_mutex w \<and> filestore_fd w \<noteq> None"

definition ffwrite_ok :: "file_write_env \<Rightarrow> bytes \<Rightarrow> file_world \<Rightarrow> bool" where
  "ffwrite_ok env bs w \<longleftrightarrow> ffw_lock_rc env = 0 \<and> ffw_unlock_rc env = 0 \<and>
     (case ffw_write env of None \<Rightarrow> False | Some k \<Rightarrow> length bs \<le> k)"

definition ffread_ok :: "file_read_env \<Rightarrow> file_world \<Rightarrow> bool" where
  "ffread_ok env w \<longleftrightarrow> ffr_lock_rc env = 0 \<and> ffr_unlock_rc env = 0 \<and> length (ffr_buffer env) = 1024 \<and>
     ffr_lseek_ok env \<and> (\<forall>i. ffr_reads env i) \<and> sends_all (ffr_sends env)"

lemma file_filestore_write_refines:
  assumes inv: "file_store_inv w" and len: "unat len \<le> length data"
    and ok: "ffwrite_ok env (take (unat len) data) w"
  shows "\<exists>w'. file_filestore_write env data len w = Inr (0, w') \<and> file_store_inv w' \<and> sent w' = sent w \<and>
    fdata w' = fdata w @ take (unat len) data"
proof -
  from ok obtain k where k: "ffw_write env = Some k" "unat len \<le> k"
    using len by (auto simp: ffwrite_ok_def split: option.splits)
  have "uint len \<noteq> - 1" using uint_ge_0 [of len] by linarith
  then show ?thesis
    using inv ok k len
    by (auto simp: file_filestore_write_def file_write_def ffwrite_ok_def file_store_inv_def pthread_mutex_lock_def
        pthread_mutex_unlock_def Let_def min_absorb2)
qed

lemma file_filestore_read_refines:
  assumes inv: "file_store_inv w" and ok: "ffread_ok env w"
  shows "\<exists>w'. file_filestore_read_to_dest env dest w = Some (Inr (0, w')) \<and> file_store_inv w' \<and>
    fdata w' = fdata w \<and> sent w' = (sent w)(dest := sent w dest @ fdata w)"
proof -
  define w2 where "w2 = w\<lparr>file_mutex := True, fpos := 0\<rparr>"
  have "file_src_inv (ffr_reads env) w2" using inv ok by (auto simp: file_src_inv_def w2_def file_store_inv_def ffread_ok_def)
  moreover have "sends_all (ffr_sends env)" "length (ffr_buffer env) = 1024" using ok by (simp_all add: ffread_ok_def)
  ultimately obtain w3 where
    w3: "send_loop (\<lambda>i. file_read (ffr_reads env i) 1024) (ffr_sends env) 0 dest (ffr_buffer env) 0 w2 =
        Some (Inr (0, 0, w3))" "filestore_fd w3 = filestore_fd w2" "fdata w3 = fdata w2"
      "sent w3 = (sent w2)(dest := sent w2 dest @ drop (fpos w2) (fdata w2))"
    using file_source.send_all [of "ffr_sends env" "ffr_reads env" w2 "ffr_buffer env" 0 dest] by auto
  have "file_filestore_read_to_dest env dest w = Some (Inr (0, w3\<lparr>file_mutex := False\<rparr>))"
    using ok inv w3(1)
    by (simp add: file_filestore_read_to_dest_def pthread_mutex_lock_def pthread_mutex_unlock_def ffread_ok_def
        file_store_inv_def Let_def w2_def)
  then show ?thesis using w3(2-4) inv by (simp add: file_store_inv_def w2_def)
qed

lemma locked_file_store_blocks:
  "file_mutex w \<Longrightarrow> ffw_lock_rc env = 0 \<Longrightarrow> file_filestore_write env data len w = Inl Blocked"
  by (simp add: file_filestore_write_def pthread_mutex_lock_def)

lemma file_write_fails_locked:
  assumes "file_store_inv w" and "ffw_lock_rc env = 0" and "ffw_write env = None"
  shows "file_filestore_write env data len w = Inr (- 1, w\<lparr>file_mutex := True\<rparr>)"
  using assms by (auto simp: file_filestore_write_def pthread_mutex_lock_def file_write_def file_store_inv_def)

abbreviation c_string :: "bytes \<Rightarrow> bytes" where
  "c_string bs \<equiv> takeWhile (\<lambda>c. c \<noteq> nul) bs"

fun stamps :: "(file_write_env \<times> bytes) list \<Rightarrow> bytes" where
  "stamps [] = []"
| "stamps ((env, ts) # ticks) = c_string ts @ stamps ticks"

lemma timer_appends:
  "file_store_inv w \<Longrightarrow>
    \<forall>(env, ts) \<in> set ticks. nul \<in> set ts \<and> length ts \<le> 100 \<and> (\<forall>w. ffwrite_ok env (c_string ts) w) \<Longrightarrow>
    \<exists>w'. timer_thread ticks w = Inr w' \<and> file_store_inv w' \<and> fdata w' = fdata w @ stamps ticks \<and>
      sent w' = sent w"
proof (induction ticks arbitrary: w)
  case Nil
  then show ?case by simp
next
  case (Cons tick ticks)
  obtain env ts where t: "tick = (env, ts)" by (cases tick)
  let ?n = "length (c_string ts)"
  from Cons.prems(2) t have ts: "nul \<in> set ts" "length ts \<le> 100" "ffwrite_ok env (c_string ts) w" by auto
  have le: "?n \<le> length ts" by (rule length_takeWhile_le)
  have n: "unat (word_of_nat ?n :: size_t) = ?n" using le ts(2) by (intro unat_of_nat_size_t) simp
  have take: "take ?n ts = c_string ts" by (metis takeWhile_eq_take)
  from file_filestore_write_refines [OF Cons.prems(1), of "word_of_nat ?n" ts env] n le take ts(3) obtain w1 where
    w1: "file_filestore_write env ts (word_of_nat ?n) w = Inr (0, w1)" "file_store_inv w1" "sent w1 = sent w"
      "fdata w1 = fdata w @ c_string ts" by auto
  from Cons.IH [OF w1(2)] Cons.prems(2) obtain w' where
    "timer_thread ticks w1 = Inr w'" "file_store_inv w'" "fdata w' = fdata w1 @ stamps ticks"
    "sent w' = sent w1" by auto
  then show ?case using t ts(1) w1 by (auto simp: Let_def)
qed

section \<open>Both configurations provide the interface\<close>

lemma sys_write_take: "sys_write env fd (take (unat len) data) len w = sys_write env fd data len w"
  by (simp add: sys_write_def split: option.splits)

lemma file_write_take: "file_write rc (take (unat len) data) len w = file_write rc data len w"
  by (simp add: file_write_def Let_def min.commute split: option.splits)

interpretation dev_store: line_store dev_store_inv "\<lambda>w. dev_view (kern w)" "\<lambda>v. concat (fst v)" write_spec sent
  filestore_write fwrite_ok filestore_read_to_dest fread_ok
proof unfold_locales
  fix len :: size_t and data :: bytes and e s
  show "filestore_write e data len s = filestore_write e (take (unat len) data) len s"
    unfolding filestore_write_def sys_write_take by (rule refl)
next
  fix s bs e
  assume inv: "dev_store_inv s" and n: "length bs < 2 ^ 63" and ok: "fwrite_ok e bs s"
  have "unat (word_of_nat (length bs) :: size_t) = length bs" using n by (intro unat_of_nat_size_t) simp
  with filestore_write_refines [OF inv, of "word_of_nat (length bs)" bs e] ok
  show "\<exists>s'. filestore_write e bs (word_of_nat (length bs)) s = Inr (0, s') \<and> dev_store_inv s' \<and>
      dev_view (kern s') = write_spec (dev_view (kern s)) bs \<and> sent s' = sent s" by auto
next
  fix s f dest
  assume "dev_store_inv s" "fread_ok f s"
  from filestore_read_refines [OF this, of dest]
  show "\<exists>s'. filestore_read_to_dest f dest s = Some (Inr (0, s')) \<and> dev_store_inv s' \<and>
      dev_view (kern s') = dev_view (kern s) \<and> sent s' = (sent s)(dest := sent s dest @ concat (fst (dev_view (kern s))))"
    by auto
qed

interpretation file_store: line_store file_store_inv fdata "\<lambda>v. v" "(@)" sent
  file_filestore_write ffwrite_ok file_filestore_read_to_dest ffread_ok
proof unfold_locales
  fix len :: size_t and data :: bytes and e s
  show "file_filestore_write e data len s = file_filestore_write e (take (unat len) data) len s"
    unfolding file_filestore_write_def file_write_take by (rule refl)
next
  fix s bs e
  assume inv: "file_store_inv s" and n: "length bs < 2 ^ 63" and ok: "ffwrite_ok e bs s"
  have "unat (word_of_nat (length bs) :: size_t) = length bs" using n by (intro unat_of_nat_size_t) simp
  with file_filestore_write_refines [OF inv, of "word_of_nat (length bs)" bs e] ok
  show "\<exists>s'. file_filestore_write e bs (word_of_nat (length bs)) s = Inr (0, s') \<and> file_store_inv s' \<and>
      fdata s' = fdata s @ bs \<and> sent s' = sent s" by auto
next
  fix s f dest
  assume "file_store_inv s" "ffread_ok f s"
  from file_filestore_read_refines [OF this, of dest]
  show "\<exists>s'. file_filestore_read_to_dest f dest s = Some (Inr (0, s')) \<and> file_store_inv s' \<and>
      fdata s' = fdata s \<and> sent s' = (sent s)(dest := sent s dest @ fdata s)" by auto
qed

end
