(* ===== verification/Connection.thy ===== *)
theory Connection
  imports Read_Line Filestore_Correct
begin

text \<open>
  The connection thread of \<open>server/aesdsocket.c\<close>: it reads lines from its socket, writes each to
  the filestore and sends the whole store back. The handler is compiled against one of the two
  configurations of the filestore, so it takes the two filestore operations as arguments;
  \<open>should_terminate\<close> is what the handler finds in the flag in each iteration.
\<close>

section \<open>The handler\<close>

record sockaddr_in =
  sin_addr :: u32
  sin_port :: "16 word"

record thread_data_t =
  td_thread :: nat
  thread_complete :: bool
  connection_fd :: nat
  client_addr :: sockaddr_in

definition CONNECTION_BUFFER_SIZE :: size_t where
  "CONNECTION_BUFFER_SIZE = 65536"

lemma read_line_loop_shorter:
  "read_line_loop fd arr n tot errno = Inr (r, e, arr', fd') \<Longrightarrow> length fd' < length fd"
proof (induction fd arr n tot errno rule: read_line_loop.induct)
  case (4 ch fd arr n tot errno)
  then show ?case
    by (fastforce simp: read_line_finish_def store_byte_def split: if_splits)
qed (auto simp: read_line_finish_def store_byte_def split: if_splits)

lemma read_line_shorter:
  "read_line fd buf n errno = Inr (r, e, arr', fd') \<Longrightarrow> 0 < r \<Longrightarrow> length fd' < length fd"
  by (auto simp: read_line_def split: option.splits if_splits dest: read_line_loop_shorter)

function conn_loop ::
    "(nat \<Rightarrow> bytes \<Rightarrow> size_t \<Rightarrow> 's \<Rightarrow> (int \<times> 's) comp) \<Rightarrow> (nat \<Rightarrow> 's \<Rightarrow> (int \<times> 's) comp option) \<Rightarrow> (nat \<Rightarrow> bool) \<Rightarrow>
     nat \<Rightarrow> sys_read list \<Rightarrow> bytes \<Rightarrow> int \<Rightarrow> bool \<Rightarrow> 's \<Rightarrow> (int \<times> 's) comp option" where
  "conn_loop fwrite fread should_terminate i fd conn_buffer errno operation_failed s =
     (case read_line fd (Some conn_buffer) CONNECTION_BUFFER_SIZE errno of
        Inl e \<Rightarrow> Some (Inl e)
      | Inr (bytes_received, errno', conn_buffer', fd') \<Rightarrow>
          if 0 < bytes_received \<and> \<not> should_terminate i \<and> \<not> operation_failed then
            (case fwrite i conn_buffer' (word_of_int bytes_received) s of
               Inl e \<Rightarrow> Some (Inl e)
             | Inr (rc, s1) \<Rightarrow>
                 (case fread i s1 of
                    None \<Rightarrow> None
                  | Some (Inl e) \<Rightarrow> Some (Inl e)
                  | Some (Inr (rc', s2)) \<Rightarrow>
                      conn_loop fwrite fread should_terminate (Suc i) fd' conn_buffer' errno'
                        (rc = - 1 \<or> rc' = - 1) s2))
          else Some (Inr (bytes_received, s)))"
  by pat_completeness auto
termination
  by (relation "measure (\<lambda>(_, _, _, _, fd, _). length fd)") (auto dest: read_line_shorter)

declare conn_loop.simps [simp del]

text \<open>
  The handler with the loop and what follows it; \<open>socks\<close> are the open sockets of the process.
\<close>

definition handle_connection ::
    "(nat \<Rightarrow> bytes \<Rightarrow> size_t \<Rightarrow> 's \<Rightarrow> (int \<times> 's) comp) \<Rightarrow> (nat \<Rightarrow> nat \<Rightarrow> 's \<Rightarrow> (int \<times> 's) comp option) \<Rightarrow>
     (nat \<Rightarrow> bool) \<Rightarrow> sys_read list \<Rightarrow> bytes \<Rightarrow> int \<Rightarrow> thread_data_t \<Rightarrow> nat set \<Rightarrow> 's \<Rightarrow>
     (thread_data_t \<times> nat set \<times> 's) comp option" where
  "handle_connection fwrite fread should_terminate fd conn_buffer errno td socks s =
     (case conn_loop fwrite (\<lambda>i. fread i (connection_fd td)) should_terminate 0 fd conn_buffer errno False s of
        None \<Rightarrow> None
      | Some (Inl e) \<Rightarrow> Some (Inl e)
      | Some (Inr (bytes_received, s')) \<Rightarrow>
          Some (Inr (td\<lparr>thread_complete := True\<rparr>, socks - {connection_fd td}, s')))"

section \<open>What arrives on a connection\<close>

text \<open>
  The answers of a socket whose peer sends lines, perhaps an unfinished last one, and closes; at the
  end every further read answers end of file.
\<close>

inductive line_input :: "sys_read list \<Rightarrow> bytes list \<Rightarrow> bool" where
  eof: "quiet pre [] \<Longrightarrow> line_input (pre @ [REof]) []"
| eof_rest: "quiet pre bs \<Longrightarrow> newline \<notin> set bs \<Longrightarrow> bs \<noteq> [] \<Longrightarrow> line_input (pre @ [REof, REof]) [bs]"
| line: "quiet pre bs \<Longrightarrow> newline \<notin> set bs \<Longrightarrow> line_input fd ls \<Longrightarrow>
    line_input (pre @ RByte newline # fd) ((bs @ [newline]) # ls)"

abbreviation max_line :: nat where
  "max_line \<equiv> 65535"

lemma CONNECTION_BUFFER_SIZE_unat [simp]:
  "unat CONNECTION_BUFFER_SIZE = 65536" "0 < CONNECTION_BUFFER_SIZE" "CONNECTION_BUFFER_SIZE \<noteq> 1"
  by (simp_all add: CONNECTION_BUFFER_SIZE_def)

text \<open>The reader on such a connection: the next chunk, or the end.\<close>

lemma read_line_input_Cons:
  assumes "line_input fd (l # ls)" and "length buf = 65536"
  obtains e buf' fd' where
    "read_line fd (Some buf) CONNECTION_BUFFER_SIZE errno = Inr (int (length (take max_line l)), e, buf', fd')"
    "0 < length (take max_line l)" "length buf' = 65536"
    "take (length (take max_line l)) buf' = take max_line l" "line_input fd' ls"
  using assms(1)
proof cases
  case (eof_rest pre)
  have r: "read_line fd (Some buf) CONNECTION_BUFFER_SIZE errno =
      Inr (int (min 65535 (length l)), errno_after pre errno, delivered buf CONNECTION_BUFFER_SIZE l, [REof])"
    using read_line_eof [OF eof_rest(3,4), of CONNECTION_BUFFER_SIZE buf "[REof]" errno] assms(2) eof_rest by simp
  have "line_input ([] @ [REof]) []" by (rule line_input.eof) simp
  with r eof_rest assms(2) show thesis
    by (intro that [of "errno_after pre errno" "delivered buf CONNECTION_BUFFER_SIZE l" "[REof]"])
      (auto simp: delivered_def Let_def min_def)
next
  case (line pre bs fd')
  have r: "read_line fd (Some buf) CONNECTION_BUFFER_SIZE errno =
      Inr (int (min 65535 (length l)), errno_after pre errno, delivered buf CONNECTION_BUFFER_SIZE l, fd')"
    using read_line_newline [OF line(3,4), of CONNECTION_BUFFER_SIZE buf fd' errno] assms(2) line by simp
  with line assms(2) show thesis
    by (intro that [of "errno_after pre errno" "delivered buf CONNECTION_BUFFER_SIZE l" fd'])
      (auto simp: delivered_def Let_def min_def)
qed

lemma read_line_input_Nil:
  assumes "line_input fd []" and "length buf = 65536"
  shows "\<exists>e. read_line fd (Some buf) CONNECTION_BUFFER_SIZE errno = Inr (0, e, buf, [])"
  using assms(1)
proof cases
  case (eof pre)
  then show ?thesis
    using read_line_eof [OF eof(2), of CONNECTION_BUFFER_SIZE buf "[]" errno] assms(2) by simp
qed

section \<open>Serving a connection\<close>

abbreviation chunks_of :: "bytes list \<Rightarrow> bytes list" where
  "chunks_of lines \<equiv> map (take max_line) lines"

context line_store
begin

lemma serve:
  assumes noterm: "\<forall>j. \<not> should_terminate j"
  shows "inv s \<Longrightarrow> line_input fd lines \<Longrightarrow> length buf = 65536 \<Longrightarrow>
    serve_ok (\<lambda>i. wr (we i)) (\<lambda>i. rd (re i) dest) (\<lambda>i. wr_ok (we i)) (\<lambda>i. rd_ok (re i)) i (chunks_of lines) s \<Longrightarrow>
    \<exists>s'. conn_loop (\<lambda>i. wr (we i)) (\<lambda>i. rd (re i) dest) should_terminate i fd buf errno False s = Some (Inr (0, s')) \<and>
      inv s' \<and> view s' = foldl app (view s) (chunks_of lines) \<and>
      out s' = (out s)(dest := out s dest @ echoes shown app (view s) (chunks_of lines))"
proof (induction lines arbitrary: s fd buf i errno)
  case Nil
  from read_line_input_Nil [OF Nil.prems(2,3), of errno] Nil.prems(1) show ?case
    by (subst conn_loop.simps) auto
next
  case (Cons l lines)
  let ?c = "take max_line l"
  from read_line_input_Cons [OF Cons.prems(2,3), of errno] obtain e buf' fd' where
    rl: "read_line fd (Some buf) CONNECTION_BUFFER_SIZE errno = Inr (int (length ?c), e, buf', fd')"
      "0 < length ?c" "length buf' = 65536" "take (length ?c) buf' = ?c" "line_input fd' lines" by blast
  have len: "length ?c < 2 ^ 63" by simp
  have ok: "serve_ok (\<lambda>i. wr (we i)) (\<lambda>i. rd (re i) dest) (\<lambda>i. wr_ok (we i)) (\<lambda>i. rd_ok (re i)) i
      (?c # chunks_of lines) s" using Cons.prems(4) by simp
  from serve_step [OF Cons.prems(1) len ok] obtain s1 s2 where
    s12: "wr (we i) ?c (word_of_nat (length ?c)) s = Inr (0, s1)" "rd (re i) dest s1 = Some (Inr (0, s2))"
      "inv s2" "view s2 = app (view s) ?c" "out s2 = (out s)(dest := out s dest @ shown (view s2))"
    and more: "serve_ok (\<lambda>i. wr (we i)) (\<lambda>i. rd (re i) dest) (\<lambda>i. wr_ok (we i)) (\<lambda>i. rd_ok (re i)) (Suc i)
      (chunks_of lines) s2" by blast
  have "unat (word_of_nat (length ?c) :: size_t) = length ?c" using len by (intro unat_of_nat_size_t) simp
  then have wr: "wr (we i) buf' (word_of_nat (length ?c)) s = Inr (0, s1)"
    using wr_prefix [of "we i" buf' "word_of_nat (length ?c)" s] s12(1) rl(4) by simp
  from Cons.IH [OF s12(3) rl(5,3) more, of e] obtain s' where
    s': "conn_loop (\<lambda>i. wr (we i)) (\<lambda>i. rd (re i) dest) should_terminate (Suc i) fd' buf' e False s2 = Some (Inr (0, s'))"
      "inv s'" "view s' = foldl app (view s2) (chunks_of lines)"
      "out s' = (out s2)(dest := out s2 dest @ echoes shown app (view s2) (chunks_of lines))" by blast
  have "conn_loop (\<lambda>i. wr (we i)) (\<lambda>i. rd (re i) dest) should_terminate i fd buf errno False s = Some (Inr (0, s'))"
    using rl(1,2) wr s12(2) s'(1) noterm by (subst conn_loop.simps) simp
  then show ?case using s'(2-4) s12(4,5) by (auto simp: Let_def fun_eq_iff)
qed

lemma handler_serves:
  assumes "inv s" and "line_input fd lines" and "length buf = 65536" and "\<forall>j. \<not> should_terminate j"
    and "serve_ok (\<lambda>i. wr (we i)) (\<lambda>i. rd (re i) (connection_fd td)) (\<lambda>i. wr_ok (we i)) (\<lambda>i. rd_ok (re i)) 0
      (chunks_of lines) s"
  shows "\<exists>s'. handle_connection (\<lambda>i. wr (we i)) (\<lambda>i. rd (re i)) should_terminate fd buf errno td socks s =
      Some (Inr (td\<lparr>thread_complete := True\<rparr>, socks - {connection_fd td}, s')) \<and>
    inv s' \<and> view s' = foldl app (view s) (chunks_of lines) \<and>
    out s' = (out s)(connection_fd td := out s (connection_fd td) @ echoes shown app (view s) (chunks_of lines))"
  using serve [OF assms(4,1,2,3,5), of errno] by (auto simp: handle_connection_def)

end

end
