(* ===== verification/Driver_Properties.thy ===== *)
theory Driver_Properties
  imports Driver_Correct
begin

text \<open>
  The properties of the character driver, each with a witness at a concrete device state: the
  device as the module leaves it after loading, an open file on it, and concrete answers of the
  kernel.
\<close>

section \<open>Concrete states\<close>

definition loaded_kernel :: kernel where
  "loaded_kernel = \<lparr>aesd_device = zero_dev, aesd_major = 0, kmem = Map.empty,
     chrdev_region = None, cdev_live = None\<rparr>"

definition open_file :: struct_file where
  "open_file = \<lparr>private_data = AesdDevice, f_pos = 0\<rparr>"

lemma open_file_dev [simp]: "private_data open_file = AesdDevice"
  by (simp add: open_file_def)

lemma loaded_kernel_simps [simp]:
  "aesd_device loaded_kernel = zero_dev" "kmem loaded_kernel = Map.empty"
  by (simp_all add: loaded_kernel_def)

lemma zero_dev_simps [simp]:
  "dev_buffer zero_dev = aesd_circular_buffer_init" "dev_entry zero_dev = zero_entry"
  "dev_lock zero_dev = False"
  by (simp_all add: zero_dev_def aesd_circular_buffer_init_def)

lemma loaded_kernel_inv: "dev_inv loaded_kernel" and loaded_kernel_view: "dev_view loaded_kernel = ([], [])"
  by (simp_all add: init_state_inv init_state_inv(2) [unfolded prod.inject])

text \<open>An environment in which the two allocations of a write return blocks \<open>a\<close> and \<open>b\<close>.\<close>

definition good_env :: "nat \<Rightarrow> nat \<Rightarrow> nat \<Rightarrow> nat \<Rightarrow> write_env" where
  "good_env a n b m = \<lparr>w_lock_rc = 0, w_kmalloc = Some (a, replicate n nul), w_uncopied = 0,
     w_krealloc = Some (b, replicate m nul)\<rparr>"

lemma good_env_simps [simp]:
  "w_lock_rc (good_env a n b m) = 0" "w_uncopied (good_env a n b m) = 0"
  "w_kmalloc (good_env a n b m) = Some (a, replicate n nul)"
  "w_krealloc (good_env a n b m) = Some (b, replicate m nul)"
  by (simp_all add: good_env_def)

lemmas write_env_defs = write_lawful_def write_succeeds_def write_request_def upto_newline_def
  alloc_ok_def kmalloc_def block_limit_def zero_entry_def

text \<open>A device whose ten slots hold one-byte lines, in blocks 0 to 9.\<close>

definition full_kernel :: kernel where
  "full_kernel = loaded_kernel
     \<lparr>aesd_device := zero_dev\<lparr>dev_buffer :=
        \<lparr>cb_entry = map (\<lambda>i. \<lparr>buffptr = Ptr i, esize = 1\<rparr>) [0..<10],
         cb_in_offs = 0, cb_out_offs = 0, cb_full = True\<rparr>\<rparr>,
      kmem := (\<lambda>a. if a < 10 then Some [newline] else None)\<rparr>"

lemma full_kernel_inv: "dev_inv full_kernel"
  by (simp add: dev_inv_def full_kernel_def cb_inv_def cb_list_def dev_entries_def entry_ok_def
      valid_block_def zero_entry_def addrs_def block_limit_def comp_def upt_rec)

lemma hi_written:
  "\<exists>k. aesd_write (good_env 0 3 1 3) open_file (''hi'' @ [newline]) 3 loaded_kernel = Some (3, k) \<and>
    dev_inv k \<and> dev_lines k = [''hi'' @ [newline]]"
proof -
  have law: "write_lawful (good_env 0 3 1 3) (''hi'' @ [newline]) 3 loaded_kernel"
    and succ: "write_succeeds (good_env 0 3 1 3) (''hi'' @ [newline]) 3 loaded_kernel"
    by (simp_all add: write_env_defs)
  show ?thesis
    using aesd_write_refines [OF loaded_kernel_inv open_file_dev law succ] loaded_kernel_view
    by (auto simp: write_spec_def upto_newline_def)
qed

lemma ab_written:
  "\<exists>k. aesd_write (good_env 0 2 1 2) open_file ''ab'' 2 loaded_kernel = Some (2, k) \<and> dev_inv k \<and>
    dev_pending k = ''ab'' \<and> dev_lines k = [] \<and> kmem k = [1 \<mapsto> ''ab''] \<and>
    buffptr (dev_entry (aesd_device k)) = Ptr 1 \<and> esize (dev_entry (aesd_device k)) = 2"
proof -
  have law: "write_lawful (good_env 0 2 1 2) ''ab'' 2 loaded_kernel"
    and succ: "write_succeeds (good_env 0 2 1 2) ''ab'' 2 loaded_kernel"
    by (simp_all add: write_env_defs)
  obtain k where k: "aesd_write (good_env 0 2 1 2) open_file ''ab'' 2 loaded_kernel = Some (2, k)"
    "dev_inv k" "dev_pending k = ''ab''" "dev_lines k = []"
    using aesd_write_refines [OF loaded_kernel_inv open_file_dev law succ] loaded_kernel_view
    by (auto simp: write_spec_def)
  then show ?thesis
    by (auto simp: aesd_write_def c_defs Let_def newline_scan.simps INT_MAX_def grow_entry_def
        exit_free_def zero_entry_def fun_eq_iff)
qed

section \<open>Writing\<close>

text \<open>
  C2: a write to an open device whose kernel calls all succeed returns the byte count, keeps the
  device invariant (entries own distinct allocated blocks of exactly their size, the lock is free)
  and changes the view as specified: without a newline the bytes join the pending line, otherwise
  the pending line is completed up to the first newline and becomes the newest of at most ten lines.
\<close>

theorem write_refines_spec:
  assumes "dev_inv k" and "private_data filp = AesdDevice"
    and "write_lawful env buf count k" and "write_succeeds env buf count k"
  shows "\<exists>k'. aesd_write env filp buf count k = Some (int (unat count), k') \<and> dev_inv k' \<and>
    dev_view k' = write_spec (dev_view k) buf"
  by (rule aesd_write_refines [OF assms])

theorem write_refines_spec_witness:
  "\<exists>k'. aesd_write (good_env 0 3 1 3) open_file (''hi'' @ [newline]) 3 loaded_kernel = Some (3, k') \<and>
    dev_inv k' \<and> dev_view k' = ([''hi'' @ [newline]], [])"
proof -
  have law: "write_lawful (good_env 0 3 1 3) (''hi'' @ [newline]) 3 loaded_kernel"
    and succ: "write_succeeds (good_env 0 3 1 3) (''hi'' @ [newline]) 3 loaded_kernel"
    by (simp_all add: write_env_defs)
  show ?thesis
    using write_refines_spec [OF loaded_kernel_inv open_file_dev law succ] loaded_kernel_view
    by (simp add: write_spec_def upto_newline_def)
qed

text \<open>
  C30: the error branches of a write, in the order of the code: an interrupted lock gives
  \<open>-ERESTARTSYS\<close>, a failed \<open>kmalloc\<close> \<open>-ENOMEM\<close>, an unreadable user buffer
  \<open>-EFAULT\<close>, all with the kernel state exactly as before (nothing leaked, lock released); only
  a failed \<open>krealloc\<close> changes the device, by clearing the pending buffer pointer.
\<close>

theorem write_error_branches:
  assumes "dev_inv k" and "private_data filp = AesdDevice"
    and "write_lawful env buf count k" and "\<not> write_succeeds env buf count k"
  shows "aesd_write env filp buf count k =
    (if w_lock_rc env \<noteq> 0 then Some (- ERESTARTSYS, k)
     else if w_kmalloc env = None \<and> count \<noteq> 0 then Some (- ENOMEM, k)
     else if w_uncopied env \<noteq> 0 then Some (- EFAULT, k)
     else Some (- ENOMEM, set_entry ((dev_entry (aesd_device k))\<lparr>buffptr := NULL\<rparr>) k))"
  by (rule aesd_write_fails [OF assms])

theorem write_error_branches_witness:
  "aesd_write ((good_env 0 3 1 3)\<lparr>w_uncopied := 2\<rparr>) open_file ''abc'' 3 loaded_kernel = Some (- 14, loaded_kernel)"
proof -
  let ?env = "(good_env 0 3 1 3)\<lparr>w_uncopied := 2\<rparr>"
  have law: "write_lawful ?env ''abc'' 3 loaded_kernel"
    and fail: "\<not> write_succeeds ?env ''abc'' 3 loaded_kernel"
    by (simp_all add: write_env_defs)
  show ?thesis
    using write_error_branches [OF loaded_kernel_inv open_file_dev law fail] by simp
qed

text \<open>
  From a freshly loaded module, writing a byte stream in chunks that carry at most one newline,
  at the end, leaves the device with the last ten complete lines of the stream and its unfinished
  rest, whatever the chunking: the same bytes cut differently give the same device contents.
\<close>

lemma device_holds_last_ten_lines:
  assumes "private_data filp = AesdDevice" and "dev_inv k" and "dev_view k = ([], [])"
    and "writes_succeed filp ws k" and "\<forall>bs \<in> set (map snd ws). line_chunk bs"
  shows "\<exists>k'. dev_writes filp ws k = Some k' \<and> dev_inv k' \<and>
    dev_lines k' = last_n 10 (fst (split_lines (concat (map snd ws)))) \<and>
    dev_pending k' = snd (split_lines (concat (map snd ws)))"
  using dev_writes_view [OF assms(1,2,4)] foldl_write_spec_stream [OF assms(5), of "[]"] assms(3)
  by auto

section \<open>Reading\<close>

text \<open>
  C4: a read that is not interrupted and whose user copy succeeds returns the next bytes of the
  concatenated lines at the file position, as many as fit in \<open>count\<close> without crossing the end of
  a stored line, advances the position by that number and leaves the kernel state unchanged. Past the
  end it returns zero bytes.
\<close>

theorem read_returns_contents:
  assumes "dev_inv k" and "private_data filp = AesdDevice"
    and "r_lock_rc env = 0" and "r_uncopied env = 0"
  shows "let n = read_length (dev_lines k) (unat (f_pos filp)) (unat count) in
    aesd_read env filp count k =
      Some (int n, filp\<lparr>f_pos := f_pos filp + word_of_nat n\<rparr>,
        take n (drop (unat (f_pos filp)) (concat (dev_lines k))), k)"
  by (rule aesd_read_refines [OF assms])

theorem read_returns_contents_witness:
  "\<exists>k. aesd_write (good_env 0 3 1 3) open_file (''hi'' @ [newline]) 3 loaded_kernel = Some (3, k) \<and>
    aesd_read \<lparr>r_lock_rc = 0, r_uncopied = 0\<rparr> (open_file\<lparr>f_pos := 1\<rparr>) 1024 k =
      Some (2, open_file\<lparr>f_pos := 3\<rparr>, ''i'' @ [newline], k)"
proof -
  obtain k where k: "aesd_write (good_env 0 3 1 3) open_file (''hi'' @ [newline]) 3 loaded_kernel = Some (3, k)"
    and inv: "dev_inv k" and lines: "dev_lines k = [''hi'' @ [newline]]"
    using hi_written by blast
  have "private_data (open_file\<lparr>f_pos := 1\<rparr>) = AesdDevice" by simp
  from read_returns_contents [OF inv this, of "\<lparr>r_lock_rc = 0, r_uncopied = 0\<rparr>" 1024] k
  show ?thesis by (auto simp: lines read_length_def Let_def)
qed

text \<open>
  C28: the bounds of a read, on every branch. An interrupted lock gives \<open>-ERESTARTSYS\<close> and a
  user copy that cannot transfer every byte \<open>-EFAULT\<close>, both with the position as before;
  otherwise the result is the number of bytes handed out, which is at most the requested count and
  zero only for an empty request or at the end of the contents, and the position advances by it
  without wrapping around and never past the end. The kernel state, lock included, is as before on
  all branches.
\<close>

theorem read_stays_in_bounds:
  assumes "dev_inv k" and "private_data filp = AesdDevice"
  shows "\<exists>retval filp' out. aesd_read env filp count k = Some (retval, filp', out, k) \<and>
    (if r_lock_rc env \<noteq> 0 then retval = - ERESTARTSYS \<and> filp' = filp
     else if r_uncopied env \<noteq> 0 \<and> unat (f_pos filp) < length (concat (dev_lines k))
     then retval = - EFAULT \<and> filp' = filp
     else retval = int (length out) \<and> retval \<le> uint count \<and>
       (retval = 0 \<longleftrightarrow> count = 0 \<or> length (concat (dev_lines k)) \<le> unat (f_pos filp)) \<and>
       unat (f_pos filp') = unat (f_pos filp) + length out \<and>
       unat (f_pos filp') \<le> max (unat (f_pos filp)) (length (concat (dev_lines k))))"
proof -
  let ?total = "length (concat (dev_lines k))"
  consider "r_lock_rc env \<noteq> 0" | "r_lock_rc env = 0" "r_uncopied env \<noteq> 0" "unat (f_pos filp) < ?total"
    | "r_lock_rc env = 0" "r_uncopied env = 0 \<or> ?total \<le> unat (f_pos filp)" by linarith
  then show ?thesis
  proof cases
    case 1
    then show ?thesis using assms(2) by (simp add: aesd_read_def)
  next
    case 2
    then show ?thesis using aesd_read_copy_fault [OF assms 2] by (auto simp del: length_concat)
  next
    case 3
    from aesd_read_granted [OF assms 3, of count] obtain out filp' where
      "aesd_read env filp count k = Some (int (length out), filp', out, k)" "length out \<le> unat count"
      "out = [] \<longleftrightarrow> count = 0 \<or> ?total \<le> unat (f_pos filp)"
      "unat (f_pos filp') = unat (f_pos filp) + length out"
      "drop (unat (f_pos filp)) (concat (dev_lines k)) = out @ drop (unat (f_pos filp')) (concat (dev_lines k))"
      by blast
    note rd = this
    have "?total - unat (f_pos filp) = length out + (?total - unat (f_pos filp'))"
      using arg_cong [OF rd(5), of length] by (simp del: length_concat)
    then have "unat (f_pos filp') \<le> max (unat (f_pos filp)) ?total"
      using rd(4) unfolding le_max_iff_disj by linarith
    moreover have "int (length out) \<le> uint count" unfolding uint_nat using rd(2) by (simp only: of_nat_le_iff)
    moreover have "int (length out) = 0 \<longleftrightarrow> count = 0 \<or> ?total \<le> unat (f_pos filp)" using rd(3) by simp
    moreover have "\<not> (r_uncopied env \<noteq> 0 \<and> unat (f_pos filp) < ?total)" using 3(2) by linarith
    ultimately show ?thesis
      using 3(1) rd(1,4) by (intro exI [of _ "int (length out)"] exI [of _ filp'] exI [of _ out]) (simp only: if_False simp_thms)
  qed
qed

theorem read_stays_in_bounds_witness:
  "\<exists>k out. aesd_write (good_env 0 3 1 3) open_file (''hi'' @ [newline]) 3 loaded_kernel = Some (3, k) \<and>
    aesd_read \<lparr>r_lock_rc = 0, r_uncopied = 1\<rparr> open_file 1024 k = Some (- 14, open_file, out, k)"
proof -
  obtain k where k: "aesd_write (good_env 0 3 1 3) open_file (''hi'' @ [newline]) 3 loaded_kernel = Some (3, k)"
    and inv: "dev_inv k" and lines: "dev_lines k = [''hi'' @ [newline]]"
    using hi_written by blast
  have "unat (f_pos open_file) < length (concat (dev_lines k))" by (simp add: lines open_file_def)
  with read_stays_in_bounds [OF inv open_file_dev, of "\<lparr>r_lock_rc = 0, r_uncopied = 1\<rparr>" 1024] k
  show ?thesis by auto
qed

text \<open>
  C10: what is written is read back. After any successful line-oriented writes to a fresh device, a
  newly opened file that is read with buffers of any nonzero sizes, often enough, delivers exactly
  the last ten complete lines of the written stream, byte for byte and in order.
\<close>

theorem written_lines_read_back:
  assumes "private_data filp = AesdDevice" and "dev_inv k" and "dev_view k = ([], [])"
    and "writes_succeed filp ws k" and "\<forall>bs \<in> set (map snd ws). line_chunk bs"
    and "private_data reader = AesdDevice" and "f_pos reader = 0"
    and "r_lock_rc env = 0" and "r_uncopied env = 0" and "0 \<notin> set counts"
    and "length (concat (last_n 10 (fst (split_lines (concat (map snd ws)))))) \<le> length counts"
  shows "\<exists>k'. dev_writes filp ws k = Some k' \<and>
    dev_reads env reader counts k' = Some (concat (last_n 10 (fst (split_lines (concat (map snd ws))))))"
proof -
  obtain k' where k': "dev_writes filp ws k = Some k'" "dev_inv k'"
    "dev_lines k' = last_n 10 (fst (split_lines (concat (map snd ws))))"
    using dev_writes_view [OF assms(1,2,4)] foldl_write_spec_stream [OF assms(5), of "[]"] assms(3) by auto
  have "length (concat (dev_lines k')) - unat (f_pos reader) \<le> length counts" using assms(11) k'(3) by simp
  from dev_reads_rest [OF k'(2) assms(8-10,6) this] show ?thesis using k'(1,3) assms(7) by simp
qed

theorem written_lines_read_back_witness:
  "\<exists>k'. dev_writes open_file [(good_env 0 1 1 1, ''w''), (good_env 0 2 2 3, ''r'' @ [newline])] loaded_kernel = Some k' \<and>
    dev_reads \<lparr>r_lock_rc = 0, r_uncopied = 0\<rparr> open_file [1, 2, 1024] k' = Some (''wr'' @ [newline])"
proof -
  let ?ws = "[(good_env 0 1 1 1, ''w''), (good_env 0 2 2 3, ''r'' @ [newline])]"
  have a: "\<forall>bs \<in> set (map snd ?ws). line_chunk bs" by (simp add: line_chunk_def)
  have b: "writes_succeed open_file ?ws loaded_kernel"
    by (simp add: write_env_defs aesd_write_def c_defs Let_def newline_scan.simps INT_MAX_def
        grow_entry_def exit_free_def aesd_circular_buffer_add_entry_def aesd_circular_buffer_init_def)
  show ?thesis
    using written_lines_read_back [OF open_file_dev loaded_kernel_inv loaded_kernel_view b a open_file_dev,
        of "\<lparr>r_lock_rc = 0, r_uncopied = 0\<rparr>" "[1, 2, 1024]"]
    by (simp add: open_file_def)
qed

section \<open>Load and unload\<close>

text \<open>
  C31: loading the module returns zero only with an empty device that satisfies the invariant and
  with the region and the character device registered; a nonzero return leaves no region registered,
  no new live device and the heap untouched.
\<close>

theorem init_module_outcome:
  assumes "aesd_init_module env k = (r, k')"
  shows "(r = 0 \<longrightarrow> dev_inv k' \<and> dev_view k' = ([], []) \<and> kmem k' = kmem k \<and>
       chrdev_region k' = Some (i_dev env) \<and> cdev_live k' = Some (MKDEV (MAJOR (i_dev env)) aesd_minor)) \<and>
    (r \<noteq> 0 \<longrightarrow> kmem k' = kmem k \<and> cdev_live k' = cdev_live k \<and>
       (chrdev_region k = None \<longrightarrow> chrdev_region k' = None))"
  by (rule aesd_init_module_effect [OF assms])

theorem init_module_outcome_witness:
  "\<exists>k'. aesd_init_module \<lparr>i_region_rc = 0, i_dev = MKDEV 250 0, i_cdev_add_rc = 0\<rparr> loaded_kernel = (0, k') \<and>
     dev_inv k' \<and> dev_view k' = ([], [])"
proof -
  let ?env = "\<lparr>i_region_rc = 0, i_dev = MKDEV 250 0, i_cdev_add_rc = 0\<rparr>"
  obtain r k' where run: "aesd_init_module ?env loaded_kernel = (r, k')" by fastforce
  then have "r = 0" by (auto simp: aesd_init_module_def aesd_setup_cdev_def Let_def)
  with init_module_outcome [OF run] run show ?thesis by blast
qed

text \<open>
  C32: unloading frees every block the device owns (the pending buffer and the ten slots) exactly
  once, never frees anything else, and unregisters the device; no double free or use of a dangling
  pointer is reached.
\<close>

theorem cleanup_frees_device_blocks:
  assumes "dev_inv k"
  shows "aesd_cleanup_module k =
    Some (k\<lparr>kmem := (\<lambda>a. if a \<in> set (addrs (dev_entries k)) then None else kmem k a),
            cdev_live := None, chrdev_region := None\<rparr>)"
  by (rule aesd_cleanup_module_effect [OF assms])

theorem cleanup_frees_device_blocks_witness:
  "\<exists>k k'. aesd_write (good_env 0 3 1 3) open_file (''hi'' @ [newline]) 3 loaded_kernel = Some (3, k) \<and>
    aesd_cleanup_module k = Some k' \<and> (\<forall>a. a \<in> set (addrs (dev_entries k)) \<longrightarrow> kmem k' a = None)"
proof -
  obtain k where k: "aesd_write (good_env 0 3 1 3) open_file (''hi'' @ [newline]) 3 loaded_kernel = Some (3, k)"
    and inv: "dev_inv k"
    using hi_written by blast
  with cleanup_frees_device_blocks [OF inv] show ?thesis by auto
qed

section \<open>Defects\<close>

text \<open>
  C35: completing a line while the ring is full leaks the block of the line that is dropped: after
  the write the block is still allocated, with its contents, and no entry of the device refers to it,
  so unloading cannot free it either.
\<close>

theorem evicted_line_is_leaked:
  assumes "dev_inv k" and "private_data filp = AesdDevice"
    and "write_lawful env buf count k" and "write_succeeds env buf count k"
    and "newline \<in> set buf" and "cb_full (dev_buffer (aesd_device k))"
    and "buffptr (hd (cb_list (dev_buffer (aesd_device k)))) = Ptr a"
  shows "\<exists>k'. aesd_write env filp buf count k = Some (int (unat count), k') \<and>
    kmem k' a = kmem k a \<and> kmem k a \<noteq> None \<and> a \<notin> set (addrs (dev_entries k'))"
  by (rule evicted_block_stays [OF assms])

theorem evicted_line_is_leaked_witness:
  "\<exists>k'. aesd_write (good_env 10 2 11 2) open_file (''x'' @ [newline]) 2 full_kernel = Some (2, k') \<and>
    kmem k' 0 = Some [newline] \<and> 0 \<notin> set (addrs (dev_entries k'))"
proof -
  have law: "write_lawful (good_env 10 2 11 2) (''x'' @ [newline]) 2 full_kernel"
    and succ: "write_succeeds (good_env 10 2 11 2) (''x'' @ [newline]) 2 full_kernel"
    by (simp_all add: write_env_defs full_kernel_def)
  have nl: "newline \<in> set (''x'' @ [newline])" by simp
  have full: "cb_full (dev_buffer (aesd_device full_kernel))" by (simp add: full_kernel_def)
  have head: "buffptr (hd (cb_list (dev_buffer (aesd_device full_kernel)))) = Ptr 0"
    by (simp add: full_kernel_def cb_list_def upt_rec)
  show ?thesis
    using evicted_line_is_leaked [OF full_kernel_inv open_file_dev law succ nl full head]
    by (simp add: full_kernel_def)
qed

text \<open>
  Bytes after the first newline of a write are dropped while the return value counts them: the
  device ends with the same contents as if only the part up to the newline had been written.
\<close>

lemma write_drops_bytes_after_newline:
  assumes "dev_inv k" and "private_data filp = AesdDevice"
    and "write_lawful env (line @ newline # rest) count k" and "write_succeeds env (line @ newline # rest) count k"
  shows "\<exists>k'. aesd_write env filp (line @ newline # rest) count k =
      Some (int (length line + 1 + length rest), k') \<and>
    dev_view k' = write_spec (dev_view k) (line @ [newline])"
proof -
  have len: "int (unat count) = int (length line + 1 + length rest)"
    using assms(3) by (simp add: write_lawful_def)
  have spec: "write_spec (dev_view k) (line @ newline # rest) = write_spec (dev_view k) (line @ [newline])"
    unfolding write_spec_def upto_newline_def split_def takeWhile_prefix_newline [of line rest] by simp
  from aesd_write_refines [OF assms] show ?thesis unfolding len spec by blast
qed

lemma take_min_length: "take (min n (length xs)) xs = take n xs"
  by (simp add: min_def)

text \<open>
  C36: a failed \<open>krealloc\<close> while a line is pending loses that line's bytes but keeps its size, so
  the next successful write that completes a line stores uninitialised memory, as many bytes as were
  pending, in front of the new bytes. The device is well formed after that, so a reader at the
  beginning of this line receives those bytes, and the rest of the line, as far as its buffer goes.
\<close>

theorem failed_krealloc_exposes_memory:
  assumes "dev_inv k" and "private_data filp = AesdDevice" and "dev_pending k \<noteq> []"
    and "write_lawful env1 buf1 count1 k" and "w_lock_rc env1 = 0" "w_kmalloc env1 \<noteq> None"
      "w_uncopied env1 = 0" "w_krealloc env1 = None"
    and "newline \<in> set buf2" and "w_lock_rc env2 = 0" "w_uncopied env2 = 0"
      "w_kmalloc env2 = Some (c, cjunk)" "w_krealloc env2 = Some (b, junk)"
    and "write_lawful env2 buf2 count2 (set_entry ((dev_entry (aesd_device k))\<lparr>buffptr := NULL\<rparr>) k)"
  shows "\<exists>k1 k2. aesd_write env1 filp buf1 count1 k = Some (- ENOMEM, k1) \<and>
    aesd_write env2 filp buf2 count2 k1 = Some (int (unat count2), k2) \<and> dev_inv k2 \<and>
    dev_lines k2 = last_n 10 (dev_lines k @ [take (length (dev_pending k)) junk @ upto_newline buf2]) \<and>
    length (take (length (dev_pending k)) junk) = length (dev_pending k) \<and>
    (\<forall>env filp' count. private_data filp' = AesdDevice \<longrightarrow> r_lock_rc env = 0 \<longrightarrow> r_uncopied env = 0 \<longrightarrow>
      unat (f_pos filp') = length (concat (butlast (dev_lines k2))) \<longrightarrow>
      (\<exists>n f'. n = min (unat count) (length (dev_pending k) + length (upto_newline buf2)) \<and>
        aesd_read env filp' count k2 =
          Some (int n, f', take n (take (length (dev_pending k)) junk @ upto_newline buf2), k2)))"
proof -
  define k1 where "k1 = set_entry ((dev_entry (aesd_device k))\<lparr>buffptr := NULL\<rparr>) k"
  have ok: "entry_ok (kmem k) (dev_entry (aesd_device k))"
    using assms(1) by (simp add: dev_inv_def dev_entries_def)
  then have size: "unat (esize (dev_entry (aesd_device k))) = length (dev_pending k)"
    "unat (esize (dev_entry (aesd_device k))) < block_limit"
    using valid_block_length by (auto simp: entry_ok_def dev_pending_def)
  have fail: "\<not> write_succeeds env1 buf1 count1 k"
    using request_nonzero [OF assms(1,4,6,3)] assms(8) by (simp add: write_succeeds_def)
  have first: "aesd_write env1 filp buf1 count1 k = Some (- ENOMEM, k1)"
    using aesd_write_fails [OF assms(1,2,4) fail] assms(5-7) by (auto simp: k1_def)
  have cleared: "dev_inv (set_entry zero_entry k1)" using dev_inv_clear_entry [OF assms(1)] by (simp add: k1_def)
  let ?line = "take (length (dev_pending k)) junk @ upto_newline buf2"
  have "\<exists>k2. aesd_write env2 filp buf2 count2 k1 = Some (int (unat count2), k2) \<and> dev_inv k2 \<and>
      dev_lines k2 = last_n 10 (dev_lines k1 @ [take (unat (esize (dev_entry (aesd_device k1)))) junk @ upto_newline buf2]) \<and>
      length junk = unat (esize (dev_entry (aesd_device k1))) + length (upto_newline buf2)"
    by (rule stale_write_commits_junk [OF cleared assms(2) _ assms(9-13) assms(14) [folded k1_def]])
      (use size(2) in \<open>simp_all add: k1_def\<close>)
  then obtain k2 where k2: "aesd_write env2 filp buf2 count2 k1 = Some (int (unat count2), k2)" "dev_inv k2"
    "dev_lines k2 = last_n 10 (dev_lines k @ [?line])"
    and junk: "length (take (length (dev_pending k)) junk) = length (dev_pending k)"
    by (auto simp: k1_def size(1) dev_lines_def)
  have line: "dev_lines k2 = butlast (dev_lines k2) @ [?line]" unfolding k2(3) by (simp add: last_n_def butlast_append)
  have "\<exists>n f'. n = min (unat count) (length (dev_pending k) + length (upto_newline buf2)) \<and>
        aesd_read env filp' count k2 = Some (int n, f', take n ?line, k2)"
    if "private_data filp' = AesdDevice" "r_lock_rc env = 0" "r_uncopied env = 0"
      "unat (f_pos filp') = length (concat (butlast (dev_lines k2)))" for env filp' count
  proof -
    have "?line \<noteq> []" using assms(3) junk by auto
    from read_last_line [OF k2(2) that(1-3) line that(4) this, of count] obtain f' where
      "aesd_read env filp' count k2 = Some (int (min (unat count) (length ?line)), f', take (unat count) ?line, k2)" by blast
    moreover have "length ?line = length (dev_pending k) + length (upto_newline buf2)" using junk by simp
    moreover have "take (unat count) ?line = take (min (unat count) (length ?line)) ?line" by (simp only: take_min_length)
    ultimately show ?thesis by metis
  qed
  then show ?thesis using first k2 junk by blast
qed

theorem failed_krealloc_exposes_memory_witness:
  "\<exists>k k1 k2 f'. aesd_write (good_env 0 2 1 2) open_file ''ab'' 2 loaded_kernel = Some (2, k) \<and>
    aesd_write ((good_env 2 1 3 1)\<lparr>w_krealloc := None\<rparr>) open_file ''c'' 1 k = Some (- 12, k1) \<and>
    aesd_write ((good_env 2 1 3 3)\<lparr>w_krealloc := Some (3, ''xyz'')\<rparr>) open_file [newline] 1 k1 = Some (1, k2) \<and>
    dev_lines k2 = [''xy'' @ [newline]] \<and>
    aesd_read \<lparr>r_lock_rc = 0, r_uncopied = 0\<rparr> open_file 16 k2 = Some (3, f', ''xy'' @ [newline], k2)"
proof -
  obtain k where k: "aesd_write (good_env 0 2 1 2) open_file ''ab'' 2 loaded_kernel = Some (2, k)"
    "dev_inv k" "dev_pending k = ''ab''" "dev_lines k = []" "kmem k = [1 \<mapsto> ''ab'']"
    "buffptr (dev_entry (aesd_device k)) = Ptr 1" "esize (dev_entry (aesd_device k)) = 2"
    using ab_written by blast
  let ?env1 = "(good_env 2 1 3 1)\<lparr>w_krealloc := None\<rparr>"
  let ?env2 = "(good_env 2 1 3 3)\<lparr>w_krealloc := Some (3, ''xyz'')\<rparr>"
  have law1: "write_lawful ?env1 ''c'' 1 k" using k by (simp add: write_env_defs)
  have law2: "write_lawful ?env2 [newline] 1 (set_entry ((dev_entry (aesd_device k))\<lparr>buffptr := NULL\<rparr>) k)"
    using k by (simp add: write_env_defs)
  from failed_krealloc_exposes_memory [OF k(2) open_file_dev _ law1, of "[newline]" ?env2 2 "[nul]" 3 "''xyz''" 1] k law2
  obtain k1 k2 where k2: "aesd_write ?env1 open_file ''c'' 1 k = Some (- 12, k1)" "aesd_write ?env2 open_file [newline] 1 k1 = Some (1, k2)"
    "dev_lines k2 = [''xy'' @ [newline]]"
    and rd: "\<And>env filp' count. private_data filp' = AesdDevice \<Longrightarrow> r_lock_rc env = 0 \<Longrightarrow> r_uncopied env = 0 \<Longrightarrow>
      unat (f_pos filp') = length (concat (butlast (dev_lines k2))) \<Longrightarrow>
      \<exists>f'. aesd_read env filp' count k2 =
        Some (int (min (unat count) (Suc (Suc (Suc 0)))), f', take (min (unat count) (Suc (Suc (Suc 0)))) (''xy'' @ [newline]), k2)"
    by (auto simp: upto_newline_def last_n_def)
  from rd [of open_file "\<lparr>r_lock_rc = 0, r_uncopied = 0\<rparr>" 16] open_file_dev k2(3)
  show ?thesis using k(1) k2 by (auto simp: open_file_def)
qed

end
