(* ===== verification/Connection_Properties.thy ===== *)
theory Connection_Properties
  imports Connection Driver_Properties
begin

text \<open>
  The properties of the filestore and of the connection thread, with witnesses on the freshly loaded
  device and on an empty file.
\<close>

section \<open>Streams of lines\<close>

lemma line_input_chunks: "line_input fd lines \<Longrightarrow> \<forall>c \<in> set (chunks_of lines). line_chunk c"
proof (induction rule: line_input.induct)
  case (eof_rest pre bs)
  then show ?case by (auto simp: line_chunk_def dest: in_set_butlastD in_set_takeD)
next
  case (line pre bs fd ls)
  then have "line_chunk (take max_line (bs @ [newline]))"
    by (cases "length bs < max_line") (auto simp: line_chunk_def dest: in_set_butlastD in_set_takeD)
  with line show ?case by simp
qed simp

lemma foldl_append: "foldl (@) v cs = v @ concat cs"
  by (induction cs arbitrary: v) simp_all

section \<open>Concrete states\<close>

definition start_world :: world where
  "start_world = \<lparr>file_mutex = False, sent = (\<lambda>_. []), kern = loaded_kernel, fdt = Map.empty\<rparr>"

lemma start_world_inv: "dev_store_inv start_world" and start_world_simps [simp]: "fdt start_world = Map.empty"
    "sent start_world = (\<lambda>_. [])" "kern start_world = loaded_kernel"
  by (simp_all add: dev_store_inv_def start_world_def loaded_kernel_inv)

definition hi_fwrite :: fwrite_env where
  "hi_fwrite = \<lparr>fw_lock_rc = 0, fw_open = Some 7, fw_lseek = None, fw_write = good_env 0 3 1 3, fw_unlock_rc = 0\<rparr>"

definition good_fread :: fread_env where
  "good_fread = \<lparr>fr_lock_rc = 0, fr_open = Some 7, fr_lseek_ok = False, fr_buffer = replicate 1024 nul,
     fr_reads = (\<lambda>_. \<lparr>r_lock_rc = 0, r_uncopied = 0\<rparr>), fr_sends = (\<lambda>_. Some 1024), fr_unlock_rc = 0\<rparr>"

lemma hi_fwrite_ok: "fwrite_ok hi_fwrite (''hi'' @ [newline]) start_world"
  by (simp add: fwrite_ok_def hi_fwrite_def write_env_defs)

lemma good_fread_ok: "fdt w 7 = None \<Longrightarrow> fread_ok good_fread w"
  by (simp add: fread_ok_def good_fread_def sends_all_def)

definition good_ffwrite :: file_write_env where
  "good_ffwrite = \<lparr>ffw_lock_rc = 0, ffw_write = Some 65536, ffw_unlock_rc = 0\<rparr>"

definition good_ffread :: file_read_env where
  "good_ffread = \<lparr>ffr_lock_rc = 0, ffr_lseek_ok = True, ffr_buffer = replicate 1024 nul,
     ffr_reads = (\<lambda>_. True), ffr_sends = (\<lambda>_. Some 1024), ffr_unlock_rc = 0\<rparr>"

definition start_file_world :: file_world where
  "start_file_world = snd (file_init_filestore (Some 3) 0
     \<lparr>file_mutex = True, sent = (\<lambda>_. []), filestore_fd = None, fdata = [], fpos = 0, flinked = False\<rparr>)"

lemma good_file_envs: "length bs \<le> 65536 \<Longrightarrow> ffwrite_ok good_ffwrite bs w" "ffread_ok good_ffread w'"
  by (simp_all add: ffwrite_ok_def good_ffwrite_def ffread_ok_def good_ffread_def sends_all_def)

lemma start_file_world_inv: "file_store_inv start_file_world" and start_file_world_simps [simp]:
    "fdata start_file_world = []" "sent start_file_world = (\<lambda>_. [])"
  by (simp_all add: file_store_inv_def start_file_world_def file_init_filestore_def)

definition hi_input :: "sys_read list" where
  "hi_input = map RByte ''hi'' @ RByte newline # ([] @ [REof])"

lemma hi_line_input: "line_input hi_input [''hi'' @ [newline]]"
  unfolding hi_input_def by (intro line_input.line line_input.eof) simp_all

definition conn5 :: thread_data_t where
  "conn5 = \<lparr>td_thread = 1, thread_complete = False, connection_fd = 5, client_addr = \<lparr>sin_addr = 0, sin_port = 0\<rparr>\<rparr>"

text \<open>One line goes through.\<close>

lemma dev_serve_one:
  assumes "dev_store_inv s" and "fwrite_ok we c s" and "length c < 2 ^ 63" and "\<And>w. fdt w = fdt s \<Longrightarrow> fread_ok re w"
  shows "serve_ok (\<lambda>i. filestore_write we) (\<lambda>i. filestore_read_to_dest re dest) (\<lambda>i. fwrite_ok we) (\<lambda>i. fread_ok re) i [c] s"
proof -
  have n: "unat (word_of_nat (length c) :: size_t) = length c" using assms(3) by (intro unat_of_nat_size_t) simp
  from filestore_write_refines [OF assms(1), of "word_of_nat (length c)" c we] assms(2) n obtain s1 where
    s1: "filestore_write we c (word_of_nat (length c)) s = Inr (0, s1)" "dev_store_inv s1" "fdt s1 = fdt s" by auto
  from filestore_read_refines [OF s1(2) assms(4) [OF s1(3)], of dest] obtain s2 where
    "filestore_read_to_dest re dest s1 = Some (Inr (0, s2))" by blast
  with s1 assms(2) assms(4) [OF s1(3)] show ?thesis by simp
qed

lemma file_serve_all:
  assumes "file_store_inv s" and "\<forall>c \<in> set cs. length c \<le> 65536"
  shows "serve_ok (\<lambda>i. file_filestore_write good_ffwrite) (\<lambda>i. file_filestore_read_to_dest good_ffread dest)
    (\<lambda>i. ffwrite_ok good_ffwrite) (\<lambda>i. ffread_ok good_ffread) i cs s"
  using assms
proof (induction cs arbitrary: s i)
  case Nil
  then show ?case by simp
next
  case (Cons c cs)
  then have len: "length c \<le> 65536" by simp
  then have n: "unat (word_of_nat (length c) :: size_t) = length c" by (intro unat_of_nat_size_t) simp
  from file_filestore_write_refines [OF Cons.prems(1), of "word_of_nat (length c)" c good_ffwrite] n good_file_envs(1) [OF len]
  obtain s1 where s1: "file_filestore_write good_ffwrite c (word_of_nat (length c)) s = Inr (0, s1)" "file_store_inv s1"
    by auto
  from file_filestore_read_refines [OF s1(2) good_file_envs(2)] obtain s2 where
    s2: "file_filestore_read_to_dest good_ffread dest s1 = Some (Inr (0, s2))" "file_store_inv s2" by blast
  from Cons.IH [OF s2(2)] Cons.prems(2) s1 s2 good_file_envs len show ?case by simp
qed

section \<open>Properties of the filestore\<close>

text \<open>
  With the mutex free and a device in a consistent state, a \<open>filestore_write\<close> for which
  every call succeeds returns 0 and changes the device exactly as its specification says for the
  first \<open>len\<close> bytes; the \<open>filestore_read_to_dest\<close> that follows ends, returns 0, leaves
  the device alone and sends precisely the stored complete lines, oldest first, whatever their
  number and length. Afterwards the mutex is free again and no descriptor is left open.
\<close>

lemma filestore_write_then_read:
  assumes "dev_store_inv w" and "unat len \<le> length data" and "fwrite_ok we (take (unat len) data) w"
    and "\<forall>w'. fdt w' = fdt w \<longrightarrow> fread_ok re w'"
  shows "\<exists>w1 w2. filestore_write we data len w = Inr (0, w1) \<and>
    dev_view (kern w1) = write_spec (dev_view (kern w)) (take (unat len) data) \<and> sent w1 = sent w \<and>
    filestore_read_to_dest re dest w1 = Some (Inr (0, w2)) \<and> kern w2 = kern w1 \<and>
    sent w2 = (sent w)(dest := sent w dest @ concat (dev_lines (kern w1))) \<and>
    dev_store_inv w2 \<and> fdt w2 = fdt w"
proof -
  from filestore_write_refines [OF assms(1-3)] obtain w1 where
    w1: "filestore_write we data len w = Inr (0, w1)" "dev_store_inv w1" "sent w1 = sent w" "fdt w1 = fdt w"
      "dev_view (kern w1) = write_spec (dev_view (kern w)) (take (unat len) data)" by blast
  from filestore_read_refines [OF w1(2), of re dest] assms(4) w1(4) obtain w2 where
    "filestore_read_to_dest re dest w1 = Some (Inr (0, w2))" "dev_store_inv w2" "fdt w2 = fdt w1" "kern w2 = kern w1"
    "sent w2 = (sent w1)(dest := sent w1 dest @ concat (dev_lines (kern w1)))" by blast
  with w1 show ?thesis by auto
qed

text \<open>
  When the device cannot be opened or its \<open>write\<close> fails, \<open>filestore_write\<close> returns minus
  one with the mutex still locked (and the descriptor, if there is one, still open); from then on
  every filestore operation of every thread waits forever.
\<close>

lemma failed_write_keeps_mutex:
  assumes "dev_store_inv w" and "fw_lock_rc env = 0"
    and "case fw_open env of None \<Rightarrow> True | Some fd \<Rightarrow>
      write_lawful (fw_write env) (take (unat len) data) len (kern w) \<and>
      \<not> write_succeeds ((fw_write env)\<lparr>w_lock_rc := 0\<rparr>) (take (unat len) data) len (kern w)"
  shows "\<exists>w'. filestore_write env data len w = Inr (- 1, w') \<and> file_mutex w' \<and>
    (\<forall>fd. fw_open env = Some fd \<longrightarrow> fdt w' fd \<noteq> None) \<and>
    (\<forall>we bs n. fw_lock_rc we = 0 \<longrightarrow> filestore_write we bs n w' = Inl Blocked) \<and>
    (\<forall>re dest. fr_lock_rc re = 0 \<longrightarrow> filestore_read_to_dest re dest w' = Some (Inl Blocked))"
  using filestore_write_stuck [OF assms] locked_store_blocks by blast

text \<open>
  C34: a \<open>read\<close> of the device that fails, at whatever turn of the sending loop, overruns the
  buffer. When the reads before it succeeded, none of the sends failed and there is something left to
  read, a copy to user space that fails makes the driver return \<open>-EFAULT\<close> and \<open>read\<close> minus one;
  the unsigned \<open>bytes_read\<close> becomes 2 to the 64 minus 1, which passes the loop test, and \<open>send\<close>
  is called for that many bytes of the 1024 byte buffer: an access outside the buffer. Only when the
  device could not be opened does the failing read end the loop, and then the operation returns minus
  one with the mutex free. Interrupted reads are restarted and do not count as failing.
\<close>

theorem failed_read_overruns_buffer:
  assumes "dev_store_inv w" and "fr_lock_rc env = 0" and "length (fr_buffer env) = 1024"
  shows "(\<forall>fd n. fr_open env = Some fd \<longrightarrow>
      (\<forall>i < n. r_uncopied (fr_reads env i) = 0 \<and> fr_sends env i \<noteq> None) \<longrightarrow> r_uncopied (fr_reads env n) \<noteq> 0 \<longrightarrow>
      pos_after (dev_lines (kern w)) 0 n < length (concat (dev_lines (kern w))) \<longrightarrow>
      filestore_read_to_dest env dest w = Some (Inl Undefined) \<and>
      (\<exists>w1 w2 f buf out. kern w1 = kern w \<and> fdt w1 fd = Some f \<and> unat (f_pos f) = pos_after (dev_lines (kern w)) 0 n \<and>
        sys_read (fr_reads env n) (Some fd) 1024 w1 = Inr (- 1, out, w2) \<and> length (out @ drop (length out) buf) = 1024 \<and>
        unat (word_of_int (- 1) :: size_t) = 2 ^ 64 - 1 \<and>
        sys_send (fr_sends env n) dest (out @ drop (length out) buf) (word_of_int (- 1)) w2 = Inl Undefined)) \<and>
    (fr_open env = None \<longrightarrow> fr_unlock_rc env = 0 \<longrightarrow>
      filestore_read_to_dest env dest w = Some (Inr (- 1, w)))"
proof (intro conjI allI impI)
  fix fd n
  assume fd: "fr_open env = Some fd" and before: "\<forall>i < n. r_uncopied (fr_reads env i) = 0 \<and> fr_sends env i \<noteq> None"
    and fail: "r_uncopied (fr_reads env n) \<noteq> 0"
    and more: "pos_after (dev_lines (kern w)) 0 n < length (concat (dev_lines (kern w)))"
  define f where "f = \<lparr>private_data = AesdDevice, f_pos = 0\<rparr>"
  define w3 where "w3 = w\<lparr>file_mutex := True, fdt := (fdt w)(fd \<mapsto> f)\<rparr>"
  have seek: "sys_lseek (if fr_lseek_ok env then Some 0 else None) (Some fd)
      (sys_open (Some fd) (w\<lparr>file_mutex := True\<rparr>)) = w3"
    by (simp add: sys_lseek_def w3_def f_def)
  let ?loop = "send_loop (\<lambda>i. sys_read (fr_reads env i) (Some fd) 1024) (fr_sends env)"
  have w3: "dev_inv (kern w3)" "fdt w3 fd = Some f" "private_data f = AesdDevice" "kern w3 = kern w" "unat (f_pos f) = 0"
    using assms(1) by (simp_all add: w3_def f_def dev_store_inv_def)
  from send_loop_reaches_failure [OF w3(1-3) assms(3), of n "fr_reads env" 0 "fr_sends env" dest] before fail more w3(4,5)
  obtain w1 w2 buf out f1 where
    at: "?loop 0 dest (fr_buffer env) 0 w3 = ?loop n dest buf 0 w1" "sys_read (fr_reads env n) (Some fd) 1024 w1 = Inr (- 1, out, w2)"
      "length buf = 1024" "length out \<le> 1024" "kern w1 = kern w" "fdt w1 fd = Some f1"
      "unat (f_pos f1) = pos_after (dev_lines (kern w)) 0 n" by auto
  have len: "length (out @ drop (length out) buf) = 1024" using at(3,4) by simp
  then have small: "length (out @ drop (length out) buf) < 2 ^ 64 - 1" by simp
  have "?loop 0 dest (fr_buffer env) 0 w3 = Some (Inl Undefined)"
    unfolding at(1) by (rule send_loop_read_error [where out = out and ?w1.0 = w2]) (use at(2) small in simp_all)
  then show "filestore_read_to_dest env dest w = Some (Inl Undefined)"
    using assms(1,2) fd seek
    by (simp add: filestore_read_to_dest_def pthread_mutex_lock_def dev_store_inv_def Let_def)
  show "\<exists>w1 w2 f buf out. kern w1 = kern w \<and> fdt w1 fd = Some f \<and> unat (f_pos f) = pos_after (dev_lines (kern w)) 0 n \<and>
        sys_read (fr_reads env n) (Some fd) 1024 w1 = Inr (- 1, out, w2) \<and> length (out @ drop (length out) buf) = 1024 \<and>
        unat (word_of_int (- 1) :: size_t) = 2 ^ 64 - 1 \<and>
        sys_send (fr_sends env n) dest (out @ drop (length out) buf) (word_of_int (- 1)) w2 = Inl Undefined"
    using at(2,5-7) len send_of_all_ones [OF small] by blast
next
  assume fd: "fr_open env = None" and rc: "fr_unlock_rc env = 0"
  have "send_loop (\<lambda>i. sys_read (fr_reads env i) None 1024) (fr_sends env) 0 dest (fr_buffer env) (- 1)
      (w\<lparr>file_mutex := True\<rparr>) = Some (Inr (- 1, - 1, w\<lparr>file_mutex := True\<rparr>))"
    by (subst send_loop.simps) (simp add: sys_read_def)
  moreover have "w\<lparr>file_mutex := False\<rparr> = w" using assms(1) by (cases w) (simp add: dev_store_inv_def)
  ultimately show "filestore_read_to_dest env dest w = Some (Inr (- 1, w))"
    using assms(1,2) fd rc
    by (simp add: filestore_read_to_dest_def pthread_mutex_lock_def pthread_mutex_unlock_def dev_store_inv_def
        sys_open_def sys_lseek_def sys_close_def Let_def)
qed

text \<open>The device holds ten one-byte lines, and the second read fails.\<close>

definition second_fails :: fread_env where
  "second_fails = good_fread\<lparr>fr_reads := (\<lambda>_. \<lparr>r_lock_rc = 0, r_uncopied = 0\<rparr>)(1 := \<lparr>r_lock_rc = 0, r_uncopied = 1\<rparr>)\<rparr>"

theorem failed_read_overruns_buffer_witness:
  "filestore_read_to_dest second_fails 5 (start_world\<lparr>kern := full_kernel\<rparr>) = Some (Inl Undefined)"
proof -
  have env: "fr_open second_fails = Some 7" "fr_lock_rc second_fails = 0" "length (fr_buffer second_fails) = 1024"
    "\<forall>i < 1. r_uncopied (fr_reads second_fails i) = 0 \<and> fr_sends second_fails i \<noteq> None" "r_uncopied (fr_reads second_fails 1) \<noteq> 0"
    by (simp_all add: second_fails_def good_fread_def)
  let ?w = "start_world\<lparr>kern := full_kernel\<rparr>"
  have w: "dev_store_inv ?w" using full_kernel_inv by (simp add: dev_store_inv_def start_world_def)
  have "dev_lines full_kernel = replicate 10 [newline]"
    by (simp add: dev_lines_def full_kernel_def cb_list_def block_def upt_rec eval_nat_numeral)
  then have "pos_after (dev_lines (kern ?w)) 0 1 < length (concat (dev_lines (kern ?w)))"
    by (simp add: read_length_def eval_nat_numeral)
  with failed_read_overruns_buffer [OF w env(2,3), of 5] env(1,4,5) show ?thesis by blast
qed

section \<open>Properties of the connection thread\<close>

text \<open>
  C1: a client that sends lines and closes is served completely: the handler ends, marks its
  thread data complete and closes the connection; the device holds the last ten complete lines of
  everything written to it, in order, and the unfinished rest; and the client has received, after
  each of its lines, all complete lines stored at that moment. A line longer than 65535 bytes counts
  with its first 65535 bytes, which then stay unfinished.
\<close>

theorem connection_served_on_device:
  assumes "dev_store_inv w" and "line_input fd lines" and "length buf = 65536" and "\<forall>j. \<not> should_terminate j"
    and "serve_ok (\<lambda>i. filestore_write (we i)) (\<lambda>i. filestore_read_to_dest (re i) (connection_fd td))
      (\<lambda>i. fwrite_ok (we i)) (\<lambda>i. fread_ok (re i)) 0 (chunks_of lines) w"
    and "dev_view (kern w) = (last_n 10 (fst (split_lines s)), snd (split_lines s))"
  shows "\<exists>w'. handle_connection (\<lambda>i. filestore_write (we i)) (\<lambda>i. filestore_read_to_dest (re i)) should_terminate
      fd buf errno td socks w = Some (Inr (td\<lparr>thread_complete := True\<rparr>, socks - {connection_fd td}, w')) \<and>
    dev_store_inv w' \<and>
    (let s' = s @ concat (chunks_of lines) in dev_view (kern w') = (last_n 10 (fst (split_lines s')), snd (split_lines s'))) \<and>
    sent w' = (sent w)(connection_fd td := sent w (connection_fd td) @
      echoes (\<lambda>v. concat (fst v)) write_spec (dev_view (kern w)) (chunks_of lines))"
  using dev_store.handler_serves [OF assms(1-5), of errno socks]
    foldl_write_spec_stream [OF line_input_chunks [OF assms(2)], of s] assms(6)
  by (auto simp: Let_def)

theorem connection_served_on_device_witness:
  "\<exists>w'. handle_connection (\<lambda>i. filestore_write hi_fwrite) (\<lambda>i. filestore_read_to_dest good_fread) (\<lambda>_. False)
      hi_input (replicate 65536 nul) 0 conn5 {3, 5} start_world =
        Some (Inr (conn5\<lparr>thread_complete := True\<rparr>, {3}, w')) \<and>
    dev_lines (kern w') = [''hi'' @ [newline]] \<and> sent w' 5 = ''hi'' @ [newline]"
proof -
  have c: "chunks_of [''hi'' @ [newline]] = [''hi'' @ [newline]]" "connection_fd conn5 = 5" by (simp_all add: conn5_def)
  have "serve_ok (\<lambda>i. filestore_write hi_fwrite) (\<lambda>i. filestore_read_to_dest good_fread (connection_fd conn5))
      (\<lambda>i. fwrite_ok hi_fwrite) (\<lambda>i. fread_ok good_fread) 0 (chunks_of [''hi'' @ [newline]]) start_world"
    unfolding c by (rule dev_serve_one [OF start_world_inv hi_fwrite_ok]) (simp_all add: good_fread_ok)
  from connection_served_on_device [OF start_world_inv hi_line_input _ _ this, of "replicate 65536 nul" "\<lambda>_. False" "[]" 0 "{3, 5}"]
  show ?thesis using loaded_kernel_view by (auto simp: c Let_def write_spec_def upto_newline_def)
qed

text \<open>
  In the file configuration the same client leaves its lines appended to the file, and has
  received the whole file after each of them.
\<close>

lemma connection_served_on_file:
  assumes "file_store_inv w" and "line_input fd lines" and "length buf = 65536" and "\<forall>j. \<not> should_terminate j"
    and "serve_ok (\<lambda>i. file_filestore_write (we i)) (\<lambda>i. file_filestore_read_to_dest (re i) (connection_fd td))
      (\<lambda>i. ffwrite_ok (we i)) (\<lambda>i. ffread_ok (re i)) 0 (chunks_of lines) w"
  shows "\<exists>w'. handle_connection (\<lambda>i. file_filestore_write (we i)) (\<lambda>i. file_filestore_read_to_dest (re i)) should_terminate
      fd buf errno td socks w = Some (Inr (td\<lparr>thread_complete := True\<rparr>, socks - {connection_fd td}, w')) \<and>
    file_store_inv w' \<and> fdata w' = fdata w @ concat (chunks_of lines) \<and>
    sent w' = (sent w)(connection_fd td := sent w (connection_fd td) @ echoes (\<lambda>v. v) (@) (fdata w) (chunks_of lines))"
  using file_store.handler_serves [OF assms, of errno socks] by (auto simp: foldl_append)

lemma hi_served_on_file:
  "\<exists>w'. handle_connection (\<lambda>i. file_filestore_write good_ffwrite) (\<lambda>i. file_filestore_read_to_dest good_ffread) (\<lambda>_. False)
      hi_input (replicate 65536 nul) 0 conn5 {3, 5} start_file_world =
        Some (Inr (conn5\<lparr>thread_complete := True\<rparr>, {3}, w')) \<and>
    fdata w' = ''hi'' @ [newline] \<and> sent w' 5 = ''hi'' @ [newline]"
proof -
  have c: "connection_fd conn5 = 5" by (simp add: conn5_def)
  have "serve_ok (\<lambda>i. file_filestore_write good_ffwrite) (\<lambda>i. file_filestore_read_to_dest good_ffread (connection_fd conn5))
      (\<lambda>i. ffwrite_ok good_ffwrite) (\<lambda>i. ffread_ok good_ffread) 0 (chunks_of [''hi'' @ [newline]]) start_file_world"
    by (rule file_serve_all [OF start_file_world_inv]) simp
  from connection_served_on_file [OF start_file_world_inv hi_line_input _ _ this, of "replicate 65536 nul" "\<lambda>_. False" 0 "{3, 5}"]
  show ?thesis by (auto simp: c)
qed

text \<open>
  When the store cannot take the first line of a connection (the device does not open or its
  write fails), the handler never ends: it waits for the mutex it holds itself.
\<close>

lemma failed_write_deadlocks_handler:
  assumes "dev_store_inv w" and "line_input fd (l # lines)" and "length buf = 65536" and "\<not> should_terminate 0"
    and "fw_lock_rc (we 0) = 0" and "fr_lock_rc (re 0) = 0"
    and "fw_open (we 0) = None \<or>
      (let bs = take max_line l; n = word_of_nat (length bs) in
        write_lawful (fw_write (we 0)) bs n (kern w) \<and> \<not> write_succeeds ((fw_write (we 0))\<lparr>w_lock_rc := 0\<rparr>) bs n (kern w))"
  shows "handle_connection (\<lambda>i. filestore_write (we i)) (\<lambda>i. filestore_read_to_dest (re i)) should_terminate
      fd buf errno td socks w = Some (Inl Blocked)"
proof -
  let ?c = "take max_line l" let ?n = "word_of_nat (length ?c) :: size_t"
  from read_line_input_Cons [OF assms(2,3), of errno] obtain e buf' fd' where
    rl: "read_line fd (Some buf) CONNECTION_BUFFER_SIZE errno = Inr (int (length ?c), e, buf', fd')"
      "0 < length ?c" "take (length ?c) buf' = ?c" by blast
  have "unat ?n = length ?c" by (intro unat_of_nat_size_t) simp
  then have bs: "take (unat ?n) buf' = ?c" using rl(3) by simp
  have "case fw_open (we 0) of None \<Rightarrow> True | Some fd \<Rightarrow>
      write_lawful (fw_write (we 0)) (take (unat ?n) buf') ?n (kern w) \<and>
      \<not> write_succeeds ((fw_write (we 0))\<lparr>w_lock_rc := 0\<rparr>) (take (unat ?n) buf') ?n (kern w)"
    unfolding bs using assms(7) by (auto simp: Let_def split: option.splits)
  from filestore_write_stuck [OF assms(1,5) this] obtain w' where
    "filestore_write (we 0) buf' ?n w = Inr (- 1, w')" "file_mutex w'" by blast
  with locked_store_blocks(2) [of w' "re 0" "connection_fd td"] assms(4,6) rl(1,2) show ?thesis
    unfolding handle_connection_def by (subst conn_loop.simps) simp
qed

text \<open>
  The timer thread of the file configuration appends exactly its timestamps, in order; but
  after one write that fails it keeps the mutex, and its next tick waits forever, as does every
  connection.
\<close>

lemma timer_appends_timestamps:
  assumes "file_store_inv w"
    and "\<forall>(env, ts) \<in> set ticks. nul \<in> set ts \<and> length ts \<le> 100 \<and> (\<forall>w. ffwrite_ok env (c_string ts) w)"
  shows "(\<exists>w'. timer_thread ticks w = Inr w' \<and> file_store_inv w' \<and> fdata w' = fdata w @ stamps ticks) \<and>
    (\<forall>env env' ts ts' rest. ffw_lock_rc env = 0 \<longrightarrow> ffw_write env = None \<longrightarrow> ffw_lock_rc env' = 0 \<longrightarrow> nul \<in> set ts \<longrightarrow> nul \<in> set ts' \<longrightarrow>
      timer_thread ((env, ts) # (env', ts') # rest) w = Inl Blocked)"
  using timer_appends [OF assms] file_write_fails_locked [OF assms(1)] by (auto simp: locked_file_store_blocks Let_def)

end
