(* ===== verification/Threads.thy ===== *)
theory Threads
  imports Connection_Properties "HOL-Library.Sublist"
begin

text \<open>
  Several connection threads at once. Each thread runs the loop of \<open>handle_connection\<close> on the
  shared process state; the system calls of \<open>filestore_write\<close> and \<open>filestore_read_to_dest\<close> are
  separate steps, so that threads interleave between any two of them, also inside the sending loop.
  A client may go away: a \<open>send\<close> to it then fails, the loop reads once more and stops, and the
  thread ends after one more line, which it drops. The same happens when the device cannot be opened
  for reading: the read of the descriptor minus one fails, the loop stops at once and the mutex is
  released. A read that fails in the loop while the client is there is undefined behaviour and no
  step; after a failed \<open>send\<close> it only ends the loop. A \<open>send\<close> may also take fewer bytes than it is
  given, and the rest of the buffer is then lost; and reading a line may fail, which ends the thread.
  The signal handler may set \<open>should_terminate\<close> at any time. A failing device write is a relation
  of its own, at the end. A thread is named by its connection socket. History variables record what
  was written, what each client is due, which lines were dropped, to whom a \<open>send\<close> was short and
  from whom a receive failed: they never influence a step.
\<close>

section \<open>Configurations and steps\<close>

datatype pc =
    ReadLine
  | WantWrite bytes
  | HoldWrite bytes
  | EndWrite nat
  | WantRead
  | OpenRead
  | HoldRead nat
  | Drain nat
  | EndRead "nat option"
  | Finished

record conf =
  cworld :: world
  pcs :: "nat \<Rightarrow> pc"
  inputs :: "nat \<Rightarrow> bytes list"
  hist :: "(nat \<times> bytes) list"
  due :: "nat \<Rightarrow> bytes"
  op_failed :: "nat \<Rightarrow> bool"
  dropped :: "nat \<Rightarrow> bytes list"
  lost :: "nat \<Rightarrow> bool"
  reset :: "nat \<Rightarrow> bool"
  terminating :: bool

definition dev_file :: struct_file where
  "dev_file = \<lparr>private_data = AesdDevice, f_pos = 0\<rparr>"

inductive thread_step :: "conf \<Rightarrow> conf \<Rightarrow> bool" where
  recv: "pcs c t = ReadLine \<Longrightarrow> inputs c t = bs # ls \<Longrightarrow> \<not> terminating c \<Longrightarrow> \<not> op_failed c t \<Longrightarrow>
    thread_step c (c\<lparr>pcs := (pcs c)(t := WantWrite bs), inputs := (inputs c)(t := ls)\<rparr>)"
| drop_line: "pcs c t = ReadLine \<Longrightarrow> inputs c t = bs # ls \<Longrightarrow> terminating c \<or> op_failed c t \<Longrightarrow>
    thread_step c (c\<lparr>pcs := (pcs c)(t := Finished), inputs := (inputs c)(t := ls), dropped := (dropped c)(t := [bs])\<rparr>)"
| recv_error: "pcs c t = ReadLine \<Longrightarrow>
    thread_step c (c\<lparr>pcs := (pcs c)(t := Finished), reset := (reset c)(t := True)\<rparr>)"
| eof: "pcs c t = ReadLine \<Longrightarrow> inputs c t = [] \<Longrightarrow> thread_step c (c\<lparr>pcs := (pcs c)(t := Finished)\<rparr>)"
| lock_write: "pcs c t = WantWrite bs \<Longrightarrow> pthread_mutex_lock 0 (cworld c) = Inr (0, w) \<Longrightarrow>
    thread_step c (c\<lparr>pcs := (pcs c)(t := HoldWrite bs), cworld := w\<rparr>)"
| do_write: "pcs c t = HoldWrite bs \<Longrightarrow> fdt (cworld c) fd = None \<Longrightarrow>
    write_lawful env bs (word_of_nat (length bs)) (kern (cworld c)) \<Longrightarrow>
    write_succeeds env bs (word_of_nat (length bs)) (kern (cworld c)) \<Longrightarrow>
    sys_write env (Some fd) bs (word_of_nat (length bs)) (sys_lseek pos (Some fd) (sys_open (Some fd) (cworld c))) = Inr (r, w) \<Longrightarrow>
    thread_step c (c\<lparr>pcs := (pcs c)(t := EndWrite fd), cworld := w, hist := hist c @ [(t, bs)]\<rparr>)"
| unlock_write: "pcs c t = EndWrite fd \<Longrightarrow>
    thread_step c (c\<lparr>pcs := (pcs c)(t := WantRead),
      cworld := sys_close (Some fd) (snd (pthread_mutex_unlock 0 (cworld c)))\<rparr>)"
| lock_read: "pcs c t = WantRead \<Longrightarrow> pthread_mutex_lock 0 (cworld c) = Inr (0, w) \<Longrightarrow>
    thread_step c (c\<lparr>pcs := (pcs c)(t := OpenRead), cworld := w,
      due := (due c)(t := due c t @ concat (dev_lines (kern w)))\<rparr>)"
| open_read: "pcs c t = OpenRead \<Longrightarrow> fdt (cworld c) fd = None \<Longrightarrow> pos = None \<or> pos = Some 0 \<Longrightarrow>
    thread_step c (c\<lparr>pcs := (pcs c)(t := HoldRead fd), cworld := sys_lseek pos (Some fd) (sys_open (Some fd) (cworld c))\<rparr>)"
| open_fails: "pcs c t = OpenRead \<Longrightarrow>
    sys_read env None 1024 (sys_lseek pos None (sys_open None (cworld c))) = Inr (- 1, out, w) \<Longrightarrow>
    thread_step c (c\<lparr>pcs := (pcs c)(t := EndRead None), cworld := w, op_failed := (op_failed c)(t := True)\<rparr>)"
| send: "pcs c t = HoldRead fd \<Longrightarrow> r_lock_rc env = 0 \<Longrightarrow> r_uncopied env = 0 \<Longrightarrow>
    sys_read env (Some fd) 1024 (cworld c) = Inr (n, out, w) \<Longrightarrow> 0 < n \<Longrightarrow>
    sys_send (Some 1024) t (out @ drop (length out) buf) (word_of_int n) w = Inr (m, w') \<Longrightarrow>
    thread_step c (c\<lparr>cworld := w'\<rparr>)"
| send_short: "pcs c t = HoldRead fd \<Longrightarrow> r_lock_rc env = 0 \<Longrightarrow> r_uncopied env = 0 \<Longrightarrow>
    sys_read env (Some fd) 1024 (cworld c) = Inr (n, out, w) \<Longrightarrow> 0 < n \<Longrightarrow> k < nat n \<Longrightarrow>
    sys_send (Some k) t (out @ drop (length out) buf) (word_of_int n) w = Inr (m, w') \<Longrightarrow>
    thread_step c (c\<lparr>cworld := w', lost := (lost c)(t := True)\<rparr>)"
| send_fails: "pcs c t = HoldRead fd \<Longrightarrow> r_lock_rc env = 0 \<Longrightarrow> r_uncopied env = 0 \<Longrightarrow>
    sys_read env (Some fd) 1024 (cworld c) = Inr (n, out, w) \<Longrightarrow> 0 < n \<Longrightarrow>
    sys_send None t (out @ drop (length out) buf) (word_of_int n) w = Inr (- 1, w') \<Longrightarrow>
    thread_step c (c\<lparr>pcs := (pcs c)(t := Drain fd), cworld := w', op_failed := (op_failed c)(t := True)\<rparr>)"
| drain: "pcs c t = Drain fd \<Longrightarrow> r_lock_rc env = 0 \<Longrightarrow> r_uncopied env = 0 \<Longrightarrow>
    sys_read env (Some fd) 1024 (cworld c) = Inr (n, out, w) \<Longrightarrow>
    thread_step c (c\<lparr>pcs := (pcs c)(t := EndRead (Some fd)), cworld := w\<rparr>)"
| drain_fails: "pcs c t = Drain fd \<Longrightarrow> sys_read env (Some fd) 1024 (cworld c) = Inr (- 1, out, w) \<Longrightarrow>
    thread_step c (c\<lparr>pcs := (pcs c)(t := EndRead (Some fd)), cworld := w\<rparr>)"
| sent_all: "pcs c t = HoldRead fd \<Longrightarrow> r_lock_rc env = 0 \<Longrightarrow> r_uncopied env = 0 \<Longrightarrow>
    sys_read env (Some fd) 1024 (cworld c) = Inr (0, out, w) \<Longrightarrow>
    thread_step c (c\<lparr>pcs := (pcs c)(t := EndRead (Some fd)), cworld := w\<rparr>)"
| unlock_read: "pcs c t = EndRead fd \<Longrightarrow>
    thread_step c (c\<lparr>pcs := (pcs c)(t := ReadLine),
      cworld := sys_close fd (snd (pthread_mutex_unlock 0 (cworld c)))\<rparr>)"

inductive_cases thread_stepE: "thread_step c c'"

text \<open>The threads of the connections \<open>T\<close> start waiting for their input; there are no others.\<close>

definition start_conf :: "nat set \<Rightarrow> world \<Rightarrow> (nat \<Rightarrow> bytes list) \<Rightarrow> conf" where
  "start_conf T w ins = \<lparr>cworld = w, pcs = (\<lambda>t. if t \<in> T then ReadLine else Finished), inputs = ins,
     hist = [], due = sent w, op_failed = (\<lambda>_. False), dropped = (\<lambda>_. []), lost = (\<lambda>_. False), reset = (\<lambda>_. False),
     terminating = False\<rparr>"

text \<open>A step of the process: one of a thread, or the signal handler sets \<open>should_terminate\<close>.\<close>

inductive conf_step :: "conf \<Rightarrow> conf \<Rightarrow> bool" where
  thread: "thread_step c c' \<Longrightarrow> conf_step c c'"
| signal: "\<not> terminating c \<Longrightarrow> conf_step c (c\<lparr>terminating := True\<rparr>)"

inductive_cases conf_stepE: "conf_step c c'"

abbreviation reachable :: "nat set \<Rightarrow> world \<Rightarrow> (nat \<Rightarrow> bytes list) \<Rightarrow> conf \<Rightarrow> bool" where
  "reachable T w ins \<equiv> conf_step\<^sup>*\<^sup>* (start_conf T w ins)"

section \<open>The invariant\<close>

fun holding :: "pc \<Rightarrow> bool" where
  "holding (HoldWrite _) = True"
| "holding (EndWrite _) = True"
| "holding OpenRead = True"
| "holding (HoldRead _) = True"
| "holding (Drain _) = True"
| "holding (EndRead _) = True"
| "holding _ = False"

text \<open>The line a thread has received and not yet written.\<close>

fun in_hand :: "pc \<Rightarrow> bytes list" where
  "in_hand (WantWrite bs) = [bs]"
| "in_hand (HoldWrite bs) = [bs]"
| "in_hand _ = []"

text \<open>Where a thread is once its client is gone.\<close>

fun winding_up :: "pc \<Rightarrow> bool" where
  "winding_up (Drain _) = True"
| "winding_up (EndRead _) = True"
| "winding_up ReadLine = True"
| "winding_up Finished = True"
| "winding_up _ = False"

text \<open>What the sending loop of a thread still has to send.\<close>

definition unsent :: "world \<Rightarrow> pc \<Rightarrow> bytes" where
  "unsent w p = (case p of OpenRead \<Rightarrow> concat (dev_lines (kern w)) | HoldRead fd \<Rightarrow> dev_src_rest fd w | _ \<Rightarrow> [])"

definition lines_of :: "nat \<Rightarrow> (nat \<times> bytes) list \<Rightarrow> bytes list" where
  "lines_of t h = map snd (filter (\<lambda>(u, _). u = t) h)"

text \<open>
  What a client has received of what it is due: all of it, or, once a \<open>send\<close> was short, all but
  the bytes that were lost then.
\<close>

definition received :: "bool \<Rightarrow> bytes \<Rightarrow> bytes \<Rightarrow> bool" where
  "received short a d \<longleftrightarrow> (if short then subseq a d else a = d)"

text \<open>
  What a client has received: everything it is due but for what its thread still has to send, or,
  once a \<open>send\<close> has failed, the beginning of it.
\<close>

definition echo_ok :: "bool \<Rightarrow> bool \<Rightarrow> world \<Rightarrow> pc \<Rightarrow> nat \<Rightarrow> bytes \<Rightarrow> bool" where
  "echo_ok failed short w p t d \<longleftrightarrow>
     (if failed then winding_up p \<and> (\<exists>d'. prefix d' d \<and> received short (sent w t) d')
      else received short (sent w t @ unsent w p) d)"

text \<open>The device file a thread reads from is open.\<close>

definition reading_open :: "world \<Rightarrow> pc \<Rightarrow> bool" where
  "reading_open w p \<longleftrightarrow>
     (case p of
        HoldRead fd \<Rightarrow> \<exists>f. fdt w fd = Some f \<and> private_data f = AesdDevice
      | Drain fd \<Rightarrow> \<exists>f. fdt w fd = Some f \<and> private_data f = AesdDevice
      | _ \<Rightarrow> True)"

definition conf_inv :: "bytes list \<times> bytes \<Rightarrow> (nat \<Rightarrow> bytes list) \<Rightarrow> conf \<Rightarrow> bool" where
  "conf_inv v0 ins c \<longleftrightarrow>
     dev_inv (kern (cworld c)) \<and> dev_view (kern (cworld c)) = foldl write_spec v0 (map snd (hist c)) \<and>
     file_mutex (cworld c) = (\<exists>t. holding (pcs c t)) \<and>
     (\<forall>t u. holding (pcs c t) \<longrightarrow> holding (pcs c u) \<longrightarrow> t = u) \<and>
     (\<forall>t. lines_of t (hist c) @ in_hand (pcs c t) @ dropped c t @ inputs c t = ins t) \<and>
     (\<forall>t. dropped c t \<noteq> [] \<longrightarrow> pcs c t = Finished \<and> (terminating c \<or> op_failed c t)) \<and>
     (\<forall>t. echo_ok (op_failed c t) (lost c t) (cworld c) (pcs c t) t (due c t)) \<and>
     (\<forall>t. reading_open (cworld c) (pcs c t))"

lemma conf_inv_reset: "conf_inv v0 ins (c\<lparr>reset := r\<rparr>) = conf_inv v0 ins c"
  by (simp add: conf_inv_def)

lemma unsent_idle [simp]: "\<not> holding p \<Longrightarrow> unsent w p = []"
  by (cases p) (simp_all add: unsent_def)

lemma lines_of_simps [simp]:
  "lines_of t [] = []" "lines_of t (h @ [(u, bs)]) = lines_of t h @ (if u = t then [bs] else [])"
  by (simp_all add: lines_of_def)

lemma holder_alone: "conf_inv v0 ins c \<Longrightarrow> holding (pcs c t) \<Longrightarrow> u \<noteq> t \<Longrightarrow> \<not> holding (pcs c u)"
  by (auto simp: conf_inv_def)

lemma mutex_free_alone: "conf_inv v0 ins c \<Longrightarrow> \<not> file_mutex (cworld c) \<Longrightarrow> \<not> holding (pcs c u)"
  by (auto simp: conf_inv_def)

lemma echo_idle: "\<not> holding p \<Longrightarrow> \<not> holding q \<Longrightarrow> (b \<longrightarrow> winding_up q) \<Longrightarrow> echo_ok b l w p t d \<Longrightarrow> echo_ok b l w q t d"
  by (auto simp: echo_ok_def)

lemma reading_idle [simp]: "\<not> holding p \<Longrightarrow> reading_open w p"
  by (cases p) (simp_all add: reading_open_def)

lemma reading_open_simps [simp]:
  "reading_open w (HoldRead fd) \<longleftrightarrow> (\<exists>f. fdt w fd = Some f \<and> private_data f = AesdDevice)"
  "reading_open w (Drain fd) \<longleftrightarrow> (\<exists>f. fdt w fd = Some f \<and> private_data f = AesdDevice)"
  "reading_open w (HoldWrite bs)" "reading_open w (EndWrite fd)" "reading_open w OpenRead" "reading_open w (EndRead fo)"
  by (simp_all add: reading_open_def)

lemma inv_facts:
  assumes "conf_inv v0 ins c"
  shows "dev_inv (kern (cworld c))" and "echo_ok (op_failed c t) (lost c t) (cworld c) (pcs c t) t (due c t)"
    and "holding (pcs c t) \<Longrightarrow> file_mutex (cworld c)" and "reading_open (cworld c) (pcs c t)"
    and "pcs c t \<noteq> Finished \<Longrightarrow> dropped c t = []"
    and "op_failed c t \<Longrightarrow> winding_up (pcs c t)"
  using assms by (auto simp: conf_inv_def echo_ok_def)

text \<open>A step of a thread that does not hold the mutex before or after it.\<close>

lemma conf_inv_outside:
  assumes inv: "conf_inv v0 ins c" and out: "\<not> holding (pcs c t)" "\<not> holding p"
    and same: "in_hand p @ d @ ls = in_hand (pcs c t) @ dropped c t @ inputs c t"
    and gone: "d \<noteq> [] \<longrightarrow> p = Finished \<and> (terminating c \<or> op_failed c t)" and wind: "op_failed c t \<longrightarrow> winding_up p"
  shows "conf_inv v0 ins (c\<lparr>pcs := (pcs c)(t := p), inputs := (inputs c)(t := ls), dropped := (dropped c)(t := d)\<rparr>)"
proof -
  define P where "P = (pcs c)(t := p)"
  define D where "D = (dropped c)(t := d)"
  have h: "holding (P u) = holding (pcs c u)" for u using out by (simp add: P_def)
  have e: "echo_ok (op_failed c u) (lost c u) (cworld c) (P u) u (due c u)" for u
    using inv_facts(2) [OF inv, of u] out wind by (cases "u = t") (auto simp: P_def intro: echo_idle)
  have r: "reading_open (cworld c) (P u)" for u
    using inv_facts(4) [OF inv, of u] out by (cases "u = t") (auto simp: P_def)
  have l: "lines_of u (hist c) @ in_hand (P u) @ D u @ ((inputs c)(t := ls)) u = ins u" for u
    using inv same by (cases "u = t") (simp_all add: conf_inv_def P_def D_def)
  have g: "D u \<noteq> [] \<Longrightarrow> P u = Finished \<and> (terminating c \<or> op_failed c u)" for u
    using inv gone by (cases "u = t") (auto simp: conf_inv_def P_def D_def)
  show ?thesis using inv l g e r unfolding P_def [symmetric] D_def [symmetric] conf_inv_def
    by (simp add: h del: fun_upd_apply)
qed

text \<open>A step of the thread that holds the mutex, takes it or gives it back.\<close>

lemma conf_inv_inside:
  assumes inv: "conf_inv v0 ins c" and alone: "\<And>u. u \<noteq> t \<Longrightarrow> \<not> holding (pcs c u)" and run: "pcs c t \<noteq> Finished"
    and dev: "dev_inv (kern w)" "dev_view (kern w) = foldl write_spec v0 (map snd h)"
    and mutex: "file_mutex w = holding p"
    and lines: "lines_of t h @ in_hand p = lines_of t (hist c) @ in_hand (pcs c t)" "\<And>u. u \<noteq> t \<Longrightarrow> lines_of u h = lines_of u (hist c)"
    and out: "echo_ok b l w p t d" "\<And>u. u \<noteq> t \<Longrightarrow> sent w u = sent (cworld c) u"
    and fd: "reading_open w p"
  shows "conf_inv v0 ins (c\<lparr>pcs := (pcs c)(t := p), cworld := w, hist := h, due := (due c)(t := d),
    op_failed := (op_failed c)(t := b), lost := (lost c)(t := l)\<rparr>)"
proof -
  let ?c = "c\<lparr>pcs := (pcs c)(t := p), cworld := w, hist := h, due := (due c)(t := d), op_failed := (op_failed c)(t := b),
    lost := (lost c)(t := l)\<rparr>"
  have m: "file_mutex w = (\<exists>u. holding (pcs ?c u))" and one: "\<forall>u v. holding (pcs ?c u) \<longrightarrow> holding (pcs ?c v) \<longrightarrow> u = v"
    using mutex alone by auto
  have li: "lines_of u h @ in_hand (pcs ?c u) @ dropped c u @ inputs c u = ins u" for u
  proof (cases "u = t")
    case True
    have "lines_of t h @ in_hand p @ dropped c t @ inputs c t = (lines_of t h @ in_hand p) @ dropped c t @ inputs c t" by simp
    also have "\<dots> = ins t" unfolding lines(1) using inv by (simp add: conf_inv_def)
    finally show ?thesis using True by simp
  next
    case False
    then show ?thesis using inv lines(2) by (simp add: conf_inv_def)
  qed
  have d: "pcs ?c u = Finished \<and> (terminating c \<or> op_failed ?c u)" if "dropped c u \<noteq> []" for u
    using that inv inv_facts(5) [OF inv run] by (cases "u = t") (auto simp: conf_inv_def)
  have s: "echo_ok (op_failed ?c u) (lost ?c u) w (pcs ?c u) u (due ?c u)" for u
  proof (cases "u = t")
    case False
    then have "echo_ok (op_failed c u) (lost c u) w (pcs c u) u (due c u)"
      using inv_facts(2) [OF inv, of u] alone out(2) by (auto simp: echo_ok_def split: if_splits)
    then show ?thesis using False by simp
  qed (use out(1) in simp)
  have f: "reading_open w (pcs ?c u)" for u
    using fd alone [of u] by (cases "u = t") auto
  have sel: "cworld ?c = w" "hist ?c = h" "inputs ?c = inputs c" "dropped ?c = dropped c" "terminating ?c = terminating c"
    by simp_all
  show ?thesis unfolding conf_inv_def sel
    by (intro conjI dev m) (use one li s f d in blast)+
qed

lemma conf_inv_quiet:
  assumes inv: "conf_inv v0 ins c" and alone: "\<And>u. u \<noteq> t \<Longrightarrow> \<not> holding (pcs c u)" and run: "pcs c t \<noteq> Finished"
    and kern: "kern w = kern (cworld c)" and mutex: "file_mutex w = holding p" and hand: "in_hand p = in_hand (pcs c t)"
    and out: "echo_ok b l w p t (due c t)" "\<And>u. u \<noteq> t \<Longrightarrow> sent w u = sent (cworld c) u"
    and fd: "reading_open w p"
  shows "conf_inv v0 ins (c\<lparr>pcs := (pcs c)(t := p), cworld := w, op_failed := (op_failed c)(t := b), lost := (lost c)(t := l)\<rparr>)"
proof -
  have "conf_inv v0 ins (c\<lparr>pcs := (pcs c)(t := p), cworld := w, hist := hist c, due := (due c)(t := due c t),
      op_failed := (op_failed c)(t := b), lost := (lost c)(t := l)\<rparr>)"
    by (rule conf_inv_inside [OF inv alone run])
      (use inv kern mutex hand out fd in \<open>simp_all add: conf_inv_def\<close>)
  then show ?thesis by (cases c) simp
qed

lemma conf_inv_keep:
  assumes "conf_inv v0 ins (c\<lparr>pcs := P, cworld := w, op_failed := (op_failed c)(t := op_failed c t), lost := (lost c)(t := lost c t)\<rparr>)"
  shows "conf_inv v0 ins (c\<lparr>pcs := P, cworld := w\<rparr>)"
  using assms by (cases c) simp

text \<open>A thread that has not failed owes its client nothing before it takes the mutex to read.\<close>

lemma received_append: "received l a d \<Longrightarrow> received l (a @ x) (d @ x)"
  by (simp add: received_def)

lemma received_short: "received l (a @ b @ r) d \<Longrightarrow> received True (a @ take k b @ r) d"
proof -
  assume "received l (a @ b @ r) d"
  then have "subseq (a @ b @ r) d" by (auto simp: received_def split: if_splits)
  moreover have "subseq (a @ take k b @ r) (a @ b @ r)"
    by (intro list_emb_append_mono prefix_imp_subseq) (simp_all add: take_is_prefix)
  ultimately show ?thesis using subseq_order.trans by (auto simp: received_def)
qed

lemma received_begin: "received l (a @ b) d \<Longrightarrow> \<exists>d'. prefix d' d \<and> received l a d'"
proof (cases l)
  case True
  assume "received l (a @ b) d"
  then have "subseq (a @ b) d" using True by (simp add: received_def)
  then have "subseq a d" using subseq_order.trans prefix_imp_subseq prefixI by metis
  then show ?thesis using True by (auto simp: received_def)
next
  case False
  assume "received l (a @ b) d"
  then show ?thesis using False by (auto simp: received_def)
qed

lemma echo_plain:
  assumes "conf_inv v0 ins c" and "\<not> winding_up (pcs c t)"
  shows "\<not> op_failed c t" and "received (lost c t) (sent (cworld c) t @ unsent (cworld c) (pcs c t)) (due c t)"
  using inv_facts(2,6) [OF assms(1), of t] assms(2) by (auto simp: echo_ok_def split: if_splits)

lemma seek_opened:
  "pos = None \<or> pos = Some 0 \<Longrightarrow>
    sys_lseek pos (Some fd) (w\<lparr>fdt := m(fd \<mapsto> \<lparr>private_data = AesdDevice, f_pos = 0\<rparr>)\<rparr>) =
      w\<lparr>fdt := m(fd \<mapsto> \<lparr>private_data = AesdDevice, f_pos = 0\<rparr>)\<rparr>"
  by (auto simp: sys_lseek_def)

text \<open>The system calls, on a configuration that satisfies the invariant.\<close>

lemma thread_write_effect:
  assumes inv: "dev_inv (kern w0)" and fresh: "fdt w0 fd = None"
    and law: "write_lawful env bs (word_of_nat (length bs)) (kern w0)"
      "write_succeeds env bs (word_of_nat (length bs)) (kern w0)"
    and run: "sys_write env (Some fd) bs (word_of_nat (length bs)) (sys_lseek pos (Some fd) (sys_open (Some fd) w0)) = Inr (r, w)"
  shows "dev_inv (kern w)" and "dev_view (kern w) = write_spec (dev_view (kern w0)) bs"
    and "file_mutex w = file_mutex w0" and "sent w = sent w0"
proof -
  obtain p where p: "sys_lseek pos (Some fd) (sys_open (Some fd) w0) =
      w0\<lparr>fdt := (fdt w0)(fd \<mapsto> \<lparr>private_data = AesdDevice, f_pos = p\<rparr>)\<rparr>"
    using fd_seeked [where pos = pos and fd = fd and w = w0 and m = "fdt w0" and
        f = "\<lparr>private_data = AesdDevice, f_pos = 0\<rparr>"] by auto
  have len: "length bs = unat (word_of_nat (length bs) :: size_t)" using law(1) by (simp add: write_lawful_def)
  then have all: "take (unat (word_of_nat (length bs) :: size_t)) bs = bs" by simp
  from aesd_write_refines [OF inv _ law, of "\<lparr>private_data = AesdDevice, f_pos = p\<rparr>"] obtain k where
    k: "aesd_write env \<lparr>private_data = AesdDevice, f_pos = p\<rparr> bs (word_of_nat (length bs)) (kern w0) =
        Some (int (unat (word_of_nat (length bs) :: size_t)), k)" "dev_inv k" "dev_view k = write_spec (dev_view (kern w0)) bs"
    by auto
  have "w = w0\<lparr>fdt := (fdt w0)(fd \<mapsto> \<lparr>private_data = AesdDevice, f_pos = p\<rparr>), kern := k\<rparr>"
    using run k(1) all restart_write_same [OF inv _ law(1), of "\<lparr>private_data = AesdDevice, f_pos = p\<rparr>"] law(2)
    unfolding p by (simp add: sys_write_def write_succeeds_def)
  then show "dev_inv (kern w)" "dev_view (kern w) = write_spec (dev_view (kern w0)) bs"
    "file_mutex w = file_mutex w0" "sent w = sent w0" using k by simp_all
qed

lemma thread_read_effect:
  assumes inv: "dev_inv (kern w0)" and f: "fdt w0 fd = Some f" "private_data f = AesdDevice"
    and env: "r_lock_rc env = 0" "r_uncopied env = 0" and run: "sys_read env (Some fd) 1024 w0 = Inr (n, out, w)"
  shows "n = int (length out)" and "length out \<le> 1024" and "dev_src_rest fd w0 = out @ dev_src_rest fd w"
    and "n = 0 \<longrightarrow> dev_src_rest fd w0 = []" and "kern w = kern w0" and "file_mutex w = file_mutex w0" and "sent w = sent w0"
    and "\<exists>f. fdt w fd = Some f \<and> private_data f = AesdDevice"
proof -
  have "dev_src_inv (\<lambda>_. env) fd w0" using inv f env by (simp add: dev_src_inv_def)
  from dev_read_step [OF this] obtain out' w' where
    *: "sys_read env (Some fd) 1024 w0 = Inr (int (length out'), out', w')" "length out' \<le> 1024"
      "dev_src_rest fd w0 = out' @ dev_src_rest fd w'" "out' = [] \<longrightarrow> dev_src_rest fd w0 = []" "dev_src_inv (\<lambda>_. env) fd w'"
      "sent w' = sent w0" "dev_src_keep fd w' = dev_src_keep fd w0" by auto
  from *(1) run have eq: "n = int (length out)" "out' = out" "w' = w" by auto
  then show "n = int (length out)" by simp
  show "length out \<le> 1024" "dev_src_rest fd w0 = out @ dev_src_rest fd w" "n = 0 \<longrightarrow> dev_src_rest fd w0 = []"
    "sent w = sent w0" using * eq by simp_all
  show "kern w = kern w0" "file_mutex w = file_mutex w0" using *(7) eq by (simp_all add: dev_src_keep_def)
  show "\<exists>f. fdt w fd = Some f \<and> private_data f = AesdDevice" using *(5) eq by (simp add: dev_src_inv_def)
qed

text \<open>A thread in the sending loop, also after its client is gone, reads the open device.\<close>

lemma reader_effect:
  assumes inv: "conf_inv v0 ins c" and pc: "pcs c t = HoldRead fd \<or> pcs c t = Drain fd"
    and run: "r_lock_rc env = 0" "r_uncopied env = 0" "sys_read env (Some fd) 1024 (cworld c) = Inr (n, out, w)"
  shows "n = int (length out)" and "length out \<le> 1024" and "dev_src_rest fd (cworld c) = out @ dev_src_rest fd w"
    and "n = 0 \<longrightarrow> dev_src_rest fd (cworld c) = []" and "kern w = kern (cworld c)" and "file_mutex w"
    and "sent w = sent (cworld c)" and "\<exists>f. fdt w fd = Some f \<and> private_data f = AesdDevice"
    and "u \<noteq> t \<Longrightarrow> \<not> holding (pcs c u)"
proof -
  from inv_facts(4) [OF inv, of t] pc obtain f where f: "fdt (cworld c) fd = Some f" "private_data f = AesdDevice"
    by auto
  have hold: "holding (pcs c t)" using pc by auto
  note eff = thread_read_effect [OF inv_facts(1) [OF inv] f run]
  show "n = int (length out)" "length out \<le> 1024" "dev_src_rest fd (cworld c) = out @ dev_src_rest fd w"
    "n = 0 \<longrightarrow> dev_src_rest fd (cworld c) = []" "kern w = kern (cworld c)" "sent w = sent (cworld c)"
    "\<exists>f. fdt w fd = Some f \<and> private_data f = AesdDevice"
    using eff by simp_all
  show "file_mutex w" using eff(6) inv_facts(3) [OF inv hold] by simp
  show "u \<noteq> t \<Longrightarrow> \<not> holding (pcs c u)" by (rule holder_alone [OF inv hold])
qed

text \<open>The steps outside the critical sections, those of the two mutex operations, and those inside.\<close>

lemma conf_inv_line:
  assumes "conf_inv v0 ins c" and "pcs c t = ReadLine"
    and "in_hand p @ ls = inputs c t" and "\<not> holding p" and "op_failed c t \<longrightarrow> winding_up p"
  shows "conf_inv v0 ins (c\<lparr>pcs := (pcs c)(t := p), inputs := (inputs c)(t := ls)\<rparr>)"
proof -
  have d: "dropped c t = []" using inv_facts(5) [OF assms(1), of t] assms(2) by simp
  have "conf_inv v0 ins (c\<lparr>pcs := (pcs c)(t := p), inputs := (inputs c)(t := ls), dropped := (dropped c)(t := [])\<rparr>)"
    by (rule conf_inv_outside) (use assms d in simp_all)
  then show ?thesis using d by (cases c) (simp add: fun_upd_idem)
qed

lemma conf_inv_lock:
  assumes inv: "conf_inv v0 ins c" and wait: "\<not> winding_up (pcs c t)" "holding p" "in_hand p = in_hand (pcs c t)" "reading_open w p"
    and lock: "pthread_mutex_lock 0 (cworld c) = Inr (0, w)" and d: "d = due c t @ unsent w p"
  shows "conf_inv v0 ins (c\<lparr>pcs := (pcs c)(t := p), cworld := w, due := (due c)(t := d)\<rparr>)"
proof -
  have free: "\<not> file_mutex (cworld c)" and w: "w = (cworld c)\<lparr>file_mutex := True\<rparr>"
    using lock by (auto simp: pthread_mutex_lock_def split: if_splits)
  note alone = mutex_free_alone [OF inv free] and plain = echo_plain [OF inv wait(1)]
  have "conf_inv v0 ins (c\<lparr>pcs := (pcs c)(t := p), cworld := w, hist := hist c, due := (due c)(t := d),
      op_failed := (op_failed c)(t := False), lost := (lost c)(t := lost c t)\<rparr>)"
    by (rule conf_inv_inside [OF inv alone])
      (use inv alone wait plain d received_append [OF plain(2), of "unsent w p"] in \<open>auto simp: conf_inv_def echo_ok_def w\<close>)
  then show ?thesis using plain(1) by (cases c) (simp add: fun_upd_idem)
qed

lemma conf_inv_unlock:
  assumes inv: "conf_inv v0 ins c" and hold: "holding (pcs c t)"
    and at: "fd = Some n \<and> pcs c t = EndWrite n \<or> pcs c t = EndRead fd"
    and p: "p = WantRead \<and> pcs c t = EndWrite n \<or> p = ReadLine"
  shows "conf_inv v0 ins (c\<lparr>pcs := (pcs c)(t := p), cworld := sys_close fd (snd (pthread_mutex_unlock 0 (cworld c)))\<rparr>)"
  by (rule conf_inv_keep, rule conf_inv_quiet [OF inv holder_alone [OF inv hold]])
    (use at p inv_facts(2) [OF inv, of t] in
      \<open>auto simp: echo_ok_def unsent_def sys_close_def pthread_mutex_unlock_def split: if_splits option.splits\<close>)

lemma conf_inv_write:
  assumes inv: "conf_inv v0 ins c" and pc: "pcs c t = HoldWrite bs"
    and eff: "dev_inv (kern w)" "dev_view (kern w) = write_spec (dev_view (kern (cworld c))) bs"
      "file_mutex w = file_mutex (cworld c)" "sent w = sent (cworld c)"
  shows "conf_inv v0 ins (c\<lparr>pcs := (pcs c)(t := EndWrite fd), cworld := w, hist := hist c @ [(t, bs)]\<rparr>)"
proof -
  note hold = holder_alone [OF inv, of t] and plain = echo_plain [OF inv, of t]
  have m: "file_mutex (cworld c)" using inv_facts(3) [OF inv, of t] pc by simp
  have "conf_inv v0 ins (c\<lparr>pcs := (pcs c)(t := EndWrite fd), cworld := w, hist := hist c @ [(t, bs)],
      due := (due c)(t := due c t), op_failed := (op_failed c)(t := False), lost := (lost c)(t := lost c t)\<rparr>)"
    by (rule conf_inv_inside [OF inv])
      (use inv hold pc eff plain m in \<open>simp_all add: conf_inv_def echo_ok_def unsent_def\<close>)
  then show ?thesis using plain(1) pc by (cases c) (simp add: fun_upd_idem)
qed

lemma conf_inv_send:
  assumes inv: "conf_inv v0 ins c" and pc: "pcs c t = HoldRead fd"
    and rd: "r_lock_rc env = 0" "r_uncopied env = 0" "sys_read env (Some fd) 1024 (cworld c) = Inr (n, out, w)"
    and snd: "sys_send (Some k) t (out @ drop (length out) buf) (word_of_int n) w = Inr (m, w')"
    and l: "l = (lost c t \<or> k < length out)"
  shows "conf_inv v0 ins (c\<lparr>cworld := w', lost := (lost c)(t := l)\<rparr>)"
proof -
  note plain = echo_plain [OF inv, of t] and eff = reader_effect [OF inv disjI1 [OF pc] rd]
  have n: "unat (word_of_int n :: size_t) = length out"
    using eff(1,2) by (simp add: unat_of_nat_size_t)
  have w': "w' = w\<lparr>sent := (sent w)(t := sent w t @ take k out)\<rparr>"
    using snd n by (auto simp: sys_send_def min_def split: if_splits)
  have rest: "dev_src_rest fd w' = dev_src_rest fd w" by (simp add: w' dev_src_rest_def split: option.splits)
  have "received (lost c t) (sent w t @ out @ dev_src_rest fd w) (due c t)"
    using plain pc eff by (simp add: unsent_def)
  then have "received l (sent w t @ take k out @ dev_src_rest fd w) (due c t)"
    using received_short [of "lost c t" "sent w t" out "dev_src_rest fd w" "due c t" k] l by (cases "k < length out") auto
  then have "conf_inv v0 ins (c\<lparr>pcs := (pcs c)(t := HoldRead fd), cworld := w', op_failed := (op_failed c)(t := False), lost := (lost c)(t := l)\<rparr>)"
    by (intro conf_inv_quiet [OF inv])
      (use pc eff plain rest in \<open>simp_all add: echo_ok_def unsent_def w'\<close>)
  then show ?thesis using pc plain(1) by (cases c) (simp add: fun_upd_idem)
qed

lemma conf_inv_send_fails:
  assumes inv: "conf_inv v0 ins c" and pc: "pcs c t = HoldRead fd"
    and rd: "r_lock_rc env = 0" "r_uncopied env = 0" "sys_read env (Some fd) 1024 (cworld c) = Inr (n, out, w)"
  shows "conf_inv v0 ins (c\<lparr>pcs := (pcs c)(t := Drain fd), cworld := w, op_failed := (op_failed c)(t := True)\<rparr>)"
proof -
  note eff = reader_effect [OF inv disjI1 [OF pc] rd]
  have "\<exists>d'. prefix d' (due c t) \<and> received (lost c t) (sent (cworld c) t) d'"
    by (rule received_begin) (use echo_plain(2) [OF inv, of t] pc in simp)
  then have "conf_inv v0 ins (c\<lparr>pcs := (pcs c)(t := Drain fd), cworld := w, op_failed := (op_failed c)(t := True),
      lost := (lost c)(t := lost c t)\<rparr>)"
    by (intro conf_inv_quiet [OF inv]) (use pc eff in \<open>simp_all add: echo_ok_def\<close>)
  then show ?thesis by (cases c) simp
qed

lemma conf_inv_read_end:
  assumes inv: "conf_inv v0 ins c" and pc: "pcs c t = HoldRead fd \<and> n = 0 \<or> pcs c t = Drain fd"
    and rd: "r_lock_rc env = 0" "r_uncopied env = 0" "sys_read env (Some fd) 1024 (cworld c) = Inr (n, out, w)"
  shows "conf_inv v0 ins (c\<lparr>pcs := (pcs c)(t := EndRead (Some fd)), cworld := w\<rparr>)"
proof -
  have "pcs c t = HoldRead fd \<or> pcs c t = Drain fd" using pc by blast
  note eff = reader_effect [OF inv this rd]
  have "unsent (cworld c) (pcs c t) = []" using pc eff(4) by (auto simp: unsent_def)
  then have "echo_ok (op_failed c t) (lost c t) w (EndRead (Some fd)) t (due c t)"
    using inv_facts(2) [OF inv, of t] eff(7) by (simp add: echo_ok_def unsent_def split: if_splits)
  then show ?thesis
    by (intro conf_inv_keep [OF conf_inv_quiet [OF inv]]) (use pc eff in auto)
qed

text \<open>A device that cannot be opened for reading, and a read that fails after the client is gone.\<close>

lemma conf_inv_open_fails:
  assumes inv: "conf_inv v0 ins c" and pc: "pcs c t = OpenRead"
  shows "conf_inv v0 ins (c\<lparr>pcs := (pcs c)(t := EndRead None), op_failed := (op_failed c)(t := True)\<rparr>)"
proof -
  have "\<exists>d'. prefix d' (due c t) \<and> received (lost c t) (sent (cworld c) t) d'"
    by (rule received_begin) (use echo_plain(2) [OF inv, of t] pc in simp)
  then have "conf_inv v0 ins (c\<lparr>pcs := (pcs c)(t := EndRead None), cworld := cworld c, op_failed := (op_failed c)(t := True),
      lost := (lost c)(t := lost c t)\<rparr>)"
    by (intro conf_inv_quiet [OF inv holder_alone [OF inv, of t]])
      (use pc inv_facts(3) [OF inv, of t] in \<open>simp_all add: echo_ok_def\<close>)
  then show ?thesis by (cases c) simp
qed

lemma conf_inv_drain_fails:
  assumes inv: "conf_inv v0 ins c" and pc: "pcs c t = Drain fd" and rd: "sys_read env (Some fd) 1024 (cworld c) = Inr (r, out, w)"
  shows "conf_inv v0 ins (c\<lparr>pcs := (pcs c)(t := EndRead (Some fd)), cworld := w\<rparr>)"
proof -
  from inv_facts(4) [OF inv, of t] pc obtain f where f: "fdt (cworld c) fd = Some f" "private_data f = AesdDevice" by auto
  have "\<exists>f'. w = (cworld c)\<lparr>kern := kern (cworld c), fdt := (fdt (cworld c))(fd \<mapsto> f')\<rparr>"
    using rd f restart_read_granted [OF inv_facts(1) [OF inv] f(2), of env 1024]
      read_keeps_kernel [OF inv_facts(1) [OF inv] f(2), of "env\<lparr>r_lock_rc := 0\<rparr>" 1024]
    by (auto simp: sys_read_def)
  then have w: "kern w = kern (cworld c)" "sent w = sent (cworld c)" "file_mutex w = file_mutex (cworld c)" by auto
  have "echo_ok (op_failed c t) (lost c t) w (EndRead (Some fd)) t (due c t)"
    using inv_facts(2) [OF inv, of t] pc w(2) by (simp add: echo_ok_def unsent_def split: if_splits)
  then show ?thesis
    by (intro conf_inv_keep [OF conf_inv_quiet [OF inv holder_alone [OF inv, of t]]])
      (use pc w inv_facts(3) [OF inv, of t] in simp_all)
qed

lemma conf_inv_step: "thread_step c c' \<Longrightarrow> conf_inv v0 ins c \<Longrightarrow> conf_inv v0 ins c'"
proof (induction rule: thread_step.induct)
  case (recv c t bs ls)
  then show ?case by (intro conf_inv_line) simp_all
next
  case (drop_line c t bs ls)
  then have "dropped c t = []" using inv_facts(5) [OF drop_line.prems, of t] by simp
  with drop_line show ?case by (intro conf_inv_outside) simp_all
next
  case (recv_error c t)
  have "conf_inv v0 ins (c\<lparr>pcs := (pcs c)(t := Finished), inputs := (inputs c)(t := inputs c t)\<rparr>)"
    by (rule conf_inv_line) (use recv_error in simp_all)
  then have "conf_inv v0 ins (c\<lparr>pcs := (pcs c)(t := Finished)\<rparr>)" by (cases c) simp
  then show ?case using conf_inv_reset [where c = "c\<lparr>pcs := (pcs c)(t := Finished)\<rparr>"] by blast
next
  case (eof c t)
  then have "conf_inv v0 ins (c\<lparr>pcs := (pcs c)(t := Finished), inputs := (inputs c)(t := [])\<rparr>)"
    by (intro conf_inv_line) simp_all
  then show ?case using eof by (cases c) (simp add: fun_upd_idem)
next
  case (lock_write c t bs w)
  then have "conf_inv v0 ins (c\<lparr>pcs := (pcs c)(t := HoldWrite bs), cworld := w, due := (due c)(t := due c t)\<rparr>)"
    by (intro conf_inv_lock) (simp_all add: unsent_def)
  then show ?case by (cases c) simp
next
  case (do_write c t bs fd env pos r w)
  show ?case
    by (rule conf_inv_write [OF do_write.prems do_write(1) thread_write_effect [OF inv_facts(1) [OF do_write.prems] do_write(2-5)]])
next
  case (unlock_write c t fd)
  then show ?case by (intro conf_inv_unlock [where n = fd]) simp_all
next
  case (lock_read c t w)
  then show ?case by (intro conf_inv_lock) (simp_all add: unsent_def)
next
  case (open_read c t fd pos)
  note inv = open_read.prems and hold = holder_alone [OF open_read.prems, of t]
  show ?case
    by (rule conf_inv_keep, rule conf_inv_quiet [OF inv])
      (use hold open_read(1) echo_plain [OF inv, of t] inv_facts(3) [OF inv, of t] in
        \<open>simp_all add: seek_opened [OF open_read(3)] echo_ok_def unsent_def dev_src_rest_def\<close>)
next
  case (open_fails c t env pos out w)
  then have "w = cworld c" by (simp add: sys_read_def sys_lseek_def sys_open_def split: option.splits)
  then show ?case using conf_inv_open_fails [OF open_fails.prems open_fails(1)] by (cases c) simp
next
  case (drain_fails c t fd env out w)
  show ?case by (rule conf_inv_drain_fails [OF drain_fails.prems drain_fails(1,2)])
next
  case (send c t fd env n out w buf m w')
  have "length out \<le> 1024" using reader_effect(2) [OF send.prems disjI1 [OF send(1)] send(2-4)] .
  then have "conf_inv v0 ins (c\<lparr>cworld := w', lost := (lost c)(t := lost c t)\<rparr>)"
    by (intro conf_inv_send [OF send.prems send(1-4,6)]) simp
  then show ?case by (cases c) simp
next
  case (send_short c t fd env n out w k buf m w')
  have "n = int (length out)" using reader_effect(1) [OF send_short.prems disjI1 [OF send_short(1)] send_short(2-4)] .
  then show ?case using send_short(6) by (intro conf_inv_send [OF send_short.prems send_short(1-4,7)]) simp
next
  case (send_fails c t fd env n out w buf w')
  then have "w' = w" by (simp add: sys_send_def split: if_splits)
  then show ?case using conf_inv_send_fails [OF send_fails.prems send_fails(1-4)] by simp
next
  case (drain c t fd env n out w)
  show ?case by (rule conf_inv_read_end [OF drain.prems disjI2 [OF drain(1)] drain(2-4)])
next
  case (sent_all c t fd env out w)
  then show ?case by (intro conf_inv_read_end) simp_all
next
  case (unlock_read c t fd)
  then show ?case by (intro conf_inv_unlock) simp_all
qed

lemma conf_inv_signal: "conf_inv v0 ins c \<Longrightarrow> conf_inv v0 ins (c\<lparr>terminating := True\<rparr>)"
  by (simp add: conf_inv_def)

lemma conf_inv_reachable:
  assumes "reachable T w ins c" and "dev_store_inv w"
  shows "conf_inv (dev_view (kern w)) ins c"
  using assms(1)
proof (induction rule: rtranclp_induct)
  case base
  then show ?case using assms(2) by (auto simp: conf_inv_def start_conf_def dev_store_inv_def echo_ok_def received_def)
next
  case (step c c')
  then show ?case by (auto elim: conf_stepE intro: conf_inv_step conf_inv_signal)
qed

section \<open>Progress\<close>

text \<open>With memory left, a write can succeed.\<close>

lemma write_env_exists:
  assumes inv: "dev_inv k" and fin: "finite (dom (kmem k))" and room: "length (dev_pending k) + length bs < block_limit"
  shows "\<exists>env. write_lawful env bs (word_of_nat (length bs)) k \<and> write_succeeds env bs (word_of_nat (length bs)) k"
proof -
  let ?n = "word_of_nat (length bs) :: size_t" and ?m = "write_request bs k"
  obtain a where a: "kmem k a = None" using fin by (metis domIff ex_new_if_finite infinite_UNIV_nat)
  obtain b where b: "b \<noteq> a" "kmem k b = None"
    using fin ex_new_if_finite [of "insert a (dom (kmem k))"] infinite_UNIV_nat by auto
  have n: "unat ?n = length bs" using room by (intro unat_of_nat_size_t) (simp add: block_limit_def)
  have e: "unat (esize (dev_entry (aesd_device k))) = length (dev_pending k)"
    using inv valid_block_length [of "kmem k" "buffptr (dev_entry (aesd_device k))"]
    by (auto simp: dev_inv_def dev_entries_def entry_ok_def dev_pending_def)
  have u: "unat (word_of_nat (length (upto_newline bs)) :: size_t) = length (upto_newline bs)"
    using room upto_newline_length [of bs] by (intro unat_of_nat_size_t) (simp add: block_limit_def)
  have "unat ?m = length (dev_pending k) + length (upto_newline bs)"
    unfolding write_request_def using room upto_newline_length [of bs] e u
    by (subst unat_add_size_t) (simp_all add: block_limit_def)
  then have m: "unat ?m < block_limit" using room upto_newline_length [of bs] by simp
  define env where "env = \<lparr>w_lock_rc = 0, w_kmalloc = Some (a, replicate (unat ?n) nul), w_uncopied = 0,
      w_krealloc = Some (b, replicate (unat ?m) nul)\<rparr>"
  have "write_lawful env bs ?n k"
    using a b n m room by (auto simp: write_lawful_def env_def alloc_ok_def kmalloc_def)
  moreover have "write_succeeds env bs ?n k" by (simp add: write_succeeds_def env_def)
  ultimately show ?thesis by blast
qed

lemma holder_steps:
  assumes inv: "conf_inv v0 ins c" and hold: "holding (pcs c t)"
    and mem: "finite (dom (kmem (kern (cworld c))))" and fd: "fdt (cworld c) fd = None"
    and room: "\<forall>bs. pcs c t = HoldWrite bs \<longrightarrow> length (dev_pending (kern (cworld c))) + length bs < block_limit"
  shows "\<exists>c'. thread_step c c'"
proof (cases "pcs c t")
  case (HoldWrite bs)
  let ?w = "cworld c" and ?n = "word_of_nat (length bs) :: size_t"
  note dev = inv_facts(1) [OF inv]
  from write_env_exists [OF dev mem] room HoldWrite obtain env where
    env: "write_lawful env bs ?n (kern ?w)" "write_succeeds env bs ?n (kern ?w)" by blast
  from aesd_write_refines [OF dev _ env, of dev_file] obtain k where
    k: "aesd_write env dev_file bs ?n (kern ?w) = Some (int (unat ?n), k)" by (auto simp: dev_file_def)
  have "take (unat ?n) bs = bs" using env(1) by (simp add: write_lawful_def)
  then have "\<exists>r w. sys_write env (Some fd) bs ?n (sys_lseek None (Some fd) (sys_open (Some fd) ?w)) = Inr (r, w)"
    using k restart_write_same [OF dev _ env(1), of dev_file] env(2)
    by (simp add: sys_write_def sys_lseek_def dev_file_def write_succeeds_def)
  then show ?thesis using thread_step.do_write [OF HoldWrite fd env] by blast
next
  case (HoldRead fd')
  from inv_facts(4) [OF inv, of t] HoldRead obtain f where f: "fdt (cworld c) fd' = Some f" "private_data f = AesdDevice" by auto
  define env where "env = \<lparr>r_lock_rc = 0, r_uncopied = 0\<rparr>"
  have env: "r_lock_rc env = 0" "r_uncopied env = 0" by (simp_all add: env_def)
  from dev_read_step [of "\<lambda>_. env" fd' "cworld c"] inv_facts(1) [OF inv] f env obtain out w where
    rd: "sys_read env (Some fd') 1024 (cworld c) = Inr (int (length out), out, w)" "length out \<le> 1024"
    by (auto simp: dev_src_inv_def)
  show ?thesis
  proof (cases "out = []")
    case True
    then have "sys_read env (Some fd') 1024 (cworld c) = Inr (0, out, w)" using rd by simp
    from thread_step.sent_all [OF HoldRead env this] show ?thesis by blast
  next
    case False
    have "unat (word_of_int (int (length out)) :: size_t) = length out" using rd(2) by (simp add: unat_of_nat_size_t)
    then have "\<exists>m w'. sys_send (Some 1024) t (out @ drop (length out) []) (word_of_int (int (length out))) w = Inr (m, w')"
      by (simp add: sys_send_def Let_def)
    then show ?thesis using thread_step.send [OF HoldRead env rd(1), of "[]"] False by fastforce
  qed
next
  case (Drain fd')
  from inv_facts(4) [OF inv, of t] Drain obtain f where f: "fdt (cworld c) fd' = Some f" "private_data f = AesdDevice" by auto
  define env where "env = \<lparr>r_lock_rc = 0, r_uncopied = 0\<rparr>"
  have env: "r_lock_rc env = 0" "r_uncopied env = 0" by (simp_all add: env_def)
  from dev_read_step [of "\<lambda>_. env" fd' "cworld c"] inv_facts(1) [OF inv] f env obtain out w where
    rd: "sys_read env (Some fd') 1024 (cworld c) = Inr (int (length out), out, w)" by (auto simp: dev_src_inv_def)
  from thread_step.drain [OF Drain env rd] show ?thesis by blast
qed (use hold fd thread_step.unlock_write thread_step.open_read [where pos = None] thread_step.unlock_read in \<open>blast | simp\<close>)+

lemma some_thread_steps:
  assumes inv: "conf_inv v0 ins c" and live: "pcs c t \<noteq> Finished"
    and mem: "finite (dom (kmem (kern (cworld c))))" and fd: "fdt (cworld c) fd = None"
    and room: "\<forall>t bs. pcs c t = HoldWrite bs \<longrightarrow> length (dev_pending (kern (cworld c))) + length bs < block_limit"
  shows "\<exists>c'. thread_step c c'"
proof (cases "\<exists>u. holding (pcs c u)")
  case True
  then show ?thesis using holder_steps [OF inv _ mem fd] room by blast
next
  case False
  then have "\<not> file_mutex (cworld c)" using inv by (simp add: conf_inv_def)
  then have lock: "pthread_mutex_lock 0 (cworld c) = Inr (0, (cworld c)\<lparr>file_mutex := True\<rparr>)"
    by (simp add: pthread_mutex_lock_def)
  show ?thesis
  proof (cases "pcs c t")
    case ReadLine
    then show ?thesis
      by (cases "inputs c t") (blast intro: thread_step.eof thread_step.recv thread_step.drop_line)+
  qed (use False live lock thread_step.lock_write thread_step.lock_read in \<open>blast | metis holding.simps\<close>)+
qed

text \<open>
  Only threads of \<open>T\<close> run, and a thread of \<open>T\<close> finishes when its input is used up, unless its
  connection was reset or it dropped a line.
\<close>

lemma reachable_threads:
  assumes "reachable T w ins c"
  shows "(\<forall>t. t \<notin> T \<longrightarrow> pcs c t = Finished) \<and>
    (\<forall>t \<in> T. pcs c t = Finished \<longrightarrow> \<not> reset c t \<longrightarrow> dropped c t = [] \<longrightarrow> inputs c t = [])"
  using assms
proof (induction rule: rtranclp_induct)
  case base
  then show ?case by (simp add: start_conf_def)
next
  case (step c c')
  from step.hyps(2) show ?case
  proof cases
    case thread
    then show ?thesis using step.IH by cases auto
  next
    case signal
    then show ?thesis using step.IH by simp
  qed
qed

text \<open>
  The work left: every step but a send lowers the rank of its thread, where a line still to come
  counts more than the rest of a round; a send lowers what is unsent.
\<close>

fun rank :: "pc \<Rightarrow> nat" where
  "rank Finished = 0"
| "rank ReadLine = 1"
| "rank (EndRead _) = 2"
| "rank (Drain _) = 3"
| "rank (HoldRead _) = 4"
| "rank OpenRead = 5"
| "rank WantRead = 6"
| "rank (EndWrite _) = 7"
| "rank (HoldWrite _) = 8"
| "rank (WantWrite _) = 9"

definition work :: "conf \<Rightarrow> nat \<Rightarrow> nat" where
  "work c t = 10 * length (inputs c t) + rank (pcs c t)"

lemma send_shortens:
  assumes inv: "conf_inv v0 ins c" and pc: "pcs c t = HoldRead fd" and env: "r_lock_rc env = 0" "r_uncopied env = 0"
    and rd: "sys_read env (Some fd) 1024 (cworld c) = Inr (n, out, w)" "0 < n"
    and snd: "sys_send (Some k) t (out @ drop (length out) buf) (word_of_int n) w = Inr (m, w')"
  shows "length (unsent w' (HoldRead fd)) < length (unsent (cworld c) (HoldRead fd))"
proof -
  from inv_facts(4) [OF inv, of t] pc obtain f where f: "fdt (cworld c) fd = Some f" "private_data f = AesdDevice" by auto
  note eff = thread_read_effect [OF inv_facts(1) [OF inv] f env rd(1)]
  have out: "out \<noteq> []" using eff(1) rd(2) by auto
  have w': "kern w' = kern w" "fdt w' = fdt w"
    using snd by (auto simp: sys_send_def Let_def split: if_splits)
  then have "dev_src_rest fd w' = dev_src_rest fd w" by (simp add: dev_src_rest_def split: option.splits)
  then show ?thesis using eff(3) out by (simp add: unsent_def)
qed

lemma step_work:
  assumes inv: "conf_inv v0 ins c" and st: "thread_step c c'"
  shows "terminating c' = terminating c \<and>
    (\<exists>t. pcs c t \<noteq> Finished \<and> (\<forall>u. u \<noteq> t \<longrightarrow> work c' u = work c u) \<and>
    (work c' t < work c t \<or>
     work c' t = work c t \<and> length (unsent (cworld c') (pcs c' t)) < length (unsent (cworld c) (pcs c t)) \<and>
       (\<forall>u. u \<noteq> t \<longrightarrow> length (unsent (cworld c') (pcs c' u)) = length (unsent (cworld c) (pcs c u)))))"
  using st
proof cases
  case (send t fd env n out w buf m w')
  have "unsent w' (pcs c u) = []" "unsent (cworld c) (pcs c u) = []" if "u \<noteq> t" for u
    using holder_alone [OF inv, of t u] send(2) that by simp_all
  then show ?thesis using send(1,2) send_shortens [OF inv send(2-7)]
    by (intro conjI exI [of _ t]) (auto simp: work_def)
next
  case (send_short t fd env n out w k buf m w')
  have "unsent w' (pcs c u) = []" "unsent (cworld c) (pcs c u) = []" if "u \<noteq> t" for u
    using holder_alone [OF inv, of t u] send_short(2) that by simp_all
  then show ?thesis using send_short(1,2) send_shortens [OF inv send_short(2-6,8)]
    by (intro conjI exI [of _ t]) (auto simp: work_def)
qed (auto simp: work_def)

lemma sum_one_changes:
  fixes f g :: "nat \<Rightarrow> nat"
  assumes "finite T" and "t \<in> T" and "\<And>u. u \<noteq> t \<Longrightarrow> g u = f u"
  shows "sum g T + f t = sum f T + g t"
proof -
  have "sum g (T - {t}) = sum f (T - {t})" by (rule sum.cong) (use assms(3) in auto)
  then show ?thesis using sum.remove [OF assms(1,2), of g] sum.remove [OF assms(1,2), of f] by simp
qed

definition step_order :: "nat set \<Rightarrow> (conf \<times> conf) set" where
  "step_order T = measures [\<lambda>c. if terminating c then 0 else 1, \<lambda>c. \<Sum>t\<in>T. work c t,
     \<lambda>c. \<Sum>t\<in>T. length (unsent (cworld c) (pcs c t))]"

lemma step_decreases:
  assumes fin: "finite T" and inv: "dev_store_inv w" and c: "reachable T w ins c" and st: "thread_step c c'"
  shows "(c', c) \<in> step_order T"
proof -
  from step_work [OF conf_inv_reachable [OF c inv] st] have tm: "terminating c' = terminating c" by blast
  from step_work [OF conf_inv_reachable [OF c inv] st] obtain t where
    t: "pcs c t \<noteq> Finished" "\<And>u. u \<noteq> t \<Longrightarrow> work c' u = work c u"
      "work c' t < work c t \<or>
       work c' t = work c t \<and> length (unsent (cworld c') (pcs c' t)) < length (unsent (cworld c) (pcs c t)) \<and>
         (\<forall>u. u \<noteq> t \<longrightarrow> length (unsent (cworld c') (pcs c' u)) = length (unsent (cworld c) (pcs c u)))"
    by blast
  have T: "t \<in> T" using t(1) reachable_threads [OF c] by blast
  have w: "sum (work c') T + work c t = sum (work c) T + work c' t" by (rule sum_one_changes [OF fin T t(2)])
  let ?u = "\<lambda>c t. length (unsent (cworld c) (pcs c t))"
  have u: "sum (?u c') T + ?u c t = sum (?u c) T + ?u c' t" if "\<forall>u. u \<noteq> t \<longrightarrow> ?u c' u = ?u c u"
    using sum_one_changes [OF fin T, of "?u c'" "?u c"] that by blast
  from t(3) show ?thesis
  proof
    assume "work c' t < work c t"
    then show ?thesis using w tm by (simp add: step_order_def)
  next
    assume "work c' t = work c t \<and> ?u c' t < ?u c t \<and> (\<forall>u. u \<noteq> t \<longrightarrow> ?u c' u = ?u c u)"
    then show ?thesis using w u tm by (simp add: step_order_def)
  qed
qed

lemma conf_step_decreases:
  assumes "finite T" and "dev_store_inv w" and "reachable T w ins c" and "conf_step c c'"
  shows "(c', c) \<in> step_order T"
  using assms(4)
proof cases
  case thread
  then show ?thesis by (rule step_decreases [OF assms(1-3)])
next
  case signal
  then show ?thesis by (simp add: step_order_def)
qed

lemma finished_threads_stop: "\<forall>t. pcs c t = Finished \<Longrightarrow> \<not> thread_step c c'"
  by (auto elim: thread_stepE)

section \<open>A failing write\<close>

text \<open>
  A write to the store that fails, because the device could not be opened or because the driver
  reported an error: \<open>filestore_write\<close> returns without unlocking the mutex and without closing
  the descriptor, and the thread goes on to read the store.
\<close>

inductive write_failure :: "nat \<Rightarrow> conf \<Rightarrow> conf \<Rightarrow> bool" where
  write_fails: "pcs c t = HoldWrite bs \<Longrightarrow> (\<forall>n. fd = Some n \<longrightarrow> fdt (cworld c) n = None) \<Longrightarrow>
    sys_write env fd bs (word_of_nat (length bs)) (sys_lseek pos fd (sys_open fd (cworld c))) = Inr (- 1, w) \<Longrightarrow>
    write_failure t c (c\<lparr>pcs := (pcs c)(t := WantRead), cworld := w, op_failed := (op_failed c)(t := True)\<rparr>)"

inductive_cases write_failureE: "write_failure t c c'"

text \<open>The mutex is locked and nobody is going to unlock it.\<close>

definition stalled :: "conf \<Rightarrow> bool" where
  "stalled c \<longleftrightarrow> file_mutex (cworld c) \<and> (\<forall>t. \<not> holding (pcs c t))"

lemma stalled_step:
  assumes "conf_step c c'" and "stalled c"
  shows "stalled c' \<and> cworld c' = cworld c \<and> hist c' = hist c \<and> due c' = due c \<and>
    (\<forall>u. pcs c u \<noteq> ReadLine \<longrightarrow> pcs c' u = pcs c u)"
  using assms(1)
proof cases
  case thread
  have free: "\<not> holding (pcs c u)" for u using assms(2) by (simp add: stalled_def)
  have outside: "pcs c u \<noteq> HoldWrite bs" "pcs c u \<noteq> EndWrite fd" "pcs c u \<noteq> OpenRead" "pcs c u \<noteq> HoldRead fd"
    "pcs c u \<noteq> Drain fd" "pcs c u \<noteq> EndRead fo" for u bs fd fo
    using free [of u] by auto
  from thread show ?thesis
    by cases (use assms(2) outside in \<open>auto simp: stalled_def pthread_mutex_lock_def split: if_splits\<close>)
next
  case signal
  then show ?thesis using assms(2) by (simp add: stalled_def)
qed

lemma stalled_forever:
  assumes "conf_step\<^sup>*\<^sup>* c c'" and "stalled c"
  shows "stalled c' \<and> cworld c' = cworld c \<and> hist c' = hist c \<and> due c' = due c \<and>
    (\<forall>u. pcs c u \<noteq> ReadLine \<longrightarrow> pcs c' u = pcs c u)"
  using assms(1)
proof (induction rule: rtranclp_induct)
  case base
  then show ?case using assms(2) by simp
next
  case (step c1 c2)
  with stalled_step [OF step.hyps(2)] show ?case by simp
qed

lemma write_failure_stalls:
  assumes inv: "conf_inv v0 ins c" and fail: "write_failure t c c1"
  shows "stalled c1" and "pcs c1 t = WantRead" and "hist c1 = hist c"
proof -
  from fail obtain bs fd env pos w where pc: "pcs c t = HoldWrite bs"
    and run: "sys_write env fd bs (word_of_nat (length bs)) (sys_lseek pos fd (sys_open fd (cworld c))) = Inr (- 1, w)"
    and c1: "c1 = c\<lparr>pcs := (pcs c)(t := WantRead), cworld := w, op_failed := (op_failed c)(t := True)\<rparr>"
    by (auto elim: write_failureE)
  have "file_mutex w = file_mutex (cworld c)"
    using run by (auto simp: sys_write_def sys_lseek_def sys_open_def split: option.splits prod.splits)
  then have "file_mutex w" using inv_facts(3) [OF inv, of t] pc by simp
  then show "stalled c1" using holder_alone [OF inv, of t] pc by (simp add: stalled_def c1)
  show "pcs c1 t = WantRead" "hist c1 = hist c" by (simp_all add: c1)
qed

section \<open>Properties\<close>

text \<open>
  In every interleaving of any number of connection threads, with receives failing, clients going
  away and signals arriving at any time, at most one thread is inside the filestore's critical sections, the
  mutex is locked exactly then, and the contents of the device are those of the writes in the order
  in which they happened; every thread's lines were written in the order in which they arrived, none
  lost, none duplicated, with the rest still to come. Only a thread that ends, on a signal or because
  its client is gone, drops the line it was just given.
\<close>

lemma threads_write_in_order:
  assumes "dev_store_inv w" and "reachable T w ins c"
  shows "dev_inv (kern (cworld c)) \<and>
    dev_view (kern (cworld c)) = foldl write_spec (dev_view (kern w)) (map snd (hist c)) \<and>
    (\<forall>t. lines_of t (hist c) @ in_hand (pcs c t) @ dropped c t @ inputs c t = ins t) \<and>
    (\<forall>t. dropped c t \<noteq> [] \<longrightarrow> pcs c t = Finished \<and> (terminating c \<or> op_failed c t)) \<and>
    file_mutex (cworld c) = (\<exists>t. holding (pcs c t)) \<and>
    (\<forall>t u. holding (pcs c t) \<longrightarrow> holding (pcs c u) \<longrightarrow> t = u)"
  using conf_inv_reachable [OF assms(2,1)] unfolding conf_inv_def by blast

text \<open>
  What a client has received plus what its thread still has to send is at every moment the
  concatenation of the device's lines as they were each time its thread took the mutex to read: the
  echo of a store is one snapshot of it, although other threads run between the reads and sends of
  the loop, and whatever happens to the other clients; outside its critical section a thread owes
  its client nothing. A client to which a \<open>send\<close> failed, or for which the device could not be
  opened, has received the beginning of it, and one
  to which a \<open>send\<close> was short has received it with bytes left out.
\<close>

lemma echo_is_snapshot:
  assumes "dev_store_inv w" and "reachable T w ins c"
  shows "(\<forall>t. \<not> op_failed c t \<longrightarrow> received (lost c t) (sent (cworld c) t @ unsent (cworld c) (pcs c t)) (due c t)) \<and>
    (\<forall>t. \<not> op_failed c t \<longrightarrow> \<not> holding (pcs c t) \<longrightarrow> received (lost c t) (sent (cworld c) t) (due c t)) \<and>
    (\<forall>t. op_failed c t \<longrightarrow> (\<exists>d. prefix d (due c t) \<and> received (lost c t) (sent (cworld c) t) d))"
proof -
  note s = inv_facts(2) [OF conf_inv_reachable [OF assms(2,1)]]
  have e: "received (lost c t) (sent (cworld c) t @ unsent (cworld c) (pcs c t)) (due c t)" if "\<not> op_failed c t" for t
    using s [of t] that by (simp add: echo_ok_def)
  then have "received (lost c t) (sent (cworld c) t) (due c t)" if "\<not> op_failed c t" "\<not> holding (pcs c t)" for t
    using e [OF that(1)] that(2) by simp
  moreover have "\<exists>d. prefix d (due c t) \<and> received (lost c t) (sent (cworld c) t) d" if "op_failed c t" for t
    using s [of t] that by (simp add: echo_ok_def)
  ultimately show ?thesis using e by blast
qed

text \<open>
  C18: with memory and a descriptor left and no device call failing, some thread can take a step
  exactly as long as a thread has not finished: the mutex never leaves all threads waiting, also not
  when clients go away in the middle of an echo.
\<close>

theorem threads_never_deadlock:
  assumes "dev_store_inv w" and "reachable T w ins c"
    and "finite (dom (kmem (kern (cworld c))))" and "fdt (cworld c) fd = None"
    and "\<forall>t bs. pcs c t = HoldWrite bs \<longrightarrow> length (dev_pending (kern (cworld c))) + length bs < block_limit"
  shows "(\<exists>c'. thread_step c c') \<longleftrightarrow> (\<exists>t. pcs c t \<noteq> Finished)"
  using some_thread_steps [OF conf_inv_reachable [OF assms(2,1)] _ assms(3-5)] finished_threads_stop by blast

text \<open>
  C19: finitely many connections are always served to the end: no schedule of their threads runs
  forever, and when all have finished the mutex is free, every line of every client that stayed has
  been written, in its client's order, and every such client has received all the snapshots it was
  due; of a client that went away or for which the device could not be opened, and after a signal, the
  beginnings of both. After a short \<open>send\<close> bytes are left out of what was received, and after a
  failing receive lines may be left.
\<close>

theorem threads_terminate:
  assumes "finite T" and "dev_store_inv w"
  shows "\<not> (\<exists>f. f 0 = start_conf T w ins \<and> (\<forall>i. conf_step (f i) (f (Suc i)))) \<and>
    (\<forall>c. reachable T w ins c \<longrightarrow> (\<forall>t. pcs c t = Finished) \<longrightarrow>
      (\<forall>t \<in> T. (\<not> op_failed c t \<longrightarrow> received (lost c t) (sent (cworld c) t) (due c t)) \<and>
        (\<not> op_failed c t \<longrightarrow> \<not> terminating c \<longrightarrow> \<not> reset c t \<longrightarrow> lines_of t (hist c) = ins t) \<and>
        (\<exists>d. prefix d (due c t) \<and> received (lost c t) (sent (cworld c) t) d) \<and>
        prefix (lines_of t (hist c)) (ins t)) \<and> \<not> file_mutex (cworld c))"
proof (intro conjI allI impI notI)
  assume "\<exists>f. f 0 = start_conf T w ins \<and> (\<forall>i. conf_step (f i) (f (Suc i)))"
  then obtain f where f: "f 0 = start_conf T w ins" "\<And>i. conf_step (f i) (f (Suc i))" by blast
  have "reachable T w ins (f i)" for i
    by (induction i) (use f in \<open>auto intro: rtranclp.rtrancl_into_rtrancl\<close>)
  then have "(f (Suc i), f i) \<in> step_order T" for i using conf_step_decreases [OF assms _ f(2)] by blast
  moreover have "wf (step_order T)" unfolding step_order_def by (rule wf_measures)
  ultimately show False unfolding wf_iff_no_infinite_down_chain by blast
next
  fix c
  assume c: "reachable T w ins c" and all: "\<forall>t. pcs c t = Finished"
  note inv = conf_inv_reachable [OF c assms(2)]
  have ins: "lines_of t (hist c) @ dropped c t @ inputs c t = ins t" for t
    using inv all by (simp add: conf_inv_def)
  have full: "lines_of t (hist c) = ins t" if "t \<in> T" "\<not> op_failed c t" "\<not> terminating c" "\<not> reset c t" for t
  proof -
    have "dropped c t = []" using inv that(2,3) by (auto simp: conf_inv_def)
    then show ?thesis using ins [of t] reachable_threads [OF c] all that(1,4) by simp
  qed
  moreover have pre: "prefix (lines_of t (hist c)) (ins t)" for t using ins [of t] by (metis prefixI)
  moreover have all_sent: "received (lost c t) (sent (cworld c) t) (due c t)" if "\<not> op_failed c t" for t
    using inv_facts(2) [OF inv, of t] all that by (simp add: echo_ok_def)
  moreover have "\<exists>d. prefix d (due c t) \<and> received (lost c t) (sent (cworld c) t) d" for t
    using inv_facts(2) [OF inv, of t] all_sent [of t] by (cases "op_failed c t") (auto simp: echo_ok_def)
  ultimately show "\<forall>t \<in> T. (\<not> op_failed c t \<longrightarrow> received (lost c t) (sent (cworld c) t) (due c t)) \<and>
        (\<not> op_failed c t \<longrightarrow> \<not> terminating c \<longrightarrow> \<not> reset c t \<longrightarrow> lines_of t (hist c) = ins t) \<and>
        (\<exists>d. prefix d (due c t) \<and> received (lost c t) (sent (cworld c) t) d) \<and>
        prefix (lines_of t (hist c)) (ins t)" by blast
  show "file_mutex (cworld c) \<Longrightarrow> False" using inv all by (simp add: conf_inv_def)
qed

text \<open>
  One failing write stops the whole server. From any moment a thread of any interleaving holds
  the mutex to write and the write fails, nothing is ever stored in the device or sent to a client
  again: the mutex stays locked, the failing thread waits for it forever, every other thread that is
  not waiting for input stays where it is, and a thread that waits for input can only receive one more
  line and then wait as well, or end.
\<close>

lemma failed_write_stops_all_threads:
  assumes "dev_store_inv w" and "reachable T w ins c" and "write_failure t c c1" and "conf_step\<^sup>*\<^sup>* c1 c2"
  shows "cworld c2 = cworld c1 \<and> file_mutex (cworld c2) \<and> hist c2 = hist c \<and> due c2 = due c1 \<and>
    pcs c2 t = WantRead \<and> (\<forall>u. pcs c1 u \<noteq> ReadLine \<longrightarrow> pcs c2 u = pcs c1 u) \<and>
    (\<forall>u. pcs c2 u = ReadLine \<or> pcs c2 u = WantRead \<or> pcs c2 u = Finished \<or> (\<exists>bs. pcs c2 u = WantWrite bs))"
proof -
  note fail = write_failure_stalls [OF conf_inv_reachable [OF assms(2,1)] assms(3)]
  note for_ever = stalled_forever [OF assms(4) fail(1)]
  then have "\<not> holding (pcs c2 u)" for u by (simp add: stalled_def)
  then have "pcs c2 u = ReadLine \<or> pcs c2 u = WantRead \<or> pcs c2 u = Finished \<or> (\<exists>bs. pcs c2 u = WantWrite bs)" for u
    by (metis holding.simps pc.exhaust)
  then show ?thesis using for_ever fail by (simp add: stalled_def)
qed

section \<open>Witnesses\<close>

text \<open>Two clients on the fresh device; the one on socket 5 has sent its line and its thread holds the mutex.\<close>

definition two_clients :: "nat \<Rightarrow> bytes list" where
  "two_clients t = (if t = 5 then [''hi'' @ [newline]] else [])"

definition holding_conf :: conf where
  "holding_conf = \<lparr>cworld = start_world\<lparr>file_mutex := True\<rparr>, pcs = (\<lambda>t. if t = 6 then ReadLine else Finished)(5 := HoldWrite (''hi'' @ [newline])),
     inputs = two_clients(5 := []), hist = [], due = (\<lambda>_. []), op_failed = (\<lambda>_. False), dropped = (\<lambda>_. []),
     lost = (\<lambda>_. False), reset = (\<lambda>_. False), terminating = False\<rparr>"

lemma holding_conf_reachable: "reachable {5, 6} start_world two_clients holding_conf"
proof -
  let ?s = "start_conf {5, 6} start_world two_clients"
  let ?c = "?s\<lparr>pcs := (pcs ?s)(5 := WantWrite (''hi'' @ [newline])), inputs := (inputs ?s)(5 := [])\<rparr>"
  have "thread_step ?s ?c"
    by (rule thread_step.recv) (simp_all add: start_conf_def two_clients_def)
  then have one: "conf_step ?s ?c" by (rule conf_step.thread)
  have two: "thread_step ?c (?c\<lparr>pcs := (pcs ?c)(5 := HoldWrite (''hi'' @ [newline])),
      cworld := start_world\<lparr>file_mutex := True\<rparr>\<rparr>)"
    by (rule thread_step.lock_write) (simp_all add: start_conf_def start_world_def pthread_mutex_lock_def)
  have eq: "?c\<lparr>pcs := (pcs ?c)(5 := HoldWrite (''hi'' @ [newline])), cworld := start_world\<lparr>file_mutex := True\<rparr>\<rparr> =
      holding_conf"
    by (auto simp: start_conf_def holding_conf_def fun_eq_iff start_world_def)
  show ?thesis
    by (rule rtranclp.rtrancl_into_rtrancl [where r = conf_step, OF r_into_rtranclp [where r = conf_step, OF one]])
      (rule conf_step.thread [OF two [unfolded eq]])
qed

theorem threads_never_deadlock_witness: "\<exists>c'. thread_step holding_conf c'"
proof -
  have "(\<exists>c'. thread_step holding_conf c') \<longleftrightarrow> (\<exists>t. pcs holding_conf t \<noteq> Finished)"
    by (rule threads_never_deadlock [OF start_world_inv holding_conf_reachable, of 7])
      (simp_all add: holding_conf_def start_world_def dev_pending_def zero_entry_def block_limit_def split: if_splits)
  moreover have "pcs holding_conf 5 \<noteq> Finished" by (simp add: holding_conf_def)
  ultimately show ?thesis by blast
qed

theorem threads_terminate_witness:
  "\<not> (\<exists>f. f 0 = start_conf {5, 6} start_world two_clients \<and> (\<forall>i. conf_step (f i) (f (Suc i))))"
  using threads_terminate [of "{5, 6}" start_world two_clients] start_world_inv by simp

end
