(* ===== verification/Link_Chains.thy ===== *)
theory Link_Chains
  imports Prelude
begin

text \<open>
  Pointer slots and chains of elements, shared by the four list families of \<open>server/queue.h\<close>.
  A pointer to an element is stored in a slot: the first pointer of a head or the next pointer of an
  element. The contents of the slots of a store are a function \<open>g\<close> (\<open>None\<close>: the slot is
  not allocated, \<open>Some None\<close>: it holds NULL); the back pointers of its elements, in the
  families that have them, are a function \<open>b\<close>. The lemmas say which changes of \<open>g\<close> and
  \<open>b\<close> insert into, remove from and join chains.
\<close>

section \<open>Slots\<close>

datatype slot = FirstOf nat | NextOf nat

abbreviation head_of :: "'a list \<Rightarrow> 'a option" where
  "head_of xs \<equiv> (case xs of [] \<Rightarrow> None | x # _ \<Rightarrow> Some x)"

text \<open>The slot that points to the element after \<open>ys\<close>.\<close>

definition end_slot :: "slot \<Rightarrow> nat list \<Rightarrow> slot" where
  "end_slot p ys = (if ys = [] then p else NextOf (last ys))"

lemma end_slot_simps [simp]:
  "end_slot p [] = p" "end_slot p (x # xs) = end_slot (NextOf x) xs" "end_slot p (xs @ [x]) = NextOf x"
  by (simp_all add: end_slot_def)

lemma end_slot_append [simp]: "end_slot p (xs @ ys) = end_slot (end_slot p xs) ys"
  by (induction xs arbitrary: p) simp_all

lemma end_slot_cases: "end_slot p ys = p \<and> ys = [] \<or> (\<exists>y \<in> set ys. end_slot p ys = NextOf y)"
  by (auto simp: end_slot_def)

lemma end_slot_first: "end_slot (FirstOf h) ys = FirstOf h' \<longleftrightarrow> h' = h \<and> ys = []"
  by (auto simp: end_slot_def)

lemma end_slot_next: "x \<notin> set ys \<Longrightarrow> end_slot (FirstOf h) ys \<noteq> NextOf x"
  using end_slot_cases [of "FirstOf h" ys] by auto

lemma end_slot_outside: "set ys \<inter> set zs = {} \<Longrightarrow> z \<in> set zs \<Longrightarrow> NextOf z \<noteq> end_slot (FirstOf h) ys"
  using end_slot_cases [of "FirstOf h" ys] by auto

lemma head_of_in: "head_of zs = Some z \<Longrightarrow> z \<in> set zs"
  by (cases zs) auto

lemma head_of_None [simp]: "head_of zs = None \<longleftrightarrow> zs = []"
  by (cases zs) auto

text \<open>The slots inside a list are the one before it and the next pointers of all but its last element.\<close>

lemma end_slot_fresh:
  "distinct ys \<Longrightarrow> end_slot (FirstOf h) ys \<notin> set (butlast (FirstOf h # map NextOf ys))"
  by (cases ys rule: rev_cases) auto

section \<open>Chains\<close>

fun chain :: "(slot \<Rightarrow> nat option option) \<Rightarrow> slot \<Rightarrow> nat list \<Rightarrow> bool" where
  "chain g p [] \<longleftrightarrow> g p = Some None"
| "chain g p (x # xs) \<longleftrightarrow> g p = Some (Some x) \<and> chain g (NextOf x) xs"

fun path :: "(slot \<Rightarrow> nat option option) \<Rightarrow> slot \<Rightarrow> nat list \<Rightarrow> bool" where
  "path g p [] \<longleftrightarrow> True"
| "path g p (x # xs) \<longleftrightarrow> g p = Some (Some x) \<and> path g (NextOf x) xs"

fun backs :: "(nat \<Rightarrow> slot option) \<Rightarrow> slot \<Rightarrow> nat list \<Rightarrow> bool" where
  "backs b p [] \<longleftrightarrow> True"
| "backs b p (x # xs) \<longleftrightarrow> b x = Some p \<and> backs b (NextOf x) xs"

lemma chain_append: "chain g p (ys @ zs) \<longleftrightarrow> path g p ys \<and> chain g (end_slot p ys) zs"
  by (induction ys arbitrary: p) auto

lemma backs_append: "backs b p (ys @ zs) \<longleftrightarrow> backs b p ys \<and> backs b (end_slot p ys) zs"
  by (induction ys arbitrary: p) auto

lemma chain_head: "chain g p xs \<Longrightarrow> g p = Some (head_of xs)"
  by (cases xs) auto

lemma chain_slot: "chain g p (ys @ zs) \<Longrightarrow> g (end_slot p ys) = Some (head_of zs)"
  by (simp add: chain_append chain_head)

lemma chain_next: "chain g p (ys @ x # zs) \<Longrightarrow> g (NextOf x) = Some (head_of zs)"
  using chain_slot [of g p "ys @ [x]" zs] by simp

lemma chain_alloc: "chain g p xs \<Longrightarrow> x \<in> set xs \<Longrightarrow> g (NextOf x) \<noteq> None"
  by (auto simp: in_set_conv_decomp dest: chain_next)

lemma backs_at: "backs b p (ys @ x # zs) \<Longrightarrow> b x = Some (end_slot p ys)"
  by (simp add: backs_append)

text \<open>A chain has no cycle: it determines its elements, and they are pairwise different.\<close>

lemma chain_unique: "chain g p xs \<Longrightarrow> chain g p ys \<Longrightarrow> xs = ys"
proof (induction xs arbitrary: p ys)
  case Nil
  then show ?case by (cases ys) auto
next
  case (Cons x xs)
  then show ?case by (cases ys) auto
qed

lemma chain_distinct: "chain g p xs \<Longrightarrow> distinct xs"
proof (induction xs arbitrary: p)
  case Nil
  then show ?case by simp
next
  case (Cons x xs)
  have "x \<notin> set xs"
  proof
    assume "x \<in> set xs"
    then obtain ys zs where xs: "xs = ys @ x # zs" by (auto simp: in_set_conv_decomp)
    from Cons.prems have "chain g (NextOf x) xs" "chain g (NextOf x) zs"
      by (auto simp: xs chain_append)
    then have "xs = zs" by (rule chain_unique)
    then show False using xs by simp
  qed
  with Cons show ?case by auto
qed

text \<open>Frame.\<close>

lemma chain_frame:
  assumes "\<And>q. q = p \<or> q \<in> NextOf ` set xs \<Longrightarrow> g' q = g q"
  shows "chain g' p xs = chain g p xs"
  using assms by (induction xs arbitrary: p) simp_all

lemma path_frame:
  assumes "\<And>q. q \<in> set (butlast (p # map NextOf xs)) \<Longrightarrow> g' q = g q"
  shows "path g' p xs = path g p xs"
  using assms
proof (induction xs arbitrary: p)
  case Nil
  then show ?case by simp
next
  case (Cons x xs)
  have "path g' (NextOf x) xs = path g (NextOf x) xs"
    by (rule Cons.IH) (use Cons.prems in auto)
  then show ?case using Cons.prems by simp
qed

lemma backs_frame:
  assumes "\<And>x. x \<in> set xs \<Longrightarrow> b' x = b x"
  shows "backs b' p xs = backs b p xs"
  using assms by (induction xs arbitrary: p) simp_all

section \<open>Changing chains\<close>

text \<open>A chain hung from another slot.\<close>

lemma chain_rehead:
  assumes "chain g p zs" and "g' q = Some (head_of zs)" and "\<And>z. z \<in> set zs \<Longrightarrow> g' (NextOf z) = g (NextOf z)"
  shows "chain g' q zs"
proof (cases zs)
  case Nil
  then show ?thesis using assms(2) by simp
next
  case (Cons z zs')
  have "chain g' (NextOf z) zs' = chain g (NextOf z) zs'"
    by (rule chain_frame) (use assms(3) Cons in auto)
  then show ?thesis using assms Cons by simp
qed

lemma backs_rehead:
  assumes "backs b p zs" and "distinct zs" and "\<And>f. head_of zs = Some f \<Longrightarrow> b' f = Some q"
    and "\<And>z. z \<in> set zs \<Longrightarrow> head_of zs \<noteq> Some z \<Longrightarrow> b' z = b z"
  shows "backs b' q zs"
proof (cases zs)
  case Nil
  then show ?thesis by simp
next
  case (Cons z zs')
  have "backs b' (NextOf z) zs' = backs b (NextOf z) zs'"
    by (intro backs_frame assms(4)) (use assms(2) Cons in auto)
  then show ?thesis using assms Cons by simp
qed

text \<open>A new tail after the elements \<open>ys\<close>, whose inner slots are kept.\<close>

lemma chain_retail:
  assumes "chain g (FirstOf h) (ys @ zs)" and "chain g' (end_slot (FirstOf h) ys) zs'"
    and "\<And>q. q = FirstOf h \<or> q \<in> NextOf ` set ys \<Longrightarrow> q \<noteq> end_slot (FirstOf h) ys \<Longrightarrow> g' q = g q"
  shows "chain g' (FirstOf h) (ys @ zs')"
proof -
  have d: "distinct ys" using chain_distinct [OF assms(1)] by simp
  have "path g' (FirstOf h) ys = path g (FirstOf h) ys"
  proof (rule path_frame)
    fix q
    assume "q \<in> set (butlast (FirstOf h # map NextOf ys))"
    with end_slot_fresh [OF d, of h] in_set_butlastD [OF this] show "g' q = g q"
      by (intro assms(3)) auto
  qed
  then show ?thesis using assms(1,2) by (simp add: chain_append)
qed

lemma chain_splice_in:
  assumes "chain g (FirstOf h) (ys @ zs)" and "x \<notin> set (ys @ zs)"
    and "g' (end_slot (FirstOf h) ys) = Some (Some x)" and "g' (NextOf x) = Some (head_of zs)"
    and "\<And>q. q \<noteq> end_slot (FirstOf h) ys \<Longrightarrow> q \<noteq> NextOf x \<Longrightarrow> g' q = g q"
  shows "chain g' (FirstOf h) (ys @ x # zs)"
proof (rule chain_retail [OF assms(1)])
  have "distinct (ys @ zs)" by (rule chain_distinct [OF assms(1)])
  then have "NextOf z \<noteq> end_slot (FirstOf h) ys" if "z \<in> set zs" for z
    using that by (intro end_slot_outside [of ys zs]) auto
  moreover have "chain g (end_slot (FirstOf h) ys) zs" using assms(1) by (simp add: chain_append)
  ultimately have "chain g' (NextOf x) zs"
    using assms(2,4,5) by (elim chain_rehead) auto
  then show "chain g' (end_slot (FirstOf h) ys) (x # zs)" using assms(3) by simp
qed (use assms(2,5) in auto)

lemma chain_splice_out:
  assumes "chain g (FirstOf h) (ys @ x # zs)" and "g' (end_slot (FirstOf h) ys) = Some (head_of zs)"
    and "\<And>q. q \<noteq> end_slot (FirstOf h) ys \<Longrightarrow> g' q = g q"
  shows "chain g' (FirstOf h) (ys @ zs)"
proof (rule chain_retail [OF assms(1)])
  have "distinct (ys @ x # zs)" by (rule chain_distinct [OF assms(1)])
  then have "NextOf z \<noteq> end_slot (FirstOf h) ys" if "z \<in> set zs" for z
    using that by (intro end_slot_outside [of ys zs]) auto
  moreover have "chain g (NextOf x) zs" using assms(1) by (simp add: chain_append)
  ultimately show "chain g' (end_slot (FirstOf h) ys) zs"
    using assms(2,3) by (elim chain_rehead) auto
qed (use assms(3) in auto)

lemma chain_graft:
  assumes "chain g (FirstOf h) xs" and "chain g p ys" and "set xs \<inter> set ys = {}"
    and "g' (end_slot (FirstOf h) xs) = Some (head_of ys)"
    and "\<And>q. q = FirstOf h \<or> q \<in> NextOf ` set (xs @ ys) \<Longrightarrow> q \<noteq> end_slot (FirstOf h) xs \<Longrightarrow> g' q = g q"
  shows "chain g' (FirstOf h) (xs @ ys)"
proof (rule chain_retail [where zs = "[]" and g = g])
  have "NextOf y \<noteq> end_slot (FirstOf h) xs" if "y \<in> set ys" for y
    using that assms(3) by (intro end_slot_outside [of xs ys]) auto
  then show "chain g' (end_slot (FirstOf h) xs) ys"
    using assms(2,4,5) by (elim chain_rehead) auto
qed (use assms(1,5) in auto)

text \<open>The back pointers after the same changes.\<close>

lemma backs_splice_in:
  assumes "backs b (FirstOf h) (ys @ zs)" and "distinct (ys @ zs)" and "x \<notin> set (ys @ zs)"
    and "b' x = Some (end_slot (FirstOf h) ys)" and "\<And>f. head_of zs = Some f \<Longrightarrow> b' f = Some (NextOf x)"
    and "\<And>y. y \<noteq> x \<Longrightarrow> head_of zs \<noteq> Some y \<Longrightarrow> b' y = b y"
  shows "backs b' (FirstOf h) (ys @ x # zs)"
proof -
  have "backs b' (FirstOf h) ys = backs b (FirstOf h) ys"
    by (intro backs_frame assms(6)) (use assms(2,3) in \<open>auto dest: head_of_in\<close>)
  moreover have "backs b' (NextOf x) zs"
  proof (rule backs_rehead)
    show "backs b (end_slot (FirstOf h) ys) zs" using assms(1) by (simp add: backs_append)
    show "b' z = b z" if "z \<in> set zs" "head_of zs \<noteq> Some z" for z
      using that assms(3) by (intro assms(6)) auto
  qed (use assms(2,5) in auto)
  ultimately show ?thesis using assms(1,4) by (simp add: backs_append)
qed

lemma backs_graft:
  assumes "backs b (FirstOf h) xs" and "backs b p ys" and "distinct (xs @ ys)"
    and "\<And>f. head_of ys = Some f \<Longrightarrow> b' f = Some (end_slot (FirstOf h) xs)"
    and "\<And>y. y \<in> set (xs @ ys) \<Longrightarrow> head_of ys \<noteq> Some y \<Longrightarrow> b' y = b y"
  shows "backs b' (FirstOf h) (xs @ ys)"
proof -
  have "backs b' (FirstOf h) xs = backs b (FirstOf h) xs"
    by (intro backs_frame assms(5)) (use assms(3) in \<open>auto dest: head_of_in\<close>)
  moreover have "backs b' (end_slot (FirstOf h) xs) ys"
    by (rule backs_rehead [OF assms(2)]) (use assms(3-5) in auto)
  ultimately show ?thesis using assms(1) by (simp add: backs_append)
qed

lemma backs_splice_out:
  assumes "backs b (FirstOf h) (ys @ x # zs)" and "distinct (ys @ x # zs)"
    and "\<And>f. head_of zs = Some f \<Longrightarrow> b' f = Some (end_slot (FirstOf h) ys)"
    and "\<And>y. y \<noteq> x \<Longrightarrow> head_of zs \<noteq> Some y \<Longrightarrow> b' y = b y"
  shows "backs b' (FirstOf h) (ys @ zs)"
proof (rule backs_graft)
  show "backs b (FirstOf h) ys" "backs b (NextOf x) zs" using assms(1) by (simp_all add: backs_append)
  show "b' y = b y" if "y \<in> set (ys @ zs)" "head_of zs \<noteq> Some y" for y
    using that assms(2) by (intro assms(4)) auto
qed (use assms(2,3) in auto)

end
