(* ===== verification/Intrusive_Lists.thy ===== *)
theory Intrusive_Lists
  imports Link_Chains "HOL-Library.Monad_Syntax"
begin

text \<open>
  What the four list families of \<open>server/queue.h\<close> have in common. Elements are nodes at
  addresses; \<open>None\<close> is the NULL pointer; an access to a node that is not allocated makes an
  operation return \<open>None\<close>. The iteration macros are the same text in every family, over its
  \<open>FIRST\<close> and \<open>NEXT\<close>, so they are modelled once. Three locales state the contract of a family:
  \<open>list_walk\<close> a represented list and its successor function, \<open>intrusive_list\<close> what each macro
  does to the represented list, \<open>tail_queue\<close> insertion at the tail and the last element. They
  derive what their users need: visiting a list, removing elements while visiting it, building it,
  and that a tail queue is first-in first-out.
\<close>

section \<open>Iteration macros\<close>

text \<open>
  \<open>FOREACH\<close> reads the successor of the current element after the body has run,
  \<open>FOREACH_SAFE\<close> before it. A traversal of a cyclic chain does not end: the result is then
  \<open>None\<close>, and \<open>Some None\<close> is an access to a node that is not allocated. The last line of the
  macro arguments is the element the loop variable points to.
\<close>

partial_function (option) FOREACH_FROM ::
    "('s \<Rightarrow> nat \<Rightarrow> nat option option) \<Rightarrow> (nat \<Rightarrow> 's \<Rightarrow> 's option) \<Rightarrow> nat option \<Rightarrow> 's \<Rightarrow> 's option option" where
  "FOREACH_FROM nxt body var s =
     (case var of
        None \<Rightarrow> Some (Some s)
      | Some x \<Rightarrow>
          (case body x s of
             None \<Rightarrow> Some None
           | Some s' \<Rightarrow>
               (case nxt s' x of
                  None \<Rightarrow> Some None
                | Some var' \<Rightarrow> FOREACH_FROM nxt body var' s')))"

partial_function (option) FOREACH_FROM_SAFE ::
    "('s \<Rightarrow> nat \<Rightarrow> nat option option) \<Rightarrow> (nat \<Rightarrow> 's \<Rightarrow> 's option) \<Rightarrow> nat option \<Rightarrow> 's \<Rightarrow> 's option option" where
  "FOREACH_FROM_SAFE nxt body var s =
     (case var of
        None \<Rightarrow> Some (Some s)
      | Some x \<Rightarrow>
          (case nxt s x of
             None \<Rightarrow> Some None
           | Some tvar \<Rightarrow>
               (case body x s of
                  None \<Rightarrow> Some None
                | Some s' \<Rightarrow> FOREACH_FROM_SAFE nxt body tvar s')))"

lemma FOREACH_FROM_simps [simp]:
  "FOREACH_FROM nxt body None s = Some (Some s)"
  "FOREACH_FROM nxt body (Some x) s =
     (case body x s of None \<Rightarrow> Some None | Some s' \<Rightarrow>
        (case nxt s' x of None \<Rightarrow> Some None | Some v \<Rightarrow> FOREACH_FROM nxt body v s'))"
  by (subst FOREACH_FROM.simps, simp)+

lemma FOREACH_FROM_SAFE_simps [simp]:
  "FOREACH_FROM_SAFE nxt body None s = Some (Some s)"
  "FOREACH_FROM_SAFE nxt body (Some x) s =
     (case nxt s x of None \<Rightarrow> Some None | Some v \<Rightarrow>
        (case body x s of None \<Rightarrow> Some None | Some s' \<Rightarrow> FOREACH_FROM_SAFE nxt body v s'))"
  by (subst FOREACH_FROM_SAFE.simps, simp)+

section \<open>Walks inside the macros\<close>

text \<open>
  The removal from a singly linked list walks to the element whose next pointer is \<open>elm\<close>, the
  concatenation to the last element. Reading the next pointer of NULL or of an element that is not
  allocated is \<open>Some None\<close>; on a cyclic chain the walk does not end (\<open>None\<close>).
\<close>

partial_function (option) find_prev :: "(nat \<Rightarrow> nat option option) \<Rightarrow> nat option \<Rightarrow> nat \<Rightarrow> nat option option" where
  "find_prev nxt curelm elm =
     (case curelm of
        None \<Rightarrow> Some None
      | Some c \<Rightarrow>
          (case nxt c of
             None \<Rightarrow> Some None
           | Some n \<Rightarrow> if n = Some elm then Some (Some c) else find_prev nxt n elm))"

partial_function (option) last_from :: "(nat \<Rightarrow> nat option option) \<Rightarrow> nat \<Rightarrow> nat option option" where
  "last_from nxt curelm =
     (case nxt curelm of
        None \<Rightarrow> Some None
      | Some None \<Rightarrow> Some (Some curelm)
      | Some (Some n) \<Rightarrow> last_from nxt n)"

lemma find_prev_simps:
  "find_prev nxt None x = Some None"
  "find_prev nxt (Some c) x =
     (case nxt c of None \<Rightarrow> Some None | Some n \<Rightarrow> if n = Some x then Some (Some c) else find_prev nxt n x)"
  by (subst find_prev.simps, simp)+

lemma find_prev_present:
  "chain g (NextOf c) (us @ x # vs) \<Longrightarrow> x \<notin> set us \<Longrightarrow>
    find_prev (\<lambda>x. g (NextOf x)) (Some c) x = Some (Some (last (c # us)))"
  by (induction us arbitrary: c) (auto simp: find_prev_simps)

lemma find_prev_absent:
  "chain g p us \<Longrightarrow> x \<notin> set us \<Longrightarrow> find_prev (\<lambda>x. g (NextOf x)) (head_of us) x = Some None"
proof (induction us arbitrary: p)
  case Nil
  then show ?case by (simp add: find_prev_simps)
next
  case (Cons u us)
  then have "g (NextOf u) = Some (head_of us)" by (auto dest: chain_head)
  then show ?case using Cons by (auto simp: find_prev_simps dest: head_of_in)
qed

lemma last_from_chain:
  "chain g (NextOf x) xs \<Longrightarrow> last_from (\<lambda>x. g (NextOf x)) x = Some (Some (last (x # xs)))"
  by (induction xs arbitrary: x) (subst last_from.simps, simp)+

section \<open>Loop bodies\<close>

text \<open>The starting element of the \<open>_FROM\<close> variants: the loop variable itself unless it is NULL.\<close>

definition foreach_start :: "nat option \<Rightarrow> nat option \<Rightarrow> nat option" where
  "foreach_start var first = (case var of None \<Rightarrow> first | Some x \<Rightarrow> Some x)"

lemma foreach_start_simps [simp]:
  "foreach_start None first = first" "foreach_start (Some x) first = Some x"
  by (simp_all add: foreach_start_def)

text \<open>Loop bodies that record the elements they see, and that remove the elements with a property.\<close>

definition collect :: "nat \<Rightarrow> 's \<times> nat list \<Rightarrow> ('s \<times> nat list) option" where
  "collect x = (\<lambda>(s, acc). Some (s, acc @ [x]))"

definition remove_if :: "('s \<Rightarrow> nat \<Rightarrow> 's option) \<Rightarrow> (nat \<Rightarrow> bool) \<Rightarrow> nat \<Rightarrow> 's \<Rightarrow> 's option" where
  "remove_if remove P x s = (if P x then remove s x else Some s)"

section \<open>Walking along a list\<close>

text \<open>
  A step function along the represented elements; the forward and the reverse iteration macros are
  walks in the two directions.
\<close>

locale list_walk =
  fixes rep :: "'s \<Rightarrow> nat list \<Rightarrow> bool"
    and nxt :: "'s \<Rightarrow> nat \<Rightarrow> nat option option"
  assumes rep_next: "rep s (ys @ x # zs) \<Longrightarrow> nxt s x = Some (head_of zs)"
begin

text \<open>Visiting a list that the body does not change, collecting what is seen.\<close>

lemma visit_from:
  "rep s (ys @ zs) \<Longrightarrow>
    FOREACH_FROM (\<lambda>c. nxt (fst c)) collect (head_of zs) (s, acc) = Some (Some (s, acc @ zs))"
proof (induction zs arbitrary: ys acc)
  case Nil
  then show ?case by simp
next
  case (Cons z zs)
  from rep_next [OF Cons.prems] have n: "nxt s z = Some (head_of zs)" .
  from Cons.IH [of "ys @ [z]" "acc @ [z]"] Cons.prems show ?case by (simp add: n collect_def)
qed

text \<open>With the safe variant, which reads the links earlier, the same elements are seen.\<close>

lemma visit_safe_from:
  "rep s (ys @ zs) \<Longrightarrow>
    FOREACH_FROM_SAFE (\<lambda>c. nxt (fst c)) collect (head_of zs) (s, acc) = Some (Some (s, acc @ zs))"
proof (induction zs arbitrary: ys acc)
  case Nil
  then show ?case by simp
next
  case (Cons z zs)
  from rep_next [OF Cons.prems] have n: "nxt s z = Some (head_of zs)" .
  from Cons.IH [of "ys @ [z]" "acc @ [z]"] Cons.prems show ?case by (simp add: n collect_def)
qed

text \<open>
  The safe iteration with a body that keeps an invariant and either leaves the list as it is or
  takes the current element out of it: it ends, and the elements that satisfy \<open>P\<close> are gone.
\<close>

lemma safe_filter_from:
  assumes body: "\<And>s ys x zs. rep s (ys @ x # zs) \<Longrightarrow> I s \<Longrightarrow>
      \<exists>s'. body x s = Some s' \<and> I s' \<and> rep s' (ys @ (if P x then [] else [x]) @ zs)"
  shows "rep s (ys @ zs) \<Longrightarrow> I s \<Longrightarrow>
    \<exists>s'. FOREACH_FROM_SAFE nxt body (head_of zs) s = Some (Some s') \<and> I s' \<and>
      rep s' (ys @ filter (\<lambda>x. \<not> P x) zs)"
proof (induction zs arbitrary: ys s)
  case Nil
  then show ?case by simp
next
  case (Cons z zs)
  from rep_next [OF Cons.prems(1)] have n: "nxt s z = Some (head_of zs)" .
  from body [OF Cons.prems] obtain s1 where
    s1: "body z s = Some s1" "I s1" "rep s1 ((ys @ (if P z then [] else [z])) @ zs)" by auto
  from Cons.IH [OF s1(3,2)] n s1(1) show ?case by auto
qed

end

section \<open>The contract of a list family\<close>

locale intrusive_list = list_walk rep nxt
  for rep :: "'s \<Rightarrow> nat list \<Rightarrow> bool" and nxt :: "'s \<Rightarrow> nat \<Rightarrow> nat option option" +
  fixes live :: "'s \<Rightarrow> nat set"
    and make_empty :: "'s \<Rightarrow> 's"
    and first :: "'s \<Rightarrow> nat option"
    and insert_head :: "'s \<Rightarrow> nat \<Rightarrow> 's option"
    and insert_after :: "'s \<Rightarrow> nat \<Rightarrow> nat \<Rightarrow> 's option"
    and remove :: "'s \<Rightarrow> nat \<Rightarrow> 's option"
  assumes rep_empty: "rep (make_empty s) [] \<and> live (make_empty s) = live s"
    and rep_first: "rep s xs \<Longrightarrow> first s = head_of xs"
    and rep_live: "rep s xs \<Longrightarrow> set xs \<subseteq> live s \<and> distinct xs"
    and rep_insert_head: "rep s xs \<Longrightarrow> x \<in> live s \<Longrightarrow> x \<notin> set xs \<Longrightarrow>
      \<exists>s'. insert_head s x = Some s' \<and> rep s' (x # xs) \<and> live s' = live s"
    and rep_insert_after: "rep s (ys @ y # zs) \<Longrightarrow> x \<in> live s \<Longrightarrow> x \<notin> set (ys @ y # zs) \<Longrightarrow>
      \<exists>s'. insert_after s y x = Some s' \<and> rep s' (ys @ y # x # zs) \<and> live s' = live s"
    and rep_remove: "rep s (ys @ x # zs) \<Longrightarrow>
      \<exists>s'. remove s x = Some s' \<and> rep s' (ys @ zs) \<and> live s' = live s"
begin

lemma build_from:
  "rep s xs \<Longrightarrow> set ys \<subseteq> live s \<Longrightarrow> distinct ys \<Longrightarrow> set ys \<inter> set xs = {} \<Longrightarrow>
    \<exists>s'. ofold insert_head s ys = Some s' \<and> rep s' (rev ys @ xs) \<and> live s' = live s"
proof (induction ys arbitrary: s xs)
  case Nil
  then show ?case by simp
next
  case (Cons y ys)
  from rep_insert_head [OF Cons.prems(1), of y] Cons.prems obtain s1 where
    s1: "insert_head s y = Some s1" "rep s1 (y # xs)" "live s1 = live s" by auto
  from Cons.IH [OF s1(2)] Cons.prems s1(3) obtain s' where
    "ofold insert_head s1 ys = Some s'" "rep s' (rev ys @ y # xs)" "live s' = live s" by auto
  with s1(1) show ?case by auto
qed

lemma build:
  assumes "set ys \<subseteq> live s" and "distinct ys"
  shows "\<exists>s'. ofold insert_head (make_empty s) ys = Some s' \<and> rep s' (rev ys) \<and> live s' = live s"
  using build_from [of "make_empty s" "[]" ys] rep_empty [of s] assms by auto

lemma visit:
  "rep s xs \<Longrightarrow>
    FOREACH_FROM (\<lambda>c. nxt (fst c)) collect (first s) (s, []) = Some (Some (s, xs))"
  using visit_from [of s "[]" xs "[]"] by (simp add: rep_first)

lemma safe_filter:
  assumes "\<And>s ys x zs. rep s (ys @ x # zs) \<Longrightarrow> I s \<Longrightarrow>
      \<exists>s'. body x s = Some s' \<and> I s' \<and> rep s' (ys @ (if P x then [] else [x]) @ zs)"
    and "rep s xs" and "I s"
  shows "\<exists>s'. FOREACH_FROM_SAFE nxt body (first s) s = Some (Some s') \<and> I s' \<and>
      rep s' (filter (\<lambda>x. \<not> P x) xs)"
proof -
  have "rep s ([] @ xs)" using assms(2) by simp
  from safe_filter_from [OF assms(1) this assms(3)] show ?thesis
    by (simp add: rep_first [OF assms(2)])
qed

text \<open>The same with the removal macro itself as the body, from any element on.\<close>

lemma safe_remove_from:
  assumes "rep s (ys @ zs)"
  shows "\<exists>s'. FOREACH_FROM_SAFE nxt (remove_if remove P) (head_of zs) s = Some (Some s') \<and> live s' = live s \<and>
      rep s' (ys @ filter (\<lambda>x. \<not> P x) zs)"
proof (rule safe_filter_from [OF _ assms])
  fix t us x vs
  assume "rep t (us @ x # vs)" "live t = live s"
  with rep_remove [of t us x vs]
  show "\<exists>t'. remove_if remove P x t = Some t' \<and> live t' = live s \<and> rep t' (us @ (if P x then [] else [x]) @ vs)"
    by (auto simp: remove_if_def)
qed simp

end

text \<open>
  What the properties of the families say of an operation with two lists around: it succeeded, the
  two heads now represent the given lists, and no element was allocated or freed. The result of an
  operation that walks is \<open>ended\<close> when the walk came to an end.
\<close>

definition op_yields ::
    "(nat \<Rightarrow> 's \<Rightarrow> nat list \<Rightarrow> bool) \<Rightarrow> ('s \<Rightarrow> nat set) \<Rightarrow> 's \<Rightarrow> 's option \<Rightarrow> nat \<Rightarrow> nat list \<Rightarrow> nat \<Rightarrow> nat list \<Rightarrow> bool" where
  "op_yields rep live s r h xs h' ws \<longleftrightarrow> (\<exists>s'. r = Some s' \<and> rep h s' xs \<and> rep h' s' ws \<and> live s' = live s)"

abbreviation ended :: "'a option option \<Rightarrow> 'a option" where
  "ended r \<equiv> Option.bind r (\<lambda>r'. r')"

lemma op_yieldsI:
  assumes "\<exists>s'. r = Some s' \<and> rep h s' xs \<and> live s' = live s \<and>
      (\<forall>h' ws. h' \<noteq> h \<longrightarrow> set ws \<inter> A = {} \<longrightarrow> rep h' s ws \<longrightarrow> rep h' s' ws)"
    and "rep h' s ws" and "h' \<noteq> h" and "set ws \<inter> A = {}"
  shows "op_yields rep live s r h xs h' ws"
  using assms by (auto simp: op_yields_def)

section \<open>Queues\<close>

text \<open>
  The families whose heads also point to the end of the list insert at the tail in constant time:
  with removal from the head they are first-in first-out queues. The specification runs the
  operations on a list; an element may be queued once at a time.
\<close>

datatype queue_op = Enqueue nat | Dequeue

fun queue_step :: "nat list \<times> nat list \<Rightarrow> queue_op \<Rightarrow> (nat list \<times> nat list) option" where
  "queue_step (xs, out) (Enqueue x) = (if x \<in> set xs then None else Some (xs @ [x], out))"
| "queue_step ([], out) Dequeue = None"
| "queue_step (x # xs, out) Dequeue = Some (xs, out @ [x])"

fun enqueued :: "queue_op list \<Rightarrow> nat list" where
  "enqueued [] = []"
| "enqueued (Enqueue x # ops) = x # enqueued ops"
| "enqueued (Dequeue # ops) = enqueued ops"

lemma queue_fifo: "ofold queue_step (xs, out) ops = Some (ys, out') \<Longrightarrow> out' @ ys = out @ xs @ enqueued ops"
proof (induction ops arbitrary: xs out)
  case Nil
  then show ?case by simp
next
  case (Cons op ops)
  then obtain xs1 out1 where "queue_step (xs, out) op = Some (xs1, out1)"
    "ofold queue_step (xs1, out1) ops = Some (ys, out')" by (auto split: bind_splits)
  with Cons.IH [of xs1 out1] show ?case
    by (cases "((xs, out), op)" rule: queue_step.cases) (auto split: if_splits)
qed

text \<open>One operation on a store: a dequeue reads the first element and takes it out.\<close>

definition store_step ::
    "('s \<Rightarrow> nat option) \<Rightarrow> ('s \<Rightarrow> nat \<Rightarrow> 's option) \<Rightarrow> ('s \<Rightarrow> 's option) \<Rightarrow> 's \<times> nat list \<Rightarrow> queue_op \<Rightarrow> ('s \<times> nat list) option" where
  "store_step first insert_tail remove_first = (\<lambda>(s, out) op.
     case op of
       Enqueue x \<Rightarrow> map_option (\<lambda>s'. (s', out)) (insert_tail s x)
     | Dequeue \<Rightarrow>
         (case first s of
            None \<Rightarrow> None
          | Some x \<Rightarrow> map_option (\<lambda>s'. (s', out @ [x])) (remove_first s)))"

locale tail_queue = intrusive_list +
  fixes insert_tail :: "'a \<Rightarrow> nat \<Rightarrow> 'a option"
    and last_elem :: "'a \<Rightarrow> nat option option"
    and remove_first :: "'a \<Rightarrow> 'a option"
  assumes rep_insert_tail: "rep s xs \<Longrightarrow> x \<in> live s \<Longrightarrow> x \<notin> set xs \<Longrightarrow>
      \<exists>s'. insert_tail s x = Some s' \<and> rep s' (xs @ [x]) \<and> live s' = live s"
    and rep_last: "rep s xs \<Longrightarrow> last_elem s = Some (if xs = [] then None else Some (last xs))"
    and rep_remove_first: "rep s (x # xs) \<Longrightarrow>
      \<exists>s'. remove_first s = Some s' \<and> rep s' xs \<and> live s' = live s"
begin

lemma queue_step_refines:
  assumes "rep s xs" and "queue_step (xs, out) op = Some (ys, out')" and "set (enqueued [op]) \<subseteq> live s"
  shows "\<exists>s'. store_step first insert_tail remove_first (s, out) op = Some (s', out') \<and> rep s' ys \<and> live s' = live s"
proof (cases op)
  case (Enqueue x)
  then have "x \<notin> set xs" "ys = xs @ [x]" "out' = out" "x \<in> live s"
    using assms(2,3) by (auto split: if_splits)
  with rep_insert_tail [OF assms(1), of x] Enqueue show ?thesis by (auto simp: store_step_def)
next
  case Dequeue
  then obtain x where xs: "xs = x # ys" and out: "out' = out @ [x]" using assms(2) by (cases xs) auto
  with rep_remove_first [of s x ys] rep_first [OF assms(1)] assms(1) Dequeue show ?thesis
    by (auto simp: store_step_def)
qed

lemma queue_run_refines:
  assumes "rep s xs" and "ofold queue_step (xs, out) ops = Some (ys, out')" and "set (enqueued ops) \<subseteq> live s"
  shows "\<exists>s'. ofold (store_step first insert_tail remove_first) (s, out) ops = Some (s', out') \<and> rep s' ys \<and>
    live s' = live s"
  using assms
proof (induction ops arbitrary: s xs out)
  case Nil
  then show ?case by simp
next
  case (Cons op ops)
  from Cons.prems(2) obtain xs1 out1 where 1: "queue_step (xs, out) op = Some (xs1, out1)"
    and 2: "ofold queue_step (xs1, out1) ops = Some (ys, out')" by (auto split: bind_splits)
  have e: "set (enqueued [op]) \<subseteq> live s" "set (enqueued ops) \<subseteq> live s"
    using Cons.prems(3) by (cases op; simp)+
  from queue_step_refines [OF Cons.prems(1) 1 e(1)] obtain s1 where
    s1: "store_step first insert_tail remove_first (s, out) op = Some (s1, out1)" "rep s1 xs1" "live s1 = live s" by blast
  from Cons.IH [OF s1(2) 2] e(2) s1 show ?case by auto
qed

end

end
