(* ===== verification/Queue_List.thy ===== *)
theory Queue_List
  imports Intrusive_Lists
begin

text \<open>
  The doubly linked \<open>LIST\<close> family of \<open>server/queue.h\<close>, which the server keeps its
  connection threads in. An element holds the address of the next element and the address of the
  pointer that points to it; that pointer is either the first pointer of a head or the next pointer
  of another element. The macros are translated statement by statement; the link trashing of the debug
  configuration is in \<open>Queue_Debug\<close>; the consistency checks of the \<open>INVARIANTS\<close> configuration are
  predicates of their own.
\<close>

section \<open>Declarations\<close>

record list_entry =
  le_next :: "nat option"
  le_prev :: slot

record list_store =
  lh_first :: "nat \<Rightarrow> nat option"
  list_nodes :: "nat \<rightharpoonup> list_entry"

text \<open>Assignments through an element pointer and through a pointer to a pointer.\<close>

definition put_next :: "list_store \<Rightarrow> nat \<Rightarrow> nat option \<Rightarrow> list_store option" where
  "put_next s x v =
     (case list_nodes s x of
        None \<Rightarrow> None
      | Some e \<Rightarrow> Some (s\<lparr>list_nodes := (list_nodes s)(x \<mapsto> e\<lparr>le_next := v\<rparr>)\<rparr>))"

definition put_prev :: "list_store \<Rightarrow> nat \<Rightarrow> slot \<Rightarrow> list_store option" where
  "put_prev s x v =
     (case list_nodes s x of
        None \<Rightarrow> None
      | Some e \<Rightarrow> Some (s\<lparr>list_nodes := (list_nodes s)(x \<mapsto> e\<lparr>le_prev := v\<rparr>)\<rparr>))"

definition put_first :: "list_store \<Rightarrow> nat \<Rightarrow> nat option \<Rightarrow> list_store" where
  "put_first s h v = s\<lparr>lh_first := (lh_first s)(h := v)\<rparr>"

definition put_slot :: "list_store \<Rightarrow> slot \<Rightarrow> nat option \<Rightarrow> list_store option" where
  "put_slot s p v = (case p of FirstOf h \<Rightarrow> Some (put_first s h v) | NextOf x \<Rightarrow> put_next s x v)"

section \<open>Macros\<close>

definition LIST_FIRST :: "list_store \<Rightarrow> nat \<Rightarrow> nat option" where
  "LIST_FIRST s head = lh_first s head"

definition LIST_EMPTY :: "list_store \<Rightarrow> nat \<Rightarrow> bool" where
  "LIST_EMPTY s head \<longleftrightarrow> lh_first s head = None"

definition LIST_NEXT :: "list_store \<Rightarrow> nat \<Rightarrow> nat option option" where
  "LIST_NEXT s elm = map_option le_next (list_nodes s elm)"

definition get_prev :: "list_store \<Rightarrow> nat \<Rightarrow> slot option" where
  "get_prev s elm = map_option le_prev (list_nodes s elm)"

text \<open>The element that contains the pointer \<open>le_prev\<close> points to.\<close>

definition LIST_PREV :: "list_store \<Rightarrow> nat \<Rightarrow> nat \<Rightarrow> nat option option" where
  "LIST_PREV s elm head =
     (case get_prev s elm of
        None \<Rightarrow> None
      | Some p \<Rightarrow>
          (if p = FirstOf head then Some None
           else case p of NextOf x \<Rightarrow> Some (Some x) | FirstOf _ \<Rightarrow> None))"

definition LIST_INIT :: "list_store \<Rightarrow> nat \<Rightarrow> list_store" where
  "LIST_INIT s head = put_first s head None"

definition LIST_INSERT_HEAD :: "list_store \<Rightarrow> nat \<Rightarrow> nat \<Rightarrow> list_store option" where
  "LIST_INSERT_HEAD s head elm = do {
     s1 \<leftarrow> put_next s elm (LIST_FIRST s head);
     s2 \<leftarrow> (case LIST_FIRST s head of
              None \<Rightarrow> Some s1
            | Some f \<Rightarrow> put_prev s1 f (NextOf elm));
     let s3 = put_first s2 head (Some elm);
     put_prev s3 elm (FirstOf head)
   }"

definition LIST_INSERT_AFTER :: "list_store \<Rightarrow> nat \<Rightarrow> nat \<Rightarrow> list_store option" where
  "LIST_INSERT_AFTER s listelm elm = do {
     n \<leftarrow> LIST_NEXT s listelm;
     s1 \<leftarrow> put_next s elm n;
     s2 \<leftarrow> (case n of
              None \<Rightarrow> Some s1
            | Some f \<Rightarrow> put_prev s1 f (NextOf elm));
     s3 \<leftarrow> put_next s2 listelm (Some elm);
     put_prev s3 elm (NextOf listelm)
   }"

definition LIST_INSERT_BEFORE :: "list_store \<Rightarrow> nat \<Rightarrow> nat \<Rightarrow> list_store option" where
  "LIST_INSERT_BEFORE s listelm elm = do {
     p \<leftarrow> get_prev s listelm;
     s1 \<leftarrow> put_prev s elm p;
     s2 \<leftarrow> put_next s1 elm (Some listelm);
     p2 \<leftarrow> get_prev s2 listelm;
     s3 \<leftarrow> put_slot s2 p2 (Some elm);
     put_prev s3 listelm (NextOf elm)
   }"

definition LIST_REMOVE :: "list_store \<Rightarrow> nat \<Rightarrow> list_store option" where
  "LIST_REMOVE s elm = do {
     n \<leftarrow> LIST_NEXT s elm;
     p \<leftarrow> get_prev s elm;
     s1 \<leftarrow> (case n of
              None \<Rightarrow> Some s
            | Some f \<Rightarrow> put_prev s f p);
     put_slot s1 p n
   }"

definition LIST_SWAP :: "list_store \<Rightarrow> nat \<Rightarrow> nat \<Rightarrow> list_store option" where
  "LIST_SWAP s head1 head2 =
     (let swap_tmp = LIST_FIRST s head1;
          s1 = put_first s head1 (LIST_FIRST s head2);
          s2 = put_first s1 head2 swap_tmp
      in do {
        s3 \<leftarrow> (case LIST_FIRST s2 head1 of
                 None \<Rightarrow> Some s2
               | Some f \<Rightarrow> put_prev s2 f (FirstOf head1));
        (case LIST_FIRST s3 head2 of
           None \<Rightarrow> Some s3
         | Some f \<Rightarrow> put_prev s3 f (FirstOf head2))
      })"

text \<open>
  The concatenation walks to the last element of the first list; on a cyclic chain the walk does not
  end (\<open>None\<close>).
\<close>

definition list_last_from :: "list_store \<Rightarrow> nat \<Rightarrow> nat option option" where
  "list_last_from s curelm = last_from (LIST_NEXT s) curelm"

definition LIST_CONCAT :: "list_store \<Rightarrow> nat \<Rightarrow> nat \<Rightarrow> list_store option option" where
  "LIST_CONCAT s head1 head2 =
     (case LIST_FIRST s head1 of
        None \<Rightarrow>
          (let s1 = put_first s head1 (LIST_FIRST s head2) in
           Some (case LIST_FIRST s head2 of
              None \<Rightarrow> Some s1
            | Some f \<Rightarrow> map_option (\<lambda>s2. LIST_INIT s2 head2) (put_prev s1 f (FirstOf head1))))
      | Some curelm \<Rightarrow>
          (case LIST_FIRST s head2 of
             None \<Rightarrow> Some (Some s)
           | Some f \<Rightarrow>
               (case list_last_from s curelm of
                  None \<Rightarrow> None
                | Some None \<Rightarrow> Some None
                | Some (Some l) \<Rightarrow> Some (do {
                    s1 \<leftarrow> put_next s l (Some f);
                    s2 \<leftarrow> put_prev s1 f (NextOf l);
                    Some (LIST_INIT s2 head2)
                  }))))"

text \<open>
  The iteration macros; \<open>st\<close> is the store as the state of the surrounding code holds it.
\<close>

definition LIST_FOREACH ::
    "('c \<Rightarrow> list_store) \<Rightarrow> (nat \<Rightarrow> 'c \<Rightarrow> 'c option) \<Rightarrow> nat \<Rightarrow> 'c \<Rightarrow> 'c option option" where
  "LIST_FOREACH st body head c = FOREACH_FROM (\<lambda>c. LIST_NEXT (st c)) body (LIST_FIRST (st c) head) c"

definition LIST_FOREACH_FROM ::
    "('c \<Rightarrow> list_store) \<Rightarrow> (nat \<Rightarrow> 'c \<Rightarrow> 'c option) \<Rightarrow> nat option \<Rightarrow> nat \<Rightarrow> 'c \<Rightarrow> 'c option option" where
  "LIST_FOREACH_FROM st body var head c =
     FOREACH_FROM (\<lambda>c. LIST_NEXT (st c)) body (foreach_start var (LIST_FIRST (st c) head)) c"

definition LIST_FOREACH_SAFE ::
    "('c \<Rightarrow> list_store) \<Rightarrow> (nat \<Rightarrow> 'c \<Rightarrow> 'c option) \<Rightarrow> nat \<Rightarrow> 'c \<Rightarrow> 'c option option" where
  "LIST_FOREACH_SAFE st body head c = FOREACH_FROM_SAFE (\<lambda>c. LIST_NEXT (st c)) body (LIST_FIRST (st c) head) c"

definition LIST_FOREACH_FROM_SAFE ::
    "('c \<Rightarrow> list_store) \<Rightarrow> (nat \<Rightarrow> 'c \<Rightarrow> 'c option) \<Rightarrow> nat option \<Rightarrow> nat \<Rightarrow> 'c \<Rightarrow> 'c option option" where
  "LIST_FOREACH_FROM_SAFE st body var head c =
     FOREACH_FROM_SAFE (\<lambda>c. LIST_NEXT (st c)) body (foreach_start var (LIST_FIRST (st c) head)) c"

text \<open>
  The consistency checks of the \<open>INVARIANTS\<close> configuration: \<open>Some True\<close> passes,
  \<open>Some False\<close> is the panic and \<open>None\<close> an access to an element that is not allocated.
\<close>

definition QMD_LIST_CHECK_HEAD :: "list_store \<Rightarrow> nat \<Rightarrow> bool option" where
  "QMD_LIST_CHECK_HEAD s head =
     (case LIST_FIRST s head of
        None \<Rightarrow> Some True
      | Some f \<Rightarrow> map_option (\<lambda>p. p = FirstOf head) (get_prev s f))"

definition QMD_LIST_CHECK_NEXT :: "list_store \<Rightarrow> nat \<Rightarrow> bool option" where
  "QMD_LIST_CHECK_NEXT s elm =
     (case LIST_NEXT s elm of
        None \<Rightarrow> None
      | Some None \<Rightarrow> Some True
      | Some (Some n) \<Rightarrow> map_option (\<lambda>p. p = NextOf elm) (get_prev s n))"

definition QMD_LIST_CHECK_PREV :: "list_store \<Rightarrow> nat \<Rightarrow> bool option" where
  "QMD_LIST_CHECK_PREV s elm =
     (case get_prev s elm of
        None \<Rightarrow> None
      | Some p \<Rightarrow> map_option (\<lambda>n. n = Some elm)
          (case p of FirstOf h \<Rightarrow> Some (LIST_FIRST s h) | NextOf x \<Rightarrow> LIST_NEXT s x))"

section \<open>Reading and writing links\<close>

text \<open>
  Every macro only reads and writes links; a store is observed through the contents of its pointer
  slots and the back pointers of its elements. On allocated elements the assignments are total
  updates of these.
\<close>

definition get_slot :: "list_store \<Rightarrow> slot \<Rightarrow> nat option option" where
  "get_slot s p = (case p of FirstOf h \<Rightarrow> Some (lh_first s h) | NextOf x \<Rightarrow> LIST_NEXT s x)"

definition list_live :: "list_store \<Rightarrow> nat set" where
  "list_live s = dom (list_nodes s)"

definition set_next :: "list_store \<Rightarrow> nat \<Rightarrow> nat option \<Rightarrow> list_store" where
  "set_next s x v = s\<lparr>list_nodes := (list_nodes s)(x := map_option (\<lambda>e. e\<lparr>le_next := v\<rparr>) (list_nodes s x))\<rparr>"

definition set_prev :: "list_store \<Rightarrow> nat \<Rightarrow> slot \<Rightarrow> list_store" where
  "set_prev s x v = s\<lparr>list_nodes := (list_nodes s)(x := map_option (\<lambda>e. e\<lparr>le_prev := v\<rparr>) (list_nodes s x))\<rparr>"

definition set_slot :: "list_store \<Rightarrow> slot \<Rightarrow> nat option \<Rightarrow> list_store" where
  "set_slot s p v = (case p of FirstOf h \<Rightarrow> put_first s h v | NextOf x \<Rightarrow> set_next s x v)"

definition set_prev_opt :: "list_store \<Rightarrow> nat option \<Rightarrow> slot \<Rightarrow> list_store" where
  "set_prev_opt s n v = (case n of None \<Rightarrow> s | Some f \<Rightarrow> set_prev s f v)"

lemmas list_store_defs = get_slot_def LIST_NEXT_def get_prev_def list_live_def set_next_def set_prev_def
  set_slot_def set_prev_opt_def put_next_def put_prev_def put_first_def put_slot_def

lemma LIST_NEXT_slot: "LIST_NEXT s x = get_slot s (NextOf x)"
  and LIST_FIRST_slot: "get_slot s (FirstOf h) = Some (LIST_FIRST s h)"
  by (simp_all add: get_slot_def LIST_FIRST_def)

lemma list_live_iff: "x \<in> list_live s \<longleftrightarrow> get_slot s (NextOf x) \<noteq> None"
  by (auto simp: list_store_defs)

lemma put_live [simp]:
  "x \<in> list_live s \<Longrightarrow> put_next s x v = Some (set_next s x v)"
  "x \<in> list_live s \<Longrightarrow> put_prev s x p = Some (set_prev s x p)"
  "get_slot s p \<noteq> None \<Longrightarrow> put_slot s p v = Some (set_slot s p v)"
  by (auto simp: list_store_defs split: slot.splits)

lemma put_prev_opt [simp]:
  "(\<And>f. n = Some f \<Longrightarrow> f \<in> list_live s) \<Longrightarrow>
    (case n of None \<Rightarrow> Some s | Some f \<Rightarrow> put_prev s f p) = Some (set_prev_opt s n p)"
  by (auto simp: set_prev_opt_def split: option.splits)

lemma list_live_set [simp]:
  "list_live (set_next s x v) = list_live s" "list_live (set_prev s x p) = list_live s"
  "list_live (put_first s h v) = list_live s" "list_live (set_slot s q v) = list_live s"
  "list_live (set_prev_opt s n p) = list_live s"
  by (auto simp: list_store_defs split: slot.splits option.splits if_splits)

lemma get_slot_set [simp]:
  "x \<in> list_live s \<Longrightarrow> get_slot (set_next s x v) = (get_slot s)(NextOf x := Some v)"
  "get_slot (put_first s h v) = (get_slot s)(FirstOf h := Some v)"
  "get_slot s q \<noteq> None \<Longrightarrow> get_slot (set_slot s q v) = (get_slot s)(q := Some v)"
  "get_slot (set_prev s x p) = get_slot s" "get_slot (set_prev_opt s n p) = get_slot s"
  by (auto simp: list_store_defs fun_eq_iff option.map_comp o_def split: slot.splits option.splits)

lemma get_prev_set [simp]:
  "x \<in> list_live s \<Longrightarrow> get_prev (set_prev s x p) = (get_prev s)(x := Some p)"
  "get_prev (set_next s x v) = get_prev s" "get_prev (put_first s h v) = get_prev s"
  "get_prev (set_slot s q v) = get_prev s"
  "(\<And>f. n = Some f \<Longrightarrow> f \<in> list_live s) \<Longrightarrow>
    get_prev (set_prev_opt s n p) = (\<lambda>y. if n = Some y then Some p else get_prev s y)"
  by (auto simp: list_store_defs fun_eq_iff option.map_comp o_def split: slot.splits option.splits)

section \<open>The represented list\<close>

definition list_rep :: "nat \<Rightarrow> list_store \<Rightarrow> nat list \<Rightarrow> bool" where
  "list_rep h s xs \<longleftrightarrow> chain (get_slot s) (FirstOf h) xs \<and> backs (get_prev s) (FirstOf h) xs"

lemma list_rep_distinct: "list_rep h s xs \<Longrightarrow> distinct xs"
  by (auto simp: list_rep_def dest: chain_distinct)

lemma list_rep_live: "list_rep h s xs \<Longrightarrow> set xs \<subseteq> list_live s"
  by (auto simp: list_rep_def list_live_iff dest: chain_alloc)

lemma list_rep_slot:
  assumes "list_rep h s (ys @ zs)"
  shows "get_slot s (end_slot (FirstOf h) ys) = Some (head_of zs)"
    and "\<And>f. head_of zs = Some f \<Longrightarrow> get_prev s f = Some (end_slot (FirstOf h) ys) \<and> f \<in> list_live s"
proof -
  show "get_slot s (end_slot (FirstOf h) ys) = Some (head_of zs)"
    using assms by (auto simp: list_rep_def dest: chain_slot)
  show "get_prev s f = Some (end_slot (FirstOf h) ys) \<and> f \<in> list_live s" if "head_of zs = Some f" for f
    using assms that list_rep_live [OF assms] by (cases zs) (auto simp: list_rep_def dest: backs_at)
qed

lemma list_rep_first: "list_rep h s xs \<Longrightarrow> LIST_FIRST s h = head_of xs"
  using list_rep_slot(1) [of h s "[]" xs] by (simp add: LIST_FIRST_slot)

lemma list_rep_unique: "list_rep h s xs \<Longrightarrow> list_rep h s ys \<Longrightarrow> xs = ys"
  by (auto simp: list_rep_def dest: chain_unique)

text \<open>A list depends only on its own head and elements.\<close>

lemma list_rep_frame:
  assumes "\<And>q. q = FirstOf h \<or> q \<in> NextOf ` set xs \<Longrightarrow> get_slot s' q = get_slot s q"
    and "\<And>x. x \<in> set xs \<Longrightarrow> get_prev s' x = get_prev s x"
  shows "list_rep h s' xs = list_rep h s xs"
  using chain_frame [of "FirstOf h" xs "get_slot s'" "get_slot s"]
    backs_frame [of xs "get_prev s'" "get_prev s" "FirstOf h"] assms
  by (simp add: list_rep_def)

lemma list_rep_other:
  assumes "list_rep h' s ws" and "h' \<noteq> h" and "set ws \<inter> A = {}"
    and "\<And>q. q \<noteq> FirstOf h \<Longrightarrow> q \<notin> NextOf ` A \<Longrightarrow> get_slot s' q = get_slot s q"
    and "\<And>x. x \<notin> A \<Longrightarrow> get_prev s' x = get_prev s x"
  shows "list_rep h' s' ws"
proof -
  have "list_rep h' s' ws = list_rep h' s ws"
    by (rule list_rep_frame) (use assms(2-5) in auto)
  then show ?thesis using assms(1) by simp
qed

lemma LIST_INIT_rep:
  "list_rep h (LIST_INIT s h) [] \<and> list_live (LIST_INIT s h) = list_live s \<and>
    (\<forall>h' ws. h' \<noteq> h \<longrightarrow> list_rep h' s ws \<longrightarrow> list_rep h' (LIST_INIT s h) ws)"
proof (intro conjI allI impI)
  show "list_rep h (LIST_INIT s h) []" "list_live (LIST_INIT s h) = list_live s"
    by (simp_all add: list_rep_def LIST_INIT_def)
  fix h' ws
  assume h: "h' \<noteq> h" and ws: "list_rep h' s ws"
  show "list_rep h' (LIST_INIT s h) ws"
    by (rule list_rep_other [OF ws h, where A = "{}"]) (use h in \<open>auto simp: LIST_INIT_def\<close>)
qed

section \<open>Removing an element\<close>

lemma LIST_REMOVE_rep:
  assumes "list_rep h s (ys @ x # zs)"
  shows "\<exists>s'. LIST_REMOVE s x = Some s' \<and> list_rep h s' (ys @ zs) \<and> list_live s' = list_live s \<and>
    (\<forall>h' ws. h' \<noteq> h \<longrightarrow> set ws \<inter> set (ys @ x # zs) = {} \<longrightarrow> list_rep h' s ws \<longrightarrow> list_rep h' s' ws)"
proof -
  let ?q = "end_slot (FirstOf h) ys" and ?n = "head_of zs"
  define s' where "s' = set_slot (set_prev_opt s ?n ?q) ?q ?n"
  have dist: "distinct (ys @ x # zs)" by (rule list_rep_distinct [OF assms])
  have at: "get_slot s ?q = Some (Some x)" "get_prev s x = Some ?q"
    using list_rep_slot [OF assms] by simp_all
  have n: "get_slot s (NextOf x) = Some ?n" and live: "\<And>f. ?n = Some f \<Longrightarrow> f \<in> list_live s"
    using list_rep_slot [of h s "ys @ [x]" zs] assms by auto
  have rm: "LIST_REMOVE s x = Some s'"
    using n at live by (simp add: LIST_REMOVE_def LIST_NEXT_slot s'_def)
  have sl: "get_slot s' = (get_slot s)(?q := Some ?n)"
    and pv: "get_prev s' = (\<lambda>y. if ?n = Some y then Some ?q else get_prev s y)"
    and lv: "list_live s' = list_live s"
    using at live by (simp_all add: s'_def)
  have "chain (get_slot s') (FirstOf h) (ys @ zs)"
    by (rule chain_splice_out) (use assms in \<open>auto simp: list_rep_def sl\<close>)
  moreover have "backs (get_prev s') (FirstOf h) (ys @ zs)"
    by (rule backs_splice_out) (use assms dist in \<open>auto simp: list_rep_def pv\<close>)
  moreover have "list_rep h' s' ws"
    if "h' \<noteq> h" "set ws \<inter> set (ys @ x # zs) = {}" "list_rep h' s ws" for h' ws
    by (rule list_rep_other [OF that(3,1,2)])
      (use end_slot_cases [of "FirstOf h" ys] in \<open>auto simp: sl pv dest: head_of_in\<close>)
  ultimately show ?thesis using rm lv by (auto simp: list_rep_def)
qed

section \<open>Inserting an element\<close>

text \<open>
  The three insertion macros make the same change at different places: the slot after \<open>ys\<close>
  gets the new element, which points to what the slot held.
\<close>

lemma list_splice_in:
  fixes h s ys zs x
  defines "q \<equiv> end_slot (FirstOf h) ys"
  assumes rep: "list_rep h s (ys @ zs)" and x: "x \<notin> set (ys @ zs)"
    and sl: "\<And>p. get_slot s' p = (if p = q then Some (Some x) else if p = NextOf x then Some (head_of zs)
      else get_slot s p)"
    and pv: "\<And>y. get_prev s' y = (if y = x then Some q else if head_of zs = Some y then Some (NextOf x)
      else get_prev s y)"
  shows "list_rep h s' (ys @ x # zs) \<and>
    (\<forall>h' ws. h' \<noteq> h \<longrightarrow> set ws \<inter> set (ys @ x # zs) = {} \<longrightarrow> list_rep h' s ws \<longrightarrow> list_rep h' s' ws)"
proof -
  have "q \<noteq> NextOf x" using x end_slot_next [of x ys h] by (simp add: q_def)
  then have "chain (get_slot s') (FirstOf h) (ys @ x # zs)"
    by (intro chain_splice_in [of "get_slot s"]) (use rep x in \<open>auto simp: list_rep_def sl q_def\<close>)
  moreover have "backs (get_prev s') (FirstOf h) (ys @ x # zs)"
    by (rule backs_splice_in [of "get_prev s"])
      (use rep x list_rep_distinct [OF rep] in \<open>auto simp: list_rep_def pv q_def dest: head_of_in\<close>)
  moreover have "list_rep h' s' ws"
    if "h' \<noteq> h" "set ws \<inter> set (ys @ x # zs) = {}" "list_rep h' s ws" for h' ws
    by (rule list_rep_other [OF that(3,1,2)])
      (use end_slot_cases [of "FirstOf h" ys] in \<open>auto simp: sl pv q_def dest: head_of_in\<close>)
  ultimately show ?thesis by (auto simp: list_rep_def)
qed

lemma LIST_INSERT_HEAD_rep:
  assumes rep: "list_rep h s xs" and x: "x \<in> list_live s" "x \<notin> set xs"
  shows "\<exists>s'. LIST_INSERT_HEAD s h x = Some s' \<and> list_rep h s' (x # xs) \<and> list_live s' = list_live s \<and>
    (\<forall>h' ws. h' \<noteq> h \<longrightarrow> set ws \<inter> set (x # xs) = {} \<longrightarrow> list_rep h' s ws \<longrightarrow> list_rep h' s' ws)"
proof -
  let ?n = "head_of xs"
  define s' where "s' = set_prev (put_first (set_prev_opt (set_next s x ?n) ?n (NextOf x)) h (Some x)) x (FirstOf h)"
  have first: "LIST_FIRST s h = ?n" by (rule list_rep_first [OF rep])
  have live: "\<And>f. ?n = Some f \<Longrightarrow> f \<in> list_live s"
    using list_rep_slot(2) [of h s "[]" xs] rep by auto
  have "LIST_INSERT_HEAD s h x = Some s'"
    using x live unfolding LIST_INSERT_HEAD_def first s'_def by simp
  moreover have "list_rep h s' ([] @ x # xs) \<and> (\<forall>h' ws. h' \<noteq> h \<longrightarrow> set ws \<inter> set ([] @ x # xs) = {} \<longrightarrow>
      list_rep h' s ws \<longrightarrow> list_rep h' s' ws)"
    by (rule list_splice_in) (use rep x live in \<open>simp_all add: s'_def\<close>)
  ultimately show ?thesis by (simp add: s'_def)
qed

lemma LIST_INSERT_AFTER_rep:
  assumes rep: "list_rep h s (ys @ y # zs)" and x: "x \<in> list_live s" "x \<notin> set (ys @ y # zs)"
  shows "\<exists>s'. LIST_INSERT_AFTER s y x = Some s' \<and> list_rep h s' (ys @ y # x # zs) \<and> list_live s' = list_live s \<and>
    (\<forall>h' ws. h' \<noteq> h \<longrightarrow> set ws \<inter> set (ys @ y # x # zs) = {} \<longrightarrow> list_rep h' s ws \<longrightarrow> list_rep h' s' ws)"
proof -
  let ?n = "head_of zs"
  define s' where "s' = set_prev (set_next (set_prev_opt (set_next s x ?n) ?n (NextOf x)) y (Some x)) x (NextOf y)"
  have next_y: "get_slot s (NextOf y) = Some ?n" and live: "\<And>f. ?n = Some f \<Longrightarrow> f \<in> list_live s"
    using list_rep_slot [of h s "ys @ [y]" zs] rep by auto
  have y: "y \<in> list_live s" using next_y by (simp add: list_live_iff)
  have "LIST_INSERT_AFTER s y x = Some s'"
    using x y live next_y unfolding LIST_INSERT_AFTER_def LIST_NEXT_slot s'_def by simp
  moreover have "list_rep h s' ((ys @ [y]) @ x # zs) \<and> (\<forall>h' ws. h' \<noteq> h \<longrightarrow> set ws \<inter> set ((ys @ [y]) @ x # zs) = {} \<longrightarrow>
      list_rep h' s ws \<longrightarrow> list_rep h' s' ws)"
    by (rule list_splice_in) (use rep x y live in \<open>auto simp: s'_def\<close>)
  ultimately show ?thesis by (simp add: s'_def)
qed

lemma LIST_INSERT_BEFORE_rep:
  assumes rep: "list_rep h s (ys @ z # zs)" and x: "x \<in> list_live s" "x \<notin> set (ys @ z # zs)"
  shows "\<exists>s'. LIST_INSERT_BEFORE s z x = Some s' \<and> list_rep h s' (ys @ x # z # zs) \<and> list_live s' = list_live s \<and>
    (\<forall>h' ws. h' \<noteq> h \<longrightarrow> set ws \<inter> set (ys @ x # z # zs) = {} \<longrightarrow> list_rep h' s ws \<longrightarrow> list_rep h' s' ws)"
proof -
  let ?q = "end_slot (FirstOf h) ys"
  define s' where "s' = set_prev (set_slot (set_next (set_prev s x ?q) x (Some z)) ?q (Some x)) z (NextOf x)"
  have slot: "get_slot s ?q = Some (Some z)" and prv: "get_prev s z = Some ?q" and z: "z \<in> list_live s"
    using list_rep_slot [OF rep] by simp_all
  have xz: "x \<noteq> z" and qx: "?q \<noteq> NextOf x" using x end_slot_next [of x ys h] by auto
  have "LIST_INSERT_BEFORE s z x = Some s'"
    using x z slot prv xz qx unfolding LIST_INSERT_BEFORE_def s'_def by simp
  moreover have "list_rep h s' (ys @ x # z # zs) \<and> (\<forall>h' ws. h' \<noteq> h \<longrightarrow> set ws \<inter> set (ys @ x # z # zs) = {} \<longrightarrow>
      list_rep h' s ws \<longrightarrow> list_rep h' s' ws)"
    by (rule list_splice_in) (use rep x z slot xz qx in \<open>auto simp: s'_def\<close>)
  ultimately show ?thesis by (simp add: s'_def)
qed

section \<open>Moving whole lists\<close>

lemma LIST_SWAP_rep:
  assumes r1: "list_rep h1 s xs" and r2: "list_rep h2 s ys" and h: "h1 \<noteq> h2" and dj: "set xs \<inter> set ys = {}"
  shows "\<exists>s'. LIST_SWAP s h1 h2 = Some s' \<and> list_rep h1 s' ys \<and> list_rep h2 s' xs \<and> list_live s' = list_live s"
proof -
  let ?m = "head_of xs" and ?n = "head_of ys"
  define s' where "s' = set_prev_opt (set_prev_opt (put_first (put_first s h1 ?n) h2 ?m) ?n (FirstOf h1)) ?m (FirstOf h2)"
  have first: "LIST_FIRST s h1 = ?m" "LIST_FIRST s h2 = ?n"
    using list_rep_first [OF r1] list_rep_first [OF r2] .
  have live: "\<And>f. ?m = Some f \<Longrightarrow> f \<in> list_live s" "\<And>f. ?n = Some f \<Longrightarrow> f \<in> list_live s"
    using list_rep_live [OF r1] list_rep_live [OF r2] by (auto dest: head_of_in)
  have read: "LIST_FIRST (put_first t a v) b = (if a = b then v else LIST_FIRST t b)"
    "LIST_FIRST (set_prev_opt t n p) b = LIST_FIRST t b" for t a v b n p
    by (auto simp: LIST_FIRST_def put_first_def set_prev_opt_def set_prev_def split: option.splits)
  have run: "LIST_SWAP s h1 h2 = Some s'"
    using h live by (simp add: LIST_SWAP_def Let_def read first s'_def)
  have sl: "get_slot s' = (get_slot s)(FirstOf h1 := Some ?n, FirstOf h2 := Some ?m)"
    and pv: "get_prev s' = (\<lambda>y. if ?m = Some y then Some (FirstOf h2) else if ?n = Some y then Some (FirstOf h1)
      else get_prev s y)"
    using live by (auto simp: s'_def)
  have d: "distinct xs" "distinct ys" using list_rep_distinct r1 r2 by auto
  have "chain (get_slot s') (FirstOf h1) ys" "chain (get_slot s') (FirstOf h2) xs"
    using r1 r2 h by (auto simp: sl list_rep_def elim!: chain_rehead)
  moreover have m: "f \<notin> set ys" if "?m = Some f" for f using head_of_in [OF that] dj by auto
  have "backs (get_prev s') (FirstOf h1) ys"
    by (rule backs_rehead [of "get_prev s" "FirstOf h2"]) (use r2 d m in \<open>auto simp: pv list_rep_def dest: head_of_in\<close>)
  moreover have n: "f \<notin> set xs" if "?n = Some f" for f using head_of_in [OF that] dj by auto
  have "backs (get_prev s') (FirstOf h2) xs"
    by (rule backs_rehead [of "get_prev s" "FirstOf h1"]) (use r1 d n in \<open>auto simp: pv list_rep_def\<close>)
  ultimately show ?thesis using run by (simp add: list_rep_def s'_def)
qed

lemma list_last_from_chain:
  "chain (get_slot s) (NextOf x) xs \<Longrightarrow> list_last_from s x = Some (Some (last (x # xs)))"
  using last_from_chain [of "get_slot s" x xs] by (simp add: list_last_from_def LIST_NEXT_slot [abs_def])

lemma LIST_CONCAT_rep:
  assumes r1: "list_rep h1 s xs" and r2: "list_rep h2 s ys" and h: "h1 \<noteq> h2" and dj: "set xs \<inter> set ys = {}"
  shows "\<exists>s'. LIST_CONCAT s h1 h2 = Some (Some s') \<and> list_rep h1 s' (xs @ ys) \<and> list_rep h2 s' [] \<and>
    list_live s' = list_live s"
proof -
  let ?q = "end_slot (FirstOf h1) xs"
  have first: "LIST_FIRST s h1 = head_of xs" "LIST_FIRST s h2 = head_of ys"
    using list_rep_first [OF r1] list_rep_first [OF r2] .
  show ?thesis
  proof (cases ys)
    case Nil
    have "LIST_CONCAT s h1 h2 = Some (Some (if xs = [] then put_first s h1 None else s))"
      using first Nil by (simp add: LIST_CONCAT_def split: list.splits)
    moreover have "put_first s h1 None = s" if "xs = []"
      using first(1) that by (simp add: put_first_def LIST_FIRST_def fun_upd_idem)
    ultimately show ?thesis using r1 r2 Nil by auto
  next
    case (Cons f ys')
    define s' where "s' = LIST_INIT (set_prev (set_slot s ?q (Some f)) f ?q) h2"
    have f: "f \<in> list_live s" using list_rep_live [OF r2] Cons by simp
    have q: "get_slot s ?q = Some None" using list_rep_slot(1) [of h1 s xs "[]"] r1 by simp
    have run: "LIST_CONCAT s h1 h2 = Some (Some s')"
    proof (cases xs)
      case Nil
      then show ?thesis using first f Cons by (simp add: LIST_CONCAT_def s'_def set_slot_def)
    next
      case xs: (Cons x xs')
      have "list_last_from s x = Some (Some (last xs))"
        using list_last_from_chain [of s x xs'] r1 xs by (simp add: list_rep_def)
      moreover have "?q = NextOf (last xs)" using xs by (simp add: end_slot_def)
      moreover have "last xs \<in> list_live s" using list_rep_live [OF r1] xs by auto
      ultimately show ?thesis
        using first xs Cons f by (simp add: LIST_CONCAT_def s'_def set_slot_def)
    qed
    have sl: "get_slot s' = (get_slot s)(?q := Some (Some f), FirstOf h2 := Some None)"
      and pv: "get_prev s' = (get_prev s)(f := Some ?q)" and lv: "list_live s' = list_live s"
      using f q by (simp_all add: s'_def LIST_INIT_def)
    have q2: "?q \<noteq> FirstOf h2" using h by (auto simp: end_slot_first)
    have "chain (get_slot s') (FirstOf h1) (xs @ ys)"
      by (rule chain_graft [of "get_slot s" _ _ "FirstOf h2"])
        (use r1 r2 dj h q2 Cons in \<open>auto simp: list_rep_def sl\<close>)
    moreover have "backs (get_prev s') (FirstOf h1) (xs @ ys)"
      by (rule backs_graft [of "get_prev s" _ _ "FirstOf h2"])
        (use r1 r2 dj list_rep_distinct [OF r1] list_rep_distinct [OF r2] Cons in \<open>auto simp: list_rep_def pv\<close>)
    ultimately show ?thesis using run lv by (simp add: list_rep_def sl)
  qed
qed

lemma LIST_PREV_rep:
  assumes "list_rep h s (ys @ x # zs)"
  shows "LIST_PREV s x h = Some (if ys = [] then None else Some (last ys))"
proof -
  have "get_prev s x = Some (end_slot (FirstOf h) ys)"
    using list_rep_slot(2) [OF assms] by simp
  then show ?thesis by (simp add: LIST_PREV_def end_slot_def)
qed

section \<open>The consistency checks\<close>

text \<open>
  On the elements reached from a head the checks characterise the represented lists: a chain of next
  pointers is a list exactly when the checks of its head and of all its elements pass.
\<close>

lemma list_check_next:
  assumes "get_slot s (NextOf x) = Some n"
  shows "QMD_LIST_CHECK_NEXT s x = Some True \<longleftrightarrow> (\<forall>f. n = Some f \<longrightarrow> get_prev s f = Some (NextOf x))"
  using assms by (auto simp: QMD_LIST_CHECK_NEXT_def LIST_NEXT_slot split: option.splits)

lemma backs_checks:
  "chain (get_slot s) (NextOf x) xs \<Longrightarrow>
    backs (get_prev s) (NextOf x) xs \<longleftrightarrow> (\<forall>y \<in> set (x # xs). QMD_LIST_CHECK_NEXT s y = Some True)"
proof (induction xs arbitrary: x)
  case Nil
  then show ?case by (simp add: list_check_next)
next
  case (Cons z zs)
  then show ?case using list_check_next [of s x "Some z"] by auto
qed

lemma list_rep_checks:
  "list_rep h s xs \<longleftrightarrow> chain (get_slot s) (FirstOf h) xs \<and> QMD_LIST_CHECK_HEAD s h = Some True \<and>
    (\<forall>x \<in> set xs. QMD_LIST_CHECK_NEXT s x = Some True)"
proof (cases xs)
  case Nil
  then show ?thesis by (auto simp: list_rep_def QMD_LIST_CHECK_HEAD_def LIST_FIRST_slot)
next
  case (Cons x zs)
  then show ?thesis
    using backs_checks [of s x zs] by (auto simp: list_rep_def QMD_LIST_CHECK_HEAD_def LIST_FIRST_slot)
qed

lemma list_rep_check_prev:
  assumes "list_rep h s (ys @ x # zs)"
  shows "QMD_LIST_CHECK_PREV s x = Some True"
  using list_rep_slot [OF assms]
  by (auto simp: QMD_LIST_CHECK_PREV_def get_slot_def LIST_FIRST_def split: slot.splits)

section \<open>The family meets the contract\<close>

interpretation dlist: intrusive_list "list_rep h" LIST_NEXT list_live "\<lambda>s. LIST_INIT s h" "\<lambda>s. LIST_FIRST s h"
  "\<lambda>s. LIST_INSERT_HEAD s h" LIST_INSERT_AFTER LIST_REMOVE for h
proof unfold_locales
  fix s
  show "list_rep h (LIST_INIT s h) [] \<and> list_live (LIST_INIT s h) = list_live s"
    using LIST_INIT_rep by blast
next
  fix s xs
  assume "list_rep h s xs"
  then show "LIST_FIRST s h = head_of xs" by (rule list_rep_first)
next
  fix s ys x zs
  assume "list_rep h s (ys @ x # zs)"
  then show "LIST_NEXT s x = Some (head_of zs)"
    using list_rep_slot(1) [of h s "ys @ [x]" zs] by (simp add: LIST_NEXT_slot)
next
  fix s xs
  assume "list_rep h s xs"
  then show "set xs \<subseteq> list_live s \<and> distinct xs" using list_rep_live list_rep_distinct by blast
next
  fix s xs x
  assume "list_rep h s xs" "x \<in> list_live s" "x \<notin> set xs"
  from LIST_INSERT_HEAD_rep [OF this]
  show "\<exists>s'. LIST_INSERT_HEAD s h x = Some s' \<and> list_rep h s' (x # xs) \<and> list_live s' = list_live s" by blast
next
  fix s ys y zs x
  assume "list_rep h s (ys @ y # zs)" "x \<in> list_live s" "x \<notin> set (ys @ y # zs)"
  from LIST_INSERT_AFTER_rep [OF this]
  show "\<exists>s'. LIST_INSERT_AFTER s y x = Some s' \<and> list_rep h s' (ys @ y # x # zs) \<and> list_live s' = list_live s"
    by blast
next
  fix s ys x zs
  assume "list_rep h s (ys @ x # zs)"
  from LIST_REMOVE_rep [OF this]
  show "\<exists>s'. LIST_REMOVE s x = Some s' \<and> list_rep h s' (ys @ zs) \<and> list_live s' = list_live s" by blast
qed

end
