(* ===== verification/Server.thy ===== *)
theory Server
  imports Connection Queue_List
begin

text \<open>
  The main thread of \<open>server/aesdsocket.c\<close>: the list of connection items with their memory, the
  signal handler, the accept loop that starts a thread per connection and reaps finished ones, and
  the startup and shutdown around it. The connection threads appear through the events they cause
  (a handler that finishes); signals are events too. Events happen while the main thread waits in
  \<open>accept\<close> and between \<open>accept\<close> and the reaping pass; \<open>System\<close> has them at any time. The answers of the C library and the
  kernel are arguments.
\<close>

section \<open>State\<close>

text \<open>
  A \<open>list_data_t\<close> object has its list links in \<open>conns\<close> and its \<open>item\<close> pointer in
  \<open>items\<close>; the objects \<open>item\<close> points to are in \<open>tds\<close>. \<open>running\<close> holds the thread data of
  the threads whose handler has not finished, \<open>joined\<close> the threads joined so far.
\<close>

record server =
  conns :: list_store
  items :: "nat \<rightharpoonup> nat option"
  tds :: "nat \<rightharpoonup> thread_data_t"
  running :: "nat set"
  joined :: "nat list"
  socks :: "nat set"
  server_sock :: "nat option"
  should_terminate :: bool

text \<open>\<open>server_sock = None\<close> is minus one; closing it is closing an invalid descriptor.\<close>

definition close_sock :: "nat option \<Rightarrow> server \<Rightarrow> server" where
  "close_sock fd s = (case fd of None \<Rightarrow> s | Some n \<Rightarrow> s\<lparr>socks := socks s - {n}\<rparr>)"

abbreviation (input) SIGINT :: int where "SIGINT \<equiv> 2"
abbreviation (input) SIGTERM :: int where "SIGTERM \<equiv> 15"
abbreviation (input) EXIT_SUCCESS :: int where "EXIT_SUCCESS \<equiv> 0"
abbreviation (input) EXIT_FAILURE :: int where "EXIT_FAILURE \<equiv> 1"

definition signal_handler :: "int \<Rightarrow> server \<Rightarrow> server" where
  "signal_handler signum s =
     (if signum = SIGINT \<or> signum = SIGTERM
      then (close_sock (server_sock s) s)\<lparr>should_terminate := True\<rparr>
      else s)"

section \<open>Connection items\<close>

text \<open>
  What the two \<open>malloc\<close> calls return: NULL, or an address with the indeterminate contents of the
  fields the function does not set.
\<close>

record item_env =
  ie_td :: "(nat \<times> nat) option"
  ie_ld :: "(nat \<times> list_entry) option"

definition init_conn_list_item :: "item_env \<Rightarrow> nat \<Rightarrow> sockaddr_in \<Rightarrow> server \<Rightarrow> nat option \<times> server" where
  "init_conn_list_item env conn_fd addr s =
     (case ie_td env of
        None \<Rightarrow> (None, s)
      | Some (t, thread_junk) \<Rightarrow>
          let s1 = s\<lparr>tds := (tds s)(t \<mapsto> \<lparr>td_thread = thread_junk, thread_complete = False,
                connection_fd = conn_fd, client_addr = addr\<rparr>)\<rparr>
          in case ie_ld env of
               None \<Rightarrow> (None, s1\<lparr>tds := (tds s1)(t := None)\<rparr>)
             | Some (x, links_junk) \<Rightarrow>
                 (Some x, s1\<lparr>conns := (conns s1)\<lparr>list_nodes := (list_nodes (conns s1))(x \<mapsto> links_junk)\<rparr>,
                    items := (items s1)(x \<mapsto> Some t)\<rparr>))"

definition free_list_data :: "nat \<Rightarrow> server \<Rightarrow> server option" where
  "free_list_data x s =
     (if items s x = None \<or> list_nodes (conns s) x = None then None
      else Some (s\<lparr>conns := (conns s)\<lparr>list_nodes := (list_nodes (conns s))(x := None)\<rparr>,
             items := (items s)(x := None)\<rparr>))"

definition free_conn_list_item :: "nat option \<Rightarrow> server \<Rightarrow> server option" where
  "free_conn_list_item list_data s =
     (case list_data of
        None \<Rightarrow> Some s
      | Some x \<Rightarrow>
          (case items s x of
             None \<Rightarrow> None
           | Some None \<Rightarrow> free_list_data x s
           | Some (Some t) \<Rightarrow>
               if tds s t = None then None
               else free_list_data x (s\<lparr>tds := (tds s)(t := None), items := (items s)(x \<mapsto> None)\<rparr>)))"

section \<open>The accept loop\<close>

record accept_env =
  ac_accept :: "(nat \<times> sockaddr_in) option"
  ac_item :: item_env
  ac_create :: "int \<times> nat"

text \<open>
  One pass through \<open>accept\<close>: the connection becomes a list item and a thread. A thread that
  cannot be created leaves its item in the list.
\<close>

definition accept_connection :: "accept_env \<Rightarrow> server \<Rightarrow> server option" where
  "accept_connection env s =
     (if server_sock s = None then Some s
      else case ac_accept env of
        None \<Rightarrow> Some s
      | Some (client_sock, addr) \<Rightarrow>
          (case init_conn_list_item (ac_item env) client_sock addr (s\<lparr>socks := insert client_sock (socks s)\<rparr>) of
             (None, s1) \<Rightarrow> Some s1
           | (Some new_data, s1) \<Rightarrow> do {
               l \<leftarrow> LIST_INSERT_HEAD (conns s1) 0 new_data;
               it \<leftarrow> items s1 new_data;
               t \<leftarrow> it;
               td \<leftarrow> tds s1 t;
               let s2 = s1\<lparr>conns := l\<rparr>;
               Some (if fst (ac_create env) = 0
                     then s2\<lparr>tds := (tds s2)(t \<mapsto> td\<lparr>td_thread := snd (ac_create env)\<rparr>), running := insert t (running s2)\<rparr>
                     else s2)
             }))"

text \<open>The thread data of an item: \<open>data->item\<close>, dereferenced.\<close>

definition item_td :: "server \<Rightarrow> nat \<Rightarrow> thread_data_t option" where
  "item_td s x = Option.bind (Option.bind (items s x) id) (tds s)"

text \<open>The body of the reaping loop; \<open>joins\<close> are the results of \<open>pthread_join\<close>.\<close>

definition reap_body :: "(nat \<Rightarrow> int) \<Rightarrow> nat \<Rightarrow> server \<Rightarrow> server option" where
  "reap_body joins data s = do {
     td \<leftarrow> item_td s data;
     if thread_complete td then do {
       let s1 = (if joins (td_thread td) = 0 then s\<lparr>joined := joined s @ [td_thread td]\<rparr> else s);
       l \<leftarrow> LIST_REMOVE (conns s1) data;
       free_conn_list_item (Some data) (s1\<lparr>conns := l\<rparr>)
     } else Some s
   }"

definition reap :: "(nat \<Rightarrow> int) \<Rightarrow> server \<Rightarrow> server option option" where
  "reap joins s = LIST_FOREACH_SAFE conns (reap_body joins) 0 s"

datatype event = Signal int | ThreadDone nat

text \<open>A handler that finishes marks its thread data and has closed its connection.\<close>

fun run_event :: "server \<Rightarrow> event \<Rightarrow> server option" where
  "run_event s (Signal signum) = Some (signal_handler signum s)"
| "run_event s (ThreadDone t) =
     (if t \<in> running s then
        case tds s t of
          None \<Rightarrow> None
        | Some td \<Rightarrow> Some (s\<lparr>tds := (tds s)(t \<mapsto> td\<lparr>thread_complete := True\<rparr>),
            socks := socks s - {connection_fd td}, running := running s - {t}\<rparr>)
      else Some s)"

record loop_env =
  le_waiting :: "event list"
  le_accept :: accept_env
  le_before_reap :: "event list"
  le_joins :: "nat \<Rightarrow> int"

definition server_iteration :: "loop_env \<Rightarrow> server \<Rightarrow> server option option" where
  "server_iteration env s =
     (case do {
        s1 \<leftarrow> ofold run_event s (le_waiting env);
        s2 \<leftarrow> accept_connection (le_accept env) s1;
        ofold run_event s2 (le_before_reap env)
      } of
        None \<Rightarrow> Some None
      | Some s3 \<Rightarrow> reap (le_joins env) s3)"

text \<open>The loop runs while there are iterations in the environment; then it waits.\<close>

fun accept_loop :: "loop_env list \<Rightarrow> server \<Rightarrow> server comp option" where
  "accept_loop [] s = Some (if should_terminate s then Inr s else Inl Blocked)"
| "accept_loop (env # envs) s =
     (if should_terminate s then Some (Inr s)
      else case server_iteration env s of
        None \<Rightarrow> None
      | Some None \<Rightarrow> Some (Inl Undefined)
      | Some (Some s') \<Rightarrow> accept_loop envs s')"

section \<open>Startup and shutdown\<close>

text \<open>The final check of the threads: the same body under \<open>LIST_FOREACH\<close>.\<close>

definition final_cleanup :: "(nat \<Rightarrow> int) \<Rightarrow> server \<Rightarrow> server option option" where
  "final_cleanup joins s =
     (if \<not> LIST_EMPTY (conns s) 0
      then LIST_FOREACH conns (reap_body joins) 0 s
      else Some (Some s))"

text \<open>The options \<open>getopt\<close> returns one after the other; \<open>None\<close> is the usage error.\<close>

fun parse_options :: "char list \<Rightarrow> bool \<Rightarrow> bool option" where
  "parse_options [] run_as_daemon = Some run_as_daemon"
| "parse_options (opt # opts) run_as_daemon =
     (if opt = CHR ''d'' then parse_options opts True else None)"

record setup_env =
  se_options :: "char list"
  se_fork :: int
  se_setsid :: int
  se_chdir :: int
  se_sigterm_err :: bool
  se_sigint_err :: bool
  se_socket :: "nat option"
  se_bind :: int
  se_listen :: int

text \<open>
  Becoming a daemon: the status with which the process exits, if it does. The redirection of the
  standard streams that follows is not modelled.
\<close>

definition daemonise :: "setup_env \<Rightarrow> int option" where
  "daemonise env =
     (if se_fork env = - 1 then Some EXIT_FAILURE
      else if se_fork env \<noteq> 0 then Some EXIT_SUCCESS
      else if se_setsid env = - 1 then Some EXIT_FAILURE
      else if se_chdir env = - 1 then Some EXIT_FAILURE
      else None)"

text \<open>
  Either the process exits with a status, or it is listening. A failing \<open>setsockopt\<close> is only
  logged.
\<close>

definition main_setup :: "setup_env \<Rightarrow> server \<Rightarrow> (int \<times> server) + server" where
  "main_setup env s0 =
     (let s = s0\<lparr>conns := LIST_INIT (conns s0) 0\<rparr> in
      case parse_options (se_options env) False of
        None \<Rightarrow> Inl (EXIT_FAILURE, s)
      | Some run_as_daemon \<Rightarrow>
          (case if run_as_daemon then daemonise env else None of
             Some status \<Rightarrow> Inl (status, s)
           | None \<Rightarrow>
               if se_sigterm_err env then Inl (EXIT_FAILURE, s)
               else if se_sigint_err env then Inl (EXIT_FAILURE, s)
               else case se_socket env of
                 None \<Rightarrow> Inl (EXIT_FAILURE, s\<lparr>server_sock := None\<rparr>)
               | Some fd \<Rightarrow>
                   let s1 = s\<lparr>server_sock := Some fd, socks := insert fd (socks s)\<rparr> in
                   if se_bind env = - 1 then Inl (EXIT_SUCCESS, close_sock (server_sock s1) s1)
                   else if se_listen env = - 1 then Inl (EXIT_SUCCESS, close_sock (server_sock s1) s1)
                   else Inr s1))"

text \<open>\<open>events\<close> happen between the accept loop and the final check.\<close>

definition server_main ::
    "setup_env \<Rightarrow> loop_env list \<Rightarrow> event list \<Rightarrow> (nat \<Rightarrow> int) \<Rightarrow> server \<Rightarrow> (int \<times> server) comp option" where
  "server_main env envs events joins s0 =
     (case main_setup env s0 of
        Inl (status, s) \<Rightarrow> Some (Inr (status, s))
      | Inr s1 \<Rightarrow>
          (case accept_loop envs s1 of
             None \<Rightarrow> None
           | Some (Inl e) \<Rightarrow> Some (Inl e)
           | Some (Inr s2) \<Rightarrow>
               (case ofold run_event s2 events of
                  None \<Rightarrow> Some (Inl Undefined)
                | Some s3 \<Rightarrow>
                    (case final_cleanup joins s3 of
                       None \<Rightarrow> None
                     | Some None \<Rightarrow> Some (Inl Undefined)
                     | Some (Some s4) \<Rightarrow> Some (Inr (EXIT_SUCCESS, close_sock (server_sock s4) s4))))))"

end
