(* ===== verification/Server_Correct.thy ===== *)
theory Server_Correct
  imports Server
begin

text \<open>
  The memory of the connection list: between any two steps of the main thread the allocated items
  are exactly the elements of the list, each with its own thread data, and every running thread has
  its thread data allocated and unmarked. The reaping pass then is a filter.
\<close>

section \<open>Well-formed servers\<close>

definition item_of :: "server \<Rightarrow> nat \<Rightarrow> nat" where
  "item_of s x = (case items s x of Some (Some t) \<Rightarrow> t | _ \<Rightarrow> 0)"

definition server_wf :: "server \<Rightarrow> nat list \<Rightarrow> bool" where
  "server_wf s xs \<longleftrightarrow>
     list_rep 0 (conns s) xs \<and> list_live (conns s) = set xs \<and> dom (items s) = set xs \<and>
     (\<forall>x \<in> set xs. items s x = Some (Some (item_of s x))) \<and>
     inj_on (item_of s) (set xs) \<and> dom (tds s) = item_of s ` set xs \<and>
     (\<forall>t \<in> running s. \<exists>td. tds s t = Some td \<and> \<not> thread_complete td)"

definition completed :: "server \<Rightarrow> nat \<Rightarrow> bool" where
  "completed s x = (case item_td s x of None \<Rightarrow> False | Some td \<Rightarrow> thread_complete td)"

lemma server_wf_rep: "server_wf s xs \<Longrightarrow> list_rep 0 (conns s) xs"
  by (simp add: server_wf_def)

lemma server_wf_unique: "server_wf s xs \<Longrightarrow> list_rep 0 (conns s) ys \<Longrightarrow> xs = ys"
  by (auto simp: server_wf_def dest: list_rep_unique)

lemma server_wf_item:
  assumes "server_wf s xs" and "x \<in> set xs"
  shows "items s x = Some (Some (item_of s x))" and "item_td s x = tds s (item_of s x)"
    and "tds s (item_of s x) \<noteq> None"
proof -
  show i: "items s x = Some (Some (item_of s x))" using assms by (simp add: server_wf_def)
  then show "item_td s x = tds s (item_of s x)" by (simp add: item_td_def)
  have "item_of s x \<in> dom (tds s)" using assms by (simp add: server_wf_def)
  then show "tds s (item_of s x) \<noteq> None" by auto
qed

text \<open>Freeing a node that is not in a list does not change the list.\<close>

definition drop_node :: "nat \<Rightarrow> list_store \<Rightarrow> list_store" where
  "drop_node x l = l\<lparr>list_nodes := (list_nodes l)(x := None)\<rparr>"

lemma list_rep_drop_node:
  assumes "list_rep h l xs" and "x \<notin> set xs"
  shows "list_rep h (drop_node x l) xs"
proof -
  have "list_rep h (drop_node x l) xs = list_rep h l xs"
    by (rule list_rep_frame)
      (use assms(2) in \<open>auto simp: drop_node_def get_slot_def get_prev_def LIST_NEXT_def split: slot.splits\<close>)
  then show ?thesis using assms(1) by simp
qed

lemma live_drop_node: "list_live (drop_node x l) = list_live l - {x}"
  by (simp add: drop_node_def list_live_def)

lemma live_node: "x \<in> list_live l \<longleftrightarrow> list_nodes l x \<noteq> None"
  by (auto simp: list_live_def)

section \<open>One step of the reaping pass\<close>

lemma free_conn_list_item_effect:
  assumes "items s x = Some (Some t)" and "tds s t \<noteq> None" and "list_nodes (conns s) x \<noteq> None"
  shows "free_conn_list_item (Some x) s =
    Some (s\<lparr>conns := drop_node x (conns s), items := (items s)(x := None), tds := (tds s)(t := None)\<rparr>)"
  using assms by (auto simp: free_conn_list_item_def free_list_data_def drop_node_def)

lemma server_wf_remove:
  fixes s ys x zs l
  defines "s' \<equiv> s\<lparr>conns := drop_node x l, items := (items s)(x := None), tds := (tds s)(item_of s x := None)\<rparr>"
  assumes wf: "server_wf s (ys @ x # zs)" and l: "list_rep 0 l (ys @ zs)" "list_live l = list_live (conns s)"
    and fin: "completed s x"
  shows "server_wf s' (ys @ zs)" and "y \<in> set (ys @ zs) \<Longrightarrow> item_td s' y = item_td s y"
proof -
  let ?xs = "ys @ x # zs" and ?ys = "ys @ zs"
  note w = wf [unfolded server_wf_def]
  have x: "x \<notin> set ?ys" using w list_rep_distinct by fastforce
  have other: "y \<noteq> x" "item_of s y \<noteq> item_of s x" if "y \<in> set ?ys" for y
    using w x that by (auto simp: inj_on_def)
  have io: "item_of s' y = item_of s y" if "y \<in> set ?ys" for y
    using other [OF that] by (simp add: s'_def item_of_def)
  have "item_of s x \<notin> running s"
    using w fin server_wf_item [OF wf, of x] by (auto simp: completed_def)
  then have "\<forall>t \<in> running s'. \<exists>td. tds s' t = Some td \<and> \<not> thread_complete td"
    using w by (auto simp: s'_def)
  moreover have "dom (tds s') = item_of s' ` set ?ys"
  proof -
    have "dom (tds s') = item_of s ` set ?xs - {item_of s x}" using w by (auto simp: s'_def)
    also have "\<dots> = item_of s ` set ?ys" using other by auto
    also have "\<dots> = item_of s' ` set ?ys" using io by (auto simp: image_iff)
    finally show ?thesis .
  qed
  moreover have "inj_on (item_of s') (set ?ys)"
    using w io by (auto simp: inj_on_def)
  moreover have "\<forall>y \<in> set ?ys. items s' y = Some (Some (item_of s' y))"
    using w io other by (auto simp: s'_def)
  moreover have "list_rep 0 (conns s') ?ys" "list_live (conns s') = set ?ys"
    using list_rep_drop_node [OF l(1) x] l(2) w x by (auto simp: s'_def live_drop_node)
  moreover have "dom (items s') = set ?ys" using w x by (auto simp: s'_def)
  ultimately show "server_wf s' ?ys" by (simp add: server_wf_def)
  show "item_td s' y = item_td s y" if "y \<in> set ?ys"
    using other [OF that] w that by (auto simp: item_td_def s'_def)
qed

lemma reap_body_keeps: "item_td s x \<noteq> None \<Longrightarrow> \<not> completed s x \<Longrightarrow> reap_body joins x s = Some s"
  by (auto simp: reap_body_def completed_def)

lemma reap_body_removes:
  assumes wf: "server_wf s (ys @ x # zs)" and fin: "completed s x"
  shows "\<exists>s'. reap_body joins x s = Some s' \<and> server_wf s' (ys @ zs) \<and> (\<forall>y \<in> set (ys @ zs). item_td s' y = item_td s y) \<and>
    (joins (td_thread (the (item_td s x))) = 0 \<longrightarrow> joined s' = joined s @ [td_thread (the (item_td s x))]) \<and>
    socks s' = socks s \<and> running s' = running s \<and> server_sock s' = server_sock s \<and> should_terminate s' = should_terminate s \<and>
    tds s' = (tds s)(item_of s x := None)"
proof -
  note item = server_wf_item [OF wf, of x, simplified]
  from item obtain td where td: "item_td s x = Some td" "tds s (item_of s x) = Some td" by auto
  then have c: "thread_complete td" using fin by (simp add: completed_def)
  from LIST_REMOVE_rep [OF server_wf_rep [OF wf]] obtain l where
    l: "LIST_REMOVE (conns s) x = Some l" "list_rep 0 l (ys @ zs)" "list_live l = list_live (conns s)" by blast
  have "x \<in> list_live (conns s)" using wf by (simp add: server_wf_def)
  then have live: "list_nodes l x \<noteq> None" using l(3) live_node [of x l] by simp
  define j where "j = (if joins (td_thread td) = 0 then joined s @ [td_thread td] else joined s)"
  define s1 where "s1 = s\<lparr>joined := j\<rparr>"
  have io: "item_of s1 = item_of s" "item_td s1 = item_td s"
    by (simp_all add: s1_def item_of_def item_td_def fun_eq_iff)
  have s1: "server_wf s1 (ys @ x # zs)" "completed s1 x" "item_of s1 x = item_of s x" "items s1 = items s" "tds s1 = tds s"
    "conns s1 = conns s" "item_td s1 = item_td s"
    using wf fin io by (simp_all add: server_wf_def completed_def) (simp_all add: s1_def)
  define s' where "s' = s1\<lparr>conns := drop_node x l, items := (items s1)(x := None), tds := (tds s1)(item_of s1 x := None)\<rparr>"
  have upd: "(if joins (td_thread td) = 0 then s\<lparr>joined := joined s @ [td_thread td]\<rparr> else s) = s1"
    by (simp add: s1_def j_def)
  have "reap_body joins x s = free_conn_list_item (Some x) (s1\<lparr>conns := l\<rparr>)"
    using td(1) c l(1) unfolding reap_body_def by (simp add: upd s1(6) Let_def)
  also have "\<dots> = Some s'"
    using item td live by (subst free_conn_list_item_effect [where t = "item_of s x"]) (simp_all add: s1 s'_def)
  finally have run: "reap_body joins x s = Some s'" .
  have "server_wf s' (ys @ zs)" "\<forall>y \<in> set (ys @ zs). item_td s' y = item_td s y"
    using server_wf_remove [OF s1(1) l(2) _ s1(2)] l(3) s1(6,7) by (simp_all add: s'_def)
  then show ?thesis using run td(1) s1(3,5) by (simp add: s'_def s1_def j_def)
qed

section \<open>The connection list as an intrusive list\<close>

interpretation conn_list: intrusive_list "\<lambda>s :: server. list_rep 0 (conns s)" "\<lambda>s. LIST_NEXT (conns s)"
  "\<lambda>s. list_live (conns s)" "\<lambda>s. s\<lparr>conns := LIST_INIT (conns s) 0\<rparr>" "\<lambda>s. LIST_FIRST (conns s) 0"
  "\<lambda>s x. map_option (\<lambda>l. s\<lparr>conns := l\<rparr>) (LIST_INSERT_HEAD (conns s) 0 x)"
  "\<lambda>s y x. map_option (\<lambda>l. s\<lparr>conns := l\<rparr>) (LIST_INSERT_AFTER (conns s) y x)"
  "\<lambda>s x. map_option (\<lambda>l. s\<lparr>conns := l\<rparr>) (LIST_REMOVE (conns s) x)"
proof unfold_locales
  fix s :: server and xs ys zs :: "nat list" and x y :: nat
  show "list_rep 0 (conns (s\<lparr>conns := LIST_INIT (conns s) 0\<rparr>)) [] \<and>
      list_live (conns (s\<lparr>conns := LIST_INIT (conns s) 0\<rparr>)) = list_live (conns s)"
    using dlist.rep_empty [of 0 "conns s"] by simp
  show "LIST_FIRST (conns s) 0 = head_of xs" if "list_rep 0 (conns s) xs"
    using that by (rule dlist.rep_first)
  show "LIST_NEXT (conns s) x = Some (head_of zs)" if "list_rep 0 (conns s) (ys @ x # zs)"
    using that by (rule dlist.rep_next)
  show "set xs \<subseteq> list_live (conns s) \<and> distinct xs" if "list_rep 0 (conns s) xs"
    using that by (rule dlist.rep_live)
  show "\<exists>s'. map_option (\<lambda>l. s\<lparr>conns := l\<rparr>) (LIST_INSERT_HEAD (conns s) 0 x) = Some s' \<and>
      list_rep 0 (conns s') (x # xs) \<and> list_live (conns s') = list_live (conns s)"
    if "list_rep 0 (conns s) xs" "x \<in> list_live (conns s)" "x \<notin> set xs"
    using dlist.rep_insert_head [OF that] by auto
  show "\<exists>s'. map_option (\<lambda>l. s\<lparr>conns := l\<rparr>) (LIST_INSERT_AFTER (conns s) y x) = Some s' \<and>
      list_rep 0 (conns s') (ys @ y # x # zs) \<and> list_live (conns s') = list_live (conns s)"
    if "list_rep 0 (conns s) (ys @ y # zs)" "x \<in> list_live (conns s)" "x \<notin> set (ys @ y # zs)"
    using dlist.rep_insert_after [OF that] by auto
  show "\<exists>s'. map_option (\<lambda>l. s\<lparr>conns := l\<rparr>) (LIST_REMOVE (conns s) x) = Some s' \<and>
      list_rep 0 (conns s') (ys @ zs) \<and> list_live (conns s') = list_live (conns s)"
    if "list_rep 0 (conns s) (ys @ x # zs)"
    using dlist.rep_remove [OF that] by auto
qed

section \<open>The reaping pass\<close>

text \<open>The thread number of an item, and what a pass leaves alone.\<close>

definition thread_of :: "server \<Rightarrow> nat \<Rightarrow> nat" where
  "thread_of s x = td_thread (the (item_td s x))"

definition same_rest :: "server \<Rightarrow> server \<Rightarrow> bool" where
  "same_rest s s' \<longleftrightarrow> socks s' = socks s \<and> running s' = running s \<and> server_sock s' = server_sock s \<and>
     should_terminate s' = should_terminate s"

text \<open>The invariant of the pass, relative to the state \<open>s\<close> at its start.\<close>

definition reap_inv :: "(nat \<Rightarrow> int) \<Rightarrow> server \<Rightarrow> nat list \<Rightarrow> server \<Rightarrow> bool" where
  "reap_inv joins s xs s1 \<longleftrightarrow>
     (\<exists>ys. server_wf s1 ys \<and> set ys \<subseteq> set xs) \<and> (\<forall>y \<in> dom (items s1). item_td s1 y = item_td s y) \<and> same_rest s s1 \<and>
     ((\<forall>t. joins t = 0) \<longrightarrow>
        set (joined s1) = set (joined s) \<union> thread_of s ` {x \<in> set xs. completed s x \<and> x \<notin> dom (items s1)})"

lemma reap_inv_step:
  assumes wf: "server_wf s xs" and rep: "list_rep 0 (conns s1) (ys @ x # zs)" and inv: "reap_inv joins s xs s1"
  shows "\<exists>s'. reap_body joins x s1 = Some s' \<and> reap_inv joins s xs s' \<and>
    list_rep 0 (conns s') (ys @ (if completed s x then [] else [x]) @ zs)"
proof -
  obtain us where us: "server_wf s1 us" "set us \<subseteq> set xs" using inv by (auto simp: reap_inv_def)
  note w1 = us(1) [unfolded server_wf_unique [OF us(1) rep]]
    and sub = us(2) [unfolded server_wf_unique [OF us(1) rep]]
  have d1: "dom (items s1) = set (ys @ x # zs)" using w1 by (simp add: server_wf_def)
  then have td: "item_td s1 x = item_td s x" using inv by (simp add: reap_inv_def)
  then have c: "completed s1 x = completed s x" by (simp add: completed_def)
  show ?thesis
  proof (cases "completed s x")
    case False
    have "item_td s1 x \<noteq> None" using server_wf_item [OF w1, of x] by simp
    then show ?thesis using reap_body_keeps [of s1 x joins] False c inv rep by simp
  next
    case True
    from reap_body_removes [OF w1, of joins] True c obtain s' where
      s': "reap_body joins x s1 = Some s'" "server_wf s' (ys @ zs)" "\<forall>y \<in> set (ys @ zs). item_td s' y = item_td s1 y"
        "joins (thread_of s x) = 0 \<longrightarrow> joined s' = joined s1 @ [thread_of s x]" "same_rest s1 s'"
      by (auto simp: thread_of_def td same_rest_def)
    have d': "dom (items s') = set (ys @ zs)" using s'(2) by (simp add: server_wf_def)
    have x: "x \<notin> set (ys @ zs)" "x \<in> set xs" using w1 sub by (auto simp: server_wf_def dest: list_rep_distinct)
    have gone: "{y \<in> set xs. completed s y \<and> y \<notin> dom (items s')} =
        insert x {y \<in> set xs. completed s y \<and> y \<notin> dom (items s1)}"
      unfolding d' d1 using x True by auto
    have "\<exists>us. server_wf s' us \<and> set us \<subseteq> set xs" using s'(2) sub by (intro exI [of _ "ys @ zs"]) auto
    moreover have "\<forall>y \<in> dom (items s'). item_td s' y = item_td s y"
      using inv s'(3) unfolding d' reap_inv_def d1 by simp
    moreover have "same_rest s s'" using inv s'(5) by (simp add: reap_inv_def same_rest_def)
    ultimately have "reap_inv joins s xs s'"
      using inv s'(4) unfolding reap_inv_def gone by simp
    then show ?thesis using s'(1,2) True by (auto simp: server_wf_def)
  qed
qed

lemma reap_filters:
  assumes wf: "server_wf s xs"
  shows "\<exists>s'. reap joins s = Some (Some s') \<and> server_wf s' (filter (\<lambda>x. \<not> completed s x) xs) \<and>
    (\<forall>y \<in> set xs. \<not> completed s y \<longrightarrow> item_td s' y = item_td s y) \<and> same_rest s s' \<and>
    ((\<forall>t. joins t = 0) \<longrightarrow> set (joined s') = set (joined s) \<union> thread_of s ` {x \<in> set xs. completed s x})"
proof -
  have "reap_inv joins s xs s"
    using wf by (auto simp: reap_inv_def same_rest_def server_wf_def)
  from conn_list.safe_filter [where I = "reap_inv joins s xs" and body = "reap_body joins" and P = "completed s",
      OF reap_inv_step [OF wf] server_wf_rep [OF wf] this]
  obtain s' where s': "reap joins s = Some (Some s')" "reap_inv joins s xs s'"
      "list_rep 0 (conns s') (filter (\<lambda>x. \<not> completed s x) xs)" by (auto simp: reap_def LIST_FOREACH_SAFE_def)
  have wf': "server_wf s' (filter (\<lambda>x. \<not> completed s x) xs)"
    using s'(2) server_wf_unique [OF _ s'(3)] unfolding reap_inv_def by metis
  then have "dom (items s') = {x \<in> set xs. \<not> completed s x}" by (simp add: server_wf_def)
  then have gone: "{x \<in> set xs. completed s x \<and> x \<notin> dom (items s')} = {x \<in> set xs. completed s x}"
    and stay: "\<And>y. y \<in> set xs \<Longrightarrow> \<not> completed s y \<Longrightarrow> y \<in> dom (items s')" by auto
  have "\<forall>y \<in> set xs. \<not> completed s y \<longrightarrow> item_td s' y = item_td s y" and "same_rest s s'"
    and "(\<forall>t. joins t = 0) \<longrightarrow> set (joined s') = set (joined s) \<union> thread_of s ` {x \<in> set xs. completed s x}"
    using s'(2) stay unfolding reap_inv_def gone by simp_all
  then show ?thesis using s'(1) wf' by blast
qed

section \<open>Events and new connections\<close>

abbreviation stops :: "event \<Rightarrow> bool" where
  "stops e \<equiv> e = Signal SIGINT \<or> e = Signal SIGTERM"

lemma close_sock_simps [simp]:
  "conns (close_sock fd s) = conns s" "items (close_sock fd s) = items s" "tds (close_sock fd s) = tds s"
  "running (close_sock fd s) = running s" "joined (close_sock fd s) = joined s"
  "server_sock (close_sock fd s) = server_sock s" "should_terminate (close_sock fd s) = should_terminate s"
  by (simp_all add: close_sock_def split: option.splits)

lemma server_wf_cong:
  assumes "conns s' = conns s" and "items s' = items s" and "tds s' = tds s" and "running s' = running s"
  shows "server_wf s' xs = server_wf s xs"
proof -
  have "item_of s' = item_of s" using assms(2) by (simp add: item_of_def fun_eq_iff)
  then show ?thesis using assms by (simp add: server_wf_def)
qed

lemma run_event_wf:
  assumes wf: "server_wf s xs"
  shows "\<exists>s'. run_event s e = Some s' \<and> server_wf s' xs \<and> conns s' = conns s \<and> items s' = items s \<and>
    dom (tds s') = dom (tds s) \<and> should_terminate s' = (should_terminate s \<or> stops e)"
proof (cases e)
  case (Signal n)
  have "server_wf (signal_handler n s) xs = server_wf s xs"
    by (rule server_wf_cong) (simp_all add: signal_handler_def)
  then show ?thesis using wf Signal by (auto simp: signal_handler_def)
next
  case (ThreadDone t)
  show ?thesis
  proof (cases "t \<in> running s")
    case True
    with wf obtain td where td: "tds s t = Some td" by (auto simp: server_wf_def)
    let ?s' = "s\<lparr>tds := (tds s)(t \<mapsto> td\<lparr>thread_complete := True\<rparr>), socks := socks s - {connection_fd td},
      running := running s - {t}\<rparr>"
    have "item_of ?s' = item_of s" by (simp add: item_of_def fun_eq_iff)
    then have "server_wf ?s' xs" using wf td by (auto simp: server_wf_def)
    then show ?thesis using ThreadDone True td by auto
  qed (use ThreadDone wf in auto)
qed

lemma run_events_wf:
  "server_wf s xs \<Longrightarrow>
    \<exists>s'. ofold run_event s es = Some s' \<and> server_wf s' xs \<and> conns s' = conns s \<and> items s' = items s \<and>
      dom (tds s') = dom (tds s) \<and> should_terminate s' = (should_terminate s \<or> (\<exists>e \<in> set es. stops e))"
proof (induction es arbitrary: s)
  case Nil
  then show ?case by simp
next
  case (Cons e es)
  from run_event_wf [OF Cons.prems, of e] obtain s1 where
    s1: "run_event s e = Some s1" "server_wf s1 xs" "conns s1 = conns s" "items s1 = items s" "dom (tds s1) = dom (tds s)"
      "should_terminate s1 = (should_terminate s \<or> stops e)" by blast
  from Cons.IH [OF s1(2)] s1 show ?case by auto
qed

text \<open>A thread that does not run leaves its thread data as it is.\<close>

lemma run_event_idle:
  "run_event s e = Some s' \<Longrightarrow> t \<notin> running s \<Longrightarrow> t \<notin> running s' \<and> tds s' t = tds s t \<and> items s' = items s"
  by (cases e) (auto simp: signal_handler_def split: if_splits option.splits)

lemma run_events_idle:
  "ofold run_event s es = Some s' \<Longrightarrow> t \<notin> running s \<Longrightarrow> t \<notin> running s' \<and> tds s' t = tds s t \<and> items s' = items s"
proof (induction es arbitrary: s)
  case Nil
  then show ?case by simp
next
  case (Cons e es)
  from Cons.prems(1) obtain s1 where "run_event s e = Some s1" "ofold run_event s1 es = Some s'"
    by (auto split: bind_splits)
  with Cons.IH [of s1] run_event_idle [of s e s1 t] Cons.prems(2) show ?case by auto
qed

text \<open>\<open>malloc\<close> returns memory that is not in use.\<close>

definition malloc_ok :: "item_env \<Rightarrow> server \<Rightarrow> bool" where
  "malloc_ok env s \<longleftrightarrow>
     (case ie_td env of None \<Rightarrow> True | Some (t, _) \<Rightarrow> tds s t = None) \<and>
     (case ie_ld env of None \<Rightarrow> True | Some (x, _) \<Rightarrow> items s x = None \<and> list_nodes (conns s) x = None)"

lemma list_rep_new_node:
  assumes "list_rep h l xs" and "x \<notin> list_live l"
  shows "list_rep h (l\<lparr>list_nodes := (list_nodes l)(x \<mapsto> e)\<rparr>) xs"
proof -
  have "x \<notin> set xs" using assms list_rep_live [of h l xs] by auto
  then have "list_rep h (l\<lparr>list_nodes := (list_nodes l)(x \<mapsto> e)\<rparr>) xs = list_rep h l xs"
    by (intro list_rep_frame) (auto simp: get_slot_def get_prev_def LIST_NEXT_def split: slot.splits)
  then show ?thesis using assms(1) by simp
qed

text \<open>A new item at the head of the list, its thread started or not.\<close>

lemma server_wf_insert:
  fixes s x t td l R
  defines "s' \<equiv> s\<lparr>conns := l, items := (items s)(x \<mapsto> Some t), tds := (tds s)(t \<mapsto> td), running := R\<rparr>"
  assumes wf: "server_wf s xs" and new: "x \<notin> set xs" "tds s t = None"
    and l: "list_rep 0 l (x # xs)" "list_live l = insert x (set xs)"
    and R: "R = running s \<or> R = insert t (running s)" "\<not> thread_complete td"
  shows "server_wf s' (x # xs)"
proof -
  note w = wf [unfolded server_wf_def]
  have io: "item_of s' y = (if y = x then t else item_of s y)" for y by (simp add: s'_def item_of_def)
  have tn: "t \<notin> item_of s ` set xs" using w new(2) by (metis domIff)
  have "inj_on (item_of s') (set (x # xs))"
    using w tn new(1) by (auto simp: inj_on_def io)
  moreover have "dom (tds s') = item_of s' ` set (x # xs)"
  proof -
    have "item_of s' ` set (x # xs) = insert t (item_of s ` set xs)" using new(1) by (auto simp: io)
    moreover have "dom (tds s') = insert t (dom (tds s))" by (simp add: s'_def)
    ultimately show ?thesis using w by simp
  qed
  moreover have "\<forall>y \<in> set (x # xs). items s' y = Some (Some (item_of s' y))"
    using w new(1) unfolding io by (auto simp: s'_def)
  moreover have "\<forall>t' \<in> running s'. \<exists>td. tds s' t' = Some td \<and> \<not> thread_complete td"
  proof
    fix t' assume "t' \<in> running s'"
    then have "t' = t \<or> t' \<in> running s" using R(1) by (auto simp: s'_def)
    then show "\<exists>td. tds s' t' = Some td \<and> \<not> thread_complete td" using w R(2) by (auto simp: s'_def)
  qed
  moreover have "dom (items s') = set (x # xs)" using w by (simp add: s'_def)
  ultimately show ?thesis using l by (simp add: server_wf_def s'_def)
qed

lemma accept_connection_wf:
  assumes wf: "server_wf s xs" and ok: "malloc_ok (ac_item env) s"
  shows "\<exists>s' xs'. accept_connection env s = Some s' \<and> server_wf s' xs' \<and> should_terminate s' = should_terminate s \<and>
    (xs' = xs \<or> (\<exists>x j. ie_ld (ac_item env) = Some (x, j) \<and> xs' = x # xs))"
proof (cases "server_sock s = None \<or> ac_accept env = None \<or> ie_td (ac_item env) = None \<or> ie_ld (ac_item env) = None")
  case True
  have restore: "(tds s)(t := None) = tds s" if "ie_td (ac_item env) = Some (t, j)" for t j
    using ok that by (auto simp: malloc_ok_def fun_upd_idem)
  have "\<exists>s'. accept_connection env s = Some s' \<and> conns s' = conns s \<and> items s' = items s \<and> tds s' = tds s \<and>
      running s' = running s \<and> should_terminate s' = should_terminate s"
    using True
    by (auto simp: accept_connection_def init_conn_list_item_def Let_def restore split: option.splits)
  then obtain s' where s': "accept_connection env s = Some s'" "conns s' = conns s" "items s' = items s" "tds s' = tds s"
      "running s' = running s" "should_terminate s' = should_terminate s" by blast
  then have "server_wf s' xs" using wf server_wf_cong [of s' s xs] by simp
  then show ?thesis using s' by blast
next
  case False
  then obtain fd addr t tj x xj where env: "ac_accept env = Some (fd, addr)" "ie_td (ac_item env) = Some (t, tj)"
    "ie_ld (ac_item env) = Some (x, xj)" and sock: "server_sock s \<noteq> None" by auto
  have fresh: "tds s t = None" "items s x = None" "list_nodes (conns s) x = None"
    using ok env by (simp_all add: malloc_ok_def)
  have x: "x \<notin> list_live (conns s)" "x \<notin> set xs" using fresh wf by (auto simp: live_node server_wf_def)
  define l0 where "l0 = (conns s)\<lparr>list_nodes := (list_nodes (conns s))(x \<mapsto> xj)\<rparr>"
  have l0: "list_rep 0 l0 xs" "list_live l0 = insert x (set xs)"
    using list_rep_new_node [OF server_wf_rep [OF wf] x(1)] wf by (auto simp: l0_def list_live_def server_wf_def)
  from LIST_INSERT_HEAD_rep [OF l0(1), of x] x(2) l0(2) obtain l where
    l: "LIST_INSERT_HEAD l0 0 x = Some l" "list_rep 0 l (x # xs)" "list_live l = list_live l0" by auto
  let ?td = "\<lparr>td_thread = tj, thread_complete = False, connection_fd = fd, client_addr = addr\<rparr>"
  let ?s = "s\<lparr>socks := insert fd (socks s)\<rparr>"
  define td where "td = (if fst (ac_create env) = 0 then ?td\<lparr>td_thread := snd (ac_create env)\<rparr> else ?td)"
  define R where "R = (if fst (ac_create env) = 0 then insert t (running s) else running s)"
  have run: "accept_connection env s =
      Some (?s\<lparr>conns := l, items := (items ?s)(x \<mapsto> Some t), tds := (tds ?s)(t \<mapsto> td), running := R\<rparr>)"
    using env sock l(1)
    by (auto simp: accept_connection_def init_conn_list_item_def Let_def l0_def td_def R_def)
  moreover have "server_wf (?s\<lparr>conns := l, items := (items ?s)(x \<mapsto> Some t), tds := (tds ?s)(t \<mapsto> td), running := R\<rparr>) (x # xs)"
  proof (rule server_wf_insert)
    show "server_wf ?s xs" using wf server_wf_cong [of ?s s xs] by simp
  qed (use x(2) fresh l l0(2) in \<open>auto simp: R_def td_def\<close>)
  ultimately show ?thesis using env(3) by auto
qed

section \<open>The accept loop\<close>

definition env_stops :: "loop_env \<Rightarrow> bool" where
  "env_stops env \<longleftrightarrow> (\<exists>e \<in> set (le_waiting env @ le_before_reap env). stops e)"

text \<open>What holds of the environment of a run: \<open>malloc\<close> returns free memory in every iteration.\<close>

fun mallocs_ok :: "loop_env list \<Rightarrow> server \<Rightarrow> bool" where
  "mallocs_ok [] s = True"
| "mallocs_ok (env # envs) s =
     (malloc_ok (ac_item (le_accept env)) s \<and>
      (case server_iteration env s of Some (Some s') \<Rightarrow> mallocs_ok envs s' | _ \<Rightarrow> True))"

lemma malloc_ok_cong:
  assumes "conns s' = conns s" and "items s' = items s" and "dom (tds s') = dom (tds s)"
  shows "malloc_ok env s' = malloc_ok env s"
proof -
  have "tds s' t = None \<longleftrightarrow> tds s t = None" for t using assms(3) by (metis domIff)
  then show ?thesis using assms(1,2) by (simp add: malloc_ok_def split: option.splits)
qed

lemma server_iteration_wf:
  assumes wf: "server_wf s xs" and ok: "malloc_ok (ac_item (le_accept env)) s"
  shows "\<exists>s' xs'. server_iteration env s = Some (Some s') \<and> server_wf s' xs' \<and>
    should_terminate s' = (should_terminate s \<or> env_stops env)"
proof -
  from run_events_wf [OF wf, of "le_waiting env"] obtain s1 where
    s1: "ofold run_event s (le_waiting env) = Some s1" "server_wf s1 xs" "conns s1 = conns s" "items s1 = items s"
      "dom (tds s1) = dom (tds s)" "should_terminate s1 = (should_terminate s \<or> (\<exists>e \<in> set (le_waiting env). stops e))"
    by blast
  have "malloc_ok (ac_item (le_accept env)) s1" using ok malloc_ok_cong [OF s1(3-5)] by blast
  from accept_connection_wf [OF s1(2) this] obtain s2 xs2 where
    s2: "accept_connection (le_accept env) s1 = Some s2" "server_wf s2 xs2" "should_terminate s2 = should_terminate s1"
    by blast
  from run_events_wf [OF s2(2), of "le_before_reap env"] obtain s3 where
    s3: "ofold run_event s2 (le_before_reap env) = Some s3" "server_wf s3 xs2"
      "should_terminate s3 = (should_terminate s2 \<or> (\<exists>e \<in> set (le_before_reap env). stops e))" by blast
  from reap_filters [OF s3(2), of "le_joins env"] obtain s4 xs4 where
    s4: "reap (le_joins env) s3 = Some (Some s4)" "server_wf s4 xs4" "same_rest s3 s4" by blast
  have "server_iteration env s = Some (Some s4)"
    using s1(1) s2(1) s3(1) s4(1) by (simp add: server_iteration_def)
  moreover have "should_terminate s4 = (should_terminate s \<or> env_stops env)"
    using s4(3) s3(3) s2(3) s1(6) unfolding same_rest_def env_stops_def by (simp add: bex_Un disj_assoc)
  ultimately show ?thesis using s4(2) by blast
qed

lemma accept_loop_wf:
  "server_wf s xs \<Longrightarrow> mallocs_ok envs s \<Longrightarrow>
    (if should_terminate s \<or> (\<exists>env \<in> set envs. env_stops env)
     then \<exists>s' xs'. accept_loop envs s = Some (Inr s') \<and> server_wf s' xs' \<and> should_terminate s'
     else accept_loop envs s = Some (Inl Blocked))"
proof (induction envs arbitrary: s xs)
  case Nil
  then show ?case by auto
next
  case (Cons env envs)
  show ?case
  proof (cases "should_terminate s")
    case True
    then show ?thesis using Cons.prems(1) by auto
  next
    case False
    from Cons.prems(2) have "malloc_ok (ac_item (le_accept env)) s" by simp
    from server_iteration_wf [OF Cons.prems(1) this] obtain s' xs' where
      s': "server_iteration env s = Some (Some s')" "server_wf s' xs'" "should_terminate s' = env_stops env"
      using False by auto
    with Cons.prems(2) have "mallocs_ok envs s'" by simp
    from Cons.IH [OF s'(2) this] s'(1,3) False show ?thesis
      by (cases "env_stops env"; cases "\<exists>e \<in> set envs. env_stops e") auto
  qed
qed

section \<open>Shutdown\<close>

lemma final_foreach:
  "server_wf s (ys @ zs) \<Longrightarrow>
    FOREACH_FROM (\<lambda>s. LIST_NEXT (conns s)) (reap_body joins) (head_of zs) s =
      (if \<exists>z \<in> set zs. completed s z then Some None else Some (Some s))"
proof (induction zs arbitrary: ys)
  case Nil
  then show ?case by simp
next
  case (Cons z zs)
  show ?case
  proof (cases "completed s z")
    case True
    from reap_body_removes [OF Cons.prems True, of joins] obtain s' where
      s': "reap_body joins z s = Some s'" "server_wf s' (ys @ zs)" by blast
    have "z \<notin> set (ys @ zs)" using Cons.prems by (auto simp: server_wf_def dest: list_rep_distinct)
    then have "z \<notin> list_live (conns s')" using s'(2) by (simp add: server_wf_def)
    then have "LIST_NEXT (conns s') z = None" by (simp add: live_node LIST_NEXT_def)
    then show ?thesis using True s'(1) by simp
  next
    case False
    have "item_td s z \<noteq> None" using server_wf_item [OF Cons.prems, of z] by simp
    moreover have "LIST_NEXT (conns s) z = Some (head_of zs)"
      using dlist.rep_next [OF server_wf_rep [OF Cons.prems]] .
    ultimately show ?thesis using Cons.IH [of "ys @ [z]"] Cons.prems False reap_body_keeps [of s z joins] by simp
  qed
qed

lemma final_cleanup_effect:
  assumes "server_wf s xs"
  shows "final_cleanup joins s = (if \<exists>x \<in> set xs. completed s x then Some None else Some (Some s))"
proof -
  have "LIST_FIRST (conns s) 0 = head_of xs" by (rule dlist.rep_first [OF server_wf_rep [OF assms]])
  then show ?thesis
    using final_foreach [of s "[]" xs joins] assms
    by (cases xs) (simp_all add: final_cleanup_def LIST_FOREACH_def LIST_EMPTY_def LIST_FIRST_def)
qed

lemma main_setup_wf:
  assumes "main_setup env s0 = Inr s" and "list_nodes (conns s0) = Map.empty" and "items s0 = Map.empty"
    and "tds s0 = Map.empty" and "running s0 = {}"
  shows "server_wf s []" and "should_terminate s = should_terminate s0"
  using assms
  by (auto simp: main_setup_def daemonise_def Let_def server_wf_def list_rep_def LIST_INIT_def put_first_def get_slot_def list_live_def
      split: option.splits if_splits)

end
