(* ===== verification/System.thy ===== *)
theory System
  imports Threads Server_Correct
begin

text \<open>
  The whole server process: the main thread of \<open>server/aesdsocket.c\<close> and the connection threads
  it starts, interleaved. The main thread takes its steps one at a time, also inside the reaping pass
  and the final pass, so a handler may finish and a signal may arrive between any two of them. A
  connection thread serves its socket with the steps of \<open>Threads\<close>; when its loop has ended it closes
  the socket, marks its thread data and returns, in three steps. The kernel hands out descriptor
  numbers, memory addresses and thread identifiers again once they are free.
\<close>

section \<open>State\<close>

text \<open>
  A connection thread is known by the address of its thread data, the argument of
  \<open>handle_connection\<close>. \<open>Gone\<close> is a thread that has returned, and an address that is not the
  argument of any thread.
\<close>

datatype phase = Serving | Closed | Marked | Gone

datatype main_pc =
    LoopTop
  | Accepting
  | Reap "nat option"
  | Join nat "nat option"
  | Final "nat option"
  | FinalJoin nat
  | Returned
  | Crashed

text \<open>
  \<open>tids\<close> are the thread identifiers in use with the argument of their thread. The last three
  fields record history and influence no step: of each socket the lines written for earlier
  connections and the lines of the client now served, and whether a device write has failed.
\<close>

record system =
  srv :: server
  con :: conf
  at :: main_pc
  phases :: "nat \<Rightarrow> phase"
  tids :: "nat \<rightharpoonup> nat"
  before :: "nat \<Rightarrow> bytes list"
  client :: "nat \<Rightarrow> bytes list"
  broken :: bool

text \<open>The process runs until \<open>main\<close> returns, which ends every thread.\<close>

definition alive :: "system \<Rightarrow> bool" where
  "alive s \<longleftrightarrow> at s \<noteq> Returned \<and> at s \<noteq> Crashed"

section \<open>Accepting a connection\<close>

text \<open>
  The thread that \<open>accept_connection\<close> starts, if it starts one: its argument, its socket and its
  identifier.
\<close>

definition new_thread :: "accept_env \<Rightarrow> server \<Rightarrow> (nat \<times> nat \<times> nat) option" where
  "new_thread env s =
     (if server_sock s = None \<or> fst (ac_create env) \<noteq> 0 \<or> ie_ld (ac_item env) = None then None
      else case (ac_accept env, ie_td (ac_item env)) of
        (Some (fd, _), Some (a, _)) \<Rightarrow> Some (a, fd, snd (ac_create env))
      | _ \<Rightarrow> None)"

text \<open>A thread at the start of \<open>handle_connection\<close> on the socket \<open>fd\<close>.\<close>

definition start_thread :: "nat \<Rightarrow> bytes list \<Rightarrow> conf \<Rightarrow> conf" where
  "start_thread fd ls c = c\<lparr>pcs := (pcs c)(fd := ReadLine), inputs := (inputs c)(fd := ls),
     due := (due c)(fd := sent (cworld c) fd), op_failed := (op_failed c)(fd := False),
     dropped := (dropped c)(fd := []), lost := (lost c)(fd := False), reset := (reset c)(fd := False)\<rparr>"

definition launch :: "(nat \<times> nat \<times> nat) option \<Rightarrow> bytes list \<Rightarrow> system \<Rightarrow> system" where
  "launch new ls s =
     (case new of
        None \<Rightarrow> s
      | Some (a, fd, u) \<Rightarrow> s\<lparr>con := start_thread fd ls (con s), phases := (phases s)(a := Serving),
          tids := (tids s)(u \<mapsto> a), before := (before s)(fd := lines_of fd (hist (con s))),
          client := (client s)(fd := ls)\<rparr>)"

text \<open>
  What the kernel and the C library promise: a descriptor that is not in use, memory that is not in
  use, and a thread identifier that is not in use.
\<close>

definition accept_lawful :: "accept_env \<Rightarrow> system \<Rightarrow> bool" where
  "accept_lawful env s \<longleftrightarrow> malloc_ok (ac_item env) (srv s) \<and>
     (case ac_accept env of None \<Rightarrow> True | Some (fd, _) \<Rightarrow> fd \<notin> socks (srv s) \<and> server_sock (srv s) \<noteq> Some fd) \<and>
     (fst (ac_create env) = 0 \<longrightarrow> tids s (snd (ac_create env)) = None)"

section \<open>Steps\<close>

text \<open>
  The main thread. An access to memory that is not allocated, and waiting for a thread that does not
  exist, leads to \<open>Crashed\<close>. \<open>pthread_join\<close> returns once the thread has returned.
\<close>

inductive main_step :: "system \<Rightarrow> system \<Rightarrow> bool" where
  check_on: "at s = LoopTop \<Longrightarrow> \<not> should_terminate (srv s) \<Longrightarrow> main_step s (s\<lparr>at := Accepting\<rparr>)"
| check_off: "at s = LoopTop \<Longrightarrow> should_terminate (srv s) \<Longrightarrow>
    main_step s (s\<lparr>at := Final (LIST_FIRST (conns (srv s)) 0)\<rparr>)"
| accept: "at s = Accepting \<Longrightarrow> accept_lawful env s \<Longrightarrow> accept_connection env (srv s) = Some s' \<Longrightarrow>
    main_step s ((launch (new_thread env (srv s)) ls s)\<lparr>srv := s', at := Reap (LIST_FIRST (conns s') 0)\<rparr>)"
| accept_fault: "at s = Accepting \<Longrightarrow> accept_lawful env s \<Longrightarrow> accept_connection env (srv s) = None \<Longrightarrow>
    main_step s (s\<lparr>at := Crashed\<rparr>)"
| reap_keep: "at s = Reap (Some x) \<Longrightarrow> LIST_NEXT (conns (srv s)) x = Some v \<Longrightarrow> item_td (srv s) x = Some td \<Longrightarrow>
    \<not> thread_complete td \<Longrightarrow> main_step s (s\<lparr>at := Reap v\<rparr>)"
| reap_join: "at s = Reap (Some x) \<Longrightarrow> LIST_NEXT (conns (srv s)) x = Some v \<Longrightarrow> item_td (srv s) x = Some td \<Longrightarrow>
    thread_complete td \<Longrightarrow> main_step s (s\<lparr>at := Join x v\<rparr>)"
| reap_fault: "at s = Reap (Some x) \<Longrightarrow> LIST_NEXT (conns (srv s)) x = None \<or> item_td (srv s) x = None \<Longrightarrow>
    main_step s (s\<lparr>at := Crashed\<rparr>)"
| reap_done: "at s = Reap None \<Longrightarrow> main_step s (s\<lparr>at := LoopTop\<rparr>)"
| join: "at s = Join x v \<Longrightarrow> item_td (srv s) x = Some td \<Longrightarrow> tids s (td_thread td) = Some a \<Longrightarrow> phases s a = Gone \<Longrightarrow>
    reap_body (\<lambda>_. 0) x (srv s) = Some s' \<Longrightarrow>
    main_step s (s\<lparr>srv := s', tids := (tids s)(td_thread td := None), at := Reap v\<rparr>)"
| join_fault: "at s = Join x v \<Longrightarrow>
    (case item_td (srv s) x of None \<Rightarrow> True
     | Some td \<Rightarrow> tids s (td_thread td) = None \<or> reap_body (\<lambda>_. 0) x (srv s) = None) \<Longrightarrow>
    main_step s (s\<lparr>at := Crashed\<rparr>)"
| final_keep: "at s = Final (Some x) \<Longrightarrow> item_td (srv s) x = Some td \<Longrightarrow> \<not> thread_complete td \<Longrightarrow>
    LIST_NEXT (conns (srv s)) x = Some v \<Longrightarrow> main_step s (s\<lparr>at := Final v\<rparr>)"
| final_join: "at s = Final (Some x) \<Longrightarrow> item_td (srv s) x = Some td \<Longrightarrow> thread_complete td \<Longrightarrow>
    main_step s (s\<lparr>at := FinalJoin x\<rparr>)"
| final_fault: "at s = Final (Some x) \<Longrightarrow>
    (case item_td (srv s) x of None \<Rightarrow> True
     | Some td \<Rightarrow> \<not> thread_complete td \<and> LIST_NEXT (conns (srv s)) x = None) \<Longrightarrow>
    main_step s (s\<lparr>at := Crashed\<rparr>)"
| final_joined: "at s = FinalJoin x \<Longrightarrow> item_td (srv s) x = Some td \<Longrightarrow> tids s (td_thread td) = Some a \<Longrightarrow>
    phases s a = Gone \<Longrightarrow> reap_body (\<lambda>_. 0) x (srv s) = Some s' \<Longrightarrow> LIST_NEXT (conns s') x = Some v \<Longrightarrow>
    main_step s (s\<lparr>srv := s', tids := (tids s)(td_thread td := None), at := Final v\<rparr>)"
| final_freed: "at s = FinalJoin x \<Longrightarrow> item_td (srv s) x = Some td \<Longrightarrow> tids s (td_thread td) = Some a \<Longrightarrow>
    phases s a = Gone \<Longrightarrow> reap_body (\<lambda>_. 0) x (srv s) = Some s' \<Longrightarrow> LIST_NEXT (conns s') x = None \<Longrightarrow>
    main_step s (s\<lparr>srv := s', tids := (tids s)(td_thread td := None), at := Crashed\<rparr>)"
| final_join_fault: "at s = FinalJoin x \<Longrightarrow>
    (case item_td (srv s) x of None \<Rightarrow> True
     | Some td \<Rightarrow> tids s (td_thread td) = None \<or> reap_body (\<lambda>_. 0) x (srv s) = None) \<Longrightarrow>
    main_step s (s\<lparr>at := Crashed\<rparr>)"
| final_done: "at s = Final None \<Longrightarrow>
    main_step s (s\<lparr>srv := close_sock (server_sock (srv s)) (srv s), at := Returned\<rparr>)"

inductive_cases main_stepE: "main_step s s'"

text \<open>
  The connection threads: a step of a serving loop, a device write that fails, and the end of
  \<open>handle_connection\<close>.
\<close>

inductive handler_step :: "system \<Rightarrow> system \<Rightarrow> bool" where
  serve: "alive s \<Longrightarrow> thread_step (con s) c \<Longrightarrow> handler_step s (s\<lparr>con := c\<rparr>)"
| write_fails: "alive s \<Longrightarrow> write_failure t (con s) c \<Longrightarrow> handler_step s (s\<lparr>con := c, broken := True\<rparr>)"
| close_conn: "alive s \<Longrightarrow> phases s a = Serving \<Longrightarrow> tds (srv s) a = Some td \<Longrightarrow>
    pcs (con s) (connection_fd td) = Finished \<Longrightarrow>
    handler_step s (s\<lparr>srv := (srv s)\<lparr>socks := socks (srv s) - {connection_fd td}\<rparr>, phases := (phases s)(a := Closed)\<rparr>)"
| mark: "alive s \<Longrightarrow> phases s a = Closed \<Longrightarrow> tds (srv s) a = Some td \<Longrightarrow>
    handler_step s (s\<lparr>srv := (srv s)\<lparr>tds := (tds (srv s))(a \<mapsto> td\<lparr>thread_complete := True\<rparr>),
      running := running (srv s) - {a}\<rparr>, phases := (phases s)(a := Marked)\<rparr>)"
| return: "alive s \<Longrightarrow> phases s a = Marked \<Longrightarrow> tds (srv s) a = Some td \<Longrightarrow>
    handler_step s (s\<lparr>phases := (phases s)(a := Gone)\<rparr>)"

inductive_cases handler_stepE: "handler_step s s'"

inductive sys_step :: "system \<Rightarrow> system \<Rightarrow> bool" where
  main: "main_step s s' \<Longrightarrow> sys_step s s'"
| handler: "handler_step s s' \<Longrightarrow> sys_step s s'"
| signal: "alive s \<Longrightarrow>
    sys_step s (s\<lparr>srv := signal_handler signum (srv s),
      con := (con s)\<lparr>terminating := should_terminate (signal_handler signum (srv s))\<rparr>\<rparr>)"

inductive_cases sys_stepE: "sys_step s s'"

text \<open>The process at the top of the accept loop, with the server state that startup leaves.\<close>

definition sys_start :: "world \<Rightarrow> server \<Rightarrow> system" where
  "sys_start w s = \<lparr>srv = s, con = start_conf {} w (\<lambda>_. []), at = LoopTop, phases = (\<lambda>_. Gone), tids = Map.empty,
     before = (\<lambda>_. []), client = (\<lambda>_. []), broken = False\<rparr>"

abbreviation sys_reachable :: "world \<Rightarrow> server \<Rightarrow> system \<Rightarrow> bool" where
  "sys_reachable w s \<equiv> sys_step\<^sup>*\<^sup>* (sys_start w s)"

end
