(* ===== verification/System_Correct.thy ===== *)
theory System_Correct
  imports System
begin

text \<open>
  The invariant of the whole server: the memory of the main thread and of the connection threads
  fits together in every interleaving, whatever fails, and as long as no device write has failed the
  filestore is consistent too.
\<close>

section \<open>The invariant\<close>

text \<open>The socket of a thread, by the address of its thread data.\<close>

definition sock_of :: "system \<Rightarrow> nat \<Rightarrow> nat" where
  "sock_of s a = connection_fd (the (tds (srv s) a))"

text \<open>
  A thread that has not returned has its thread data allocated, with its identifier in it and marked
  exactly when it has marked it; the socket of a serving thread is open.
\<close>

definition thread_ok :: "system \<Rightarrow> nat \<Rightarrow> bool" where
  "thread_ok s a \<longleftrightarrow>
     (a \<in> running (srv s) \<longleftrightarrow> phases s a = Serving \<or> phases s a = Closed) \<and>
     (phases s a \<noteq> Gone \<longrightarrow> (\<exists>td. tds (srv s) a = Some td \<and> tids s (td_thread td) = Some a \<and>
        (thread_complete td \<longleftrightarrow> phases s a = Marked))) \<and>
     (phases s a = Serving \<longrightarrow> sock_of s a \<in> socks (srv s) \<and> server_sock (srv s) \<noteq> Some (sock_of s a))"

abbreviation serving :: "system \<Rightarrow> nat set" where
  "serving s \<equiv> {a. phases s a = Serving}"

text \<open>
  Serving threads have different sockets, every loop that runs belongs to one of them, and the
  identifiers in use are those stored in the thread data.
\<close>

definition threads_wf :: "system \<Rightarrow> bool" where
  "threads_wf s \<longleftrightarrow> (\<forall>a. thread_ok s a) \<and> inj_on (sock_of s) (serving s) \<and>
     (\<forall>t. pcs (con s) t \<noteq> Finished \<longrightarrow> t \<in> sock_of s ` serving s) \<and>
     (\<forall>a td. tds (srv s) a = Some td \<longrightarrow> thread_complete td \<longrightarrow> tids s (td_thread td) = Some a) \<and>
     (\<forall>u a. tids s u = Some a \<longrightarrow> (\<exists>td. tds (srv s) a = Some td \<and> td_thread td = u))"

text \<open>Where the main thread is in the list \<open>xs\<close> of connections.\<close>

definition main_at :: "system \<Rightarrow> nat list \<Rightarrow> bool" where
  "main_at s xs \<longleftrightarrow>
     (case at s of
        Reap v \<Rightarrow> \<exists>ys zs. xs = ys @ zs \<and> v = head_of zs
      | Join x v \<Rightarrow> \<exists>ys zs. xs = ys @ x # zs \<and> v = head_of zs \<and> completed (srv s) x
      | Final v \<Rightarrow> should_terminate (srv s) \<and> (\<exists>ys zs. xs = ys @ zs \<and> v = head_of zs)
      | FinalJoin x \<Rightarrow> should_terminate (srv s) \<and> x \<in> set xs \<and> completed (srv s) x
      | Returned \<Rightarrow> should_terminate (srv s)
      | Crashed \<Rightarrow> should_terminate (srv s)
      | _ \<Rightarrow> True)"

definition sys_inv :: "system \<Rightarrow> bool" where
  "sys_inv s \<longleftrightarrow> (\<exists>xs. server_wf (srv s) xs \<and> main_at s xs) \<and> threads_wf s \<and>
     should_terminate (srv s) = terminating (con s)"

text \<open>The filestore, as long as no device write has failed.\<close>

definition store_inv :: "bytes list \<times> bytes \<Rightarrow> system \<Rightarrow> bool" where
  "store_inv v0 s \<longleftrightarrow> (\<not> broken s \<longrightarrow>
     conf_inv v0 (\<lambda>t. before s t @ client s t) (con s) \<and> (\<forall>t. prefix (before s t) (lines_of t (hist (con s)))))"

section \<open>Facts about single steps\<close>

lemma thread_step_finished: "thread_step c c' \<Longrightarrow> pcs c t = Finished \<Longrightarrow> pcs c' t = Finished"
  by (erule thread_step.cases) auto

lemma write_failure_finished: "write_failure u c c' \<Longrightarrow> pcs c t = Finished \<Longrightarrow> pcs c' t = Finished"
  by (erule write_failure.cases) auto

lemma thread_step_terminating: "thread_step c c' \<Longrightarrow> terminating c' = terminating c"
  by (erule thread_step.cases) auto

lemma write_failure_terminating: "write_failure u c c' \<Longrightarrow> terminating c' = terminating c"
  by (erule write_failure.cases) auto

lemma thread_step_hist: "thread_step c c' \<Longrightarrow> prefix (lines_of t (hist c)) (lines_of t (hist c'))"
  by (erule thread_step.cases) auto

lemma write_failure_hist: "write_failure u c c' \<Longrightarrow> hist c' = hist c"
  by (erule write_failure.cases) auto

lemma head_of_split: "head_of zs = Some x \<Longrightarrow> \<exists>zs'. zs = x # zs'"
  by (cases zs) auto

lemma threads_wfI:
  assumes "\<And>a. thread_ok s a" and "inj_on (sock_of s) (serving s)"
    and "\<And>t. pcs (con s) t \<noteq> Finished \<Longrightarrow> t \<in> sock_of s ` serving s"
    and "\<And>a td. tds (srv s) a = Some td \<Longrightarrow> thread_complete td \<Longrightarrow> tids s (td_thread td) = Some a"
    and "\<And>u a. tids s u = Some a \<Longrightarrow> \<exists>td. tds (srv s) a = Some td \<and> td_thread td = u"
  shows "threads_wf s"
  using assms by (simp add: threads_wf_def)

lemma threads_wfD:
  assumes "threads_wf s"
  shows "thread_ok s a" and "inj_on (sock_of s) (serving s)"
    and "pcs (con s) t \<noteq> Finished \<Longrightarrow> t \<in> sock_of s ` serving s"
    and "tds (srv s) a = Some td \<Longrightarrow> thread_complete td \<Longrightarrow> tids s (td_thread td) = Some a"
    and "tids s u = Some a \<Longrightarrow> \<exists>td. tds (srv s) a = Some td \<and> td_thread td = u"
  using assms by (simp_all add: threads_wf_def)

text \<open>Only the control point of the main thread changes.\<close>

lemma threads_wf_at [simp]: "threads_wf (s\<lparr>at := p\<rparr>) = threads_wf s"
  by (simp add: threads_wf_def thread_ok_def sock_of_def inj_on_def)

lemma sys_inv_move:
  assumes "sys_inv s" and "\<And>xs. server_wf (srv s) xs \<Longrightarrow> main_at s xs \<Longrightarrow> main_at (s\<lparr>at := p\<rparr>) xs"
  shows "sys_inv (s\<lparr>at := p\<rparr>)"
  using assms by (auto simp: sys_inv_def)

section \<open>The connection threads\<close>

lemma main_at_mono:
  assumes "main_at s xs" and "at s' = at s" and "\<And>x. completed (srv s) x \<Longrightarrow> completed (srv s') x"
    and "should_terminate (srv s) \<Longrightarrow> should_terminate (srv s')"
  shows "main_at s' xs"
  using assms by (auto simp: main_at_def split: main_pc.splits)

lemma sys_inv_update:
  assumes inv: "sys_inv s" and wf: "\<And>xs. server_wf (srv s) xs \<Longrightarrow> server_wf (srv s') xs" and "threads_wf s'"
    and main: "at s' = at s" "\<And>x. completed (srv s) x \<Longrightarrow> completed (srv s') x"
      "should_terminate (srv s) \<Longrightarrow> should_terminate (srv s')"
    and "should_terminate (srv s') = terminating (con s')"
  shows "sys_inv s'"
proof -
  obtain xs where "server_wf (srv s) xs" "main_at s xs" using inv by (auto simp: sys_inv_def)
  then have "server_wf (srv s') xs" "main_at s' xs" using wf main_at_mono main by blast+
  then show ?thesis using assms by (auto simp: sys_inv_def)
qed

lemma threads_wf_con:
  assumes "threads_wf s" and "\<And>t. pcs (con s) t = Finished \<Longrightarrow> pcs c t = Finished"
  shows "threads_wf (s\<lparr>con := c, broken := b\<rparr>)"
proof -
  have "sock_of (s\<lparr>con := c, broken := b\<rparr>) = sock_of s" by (simp add: sock_of_def fun_eq_iff)
  then show ?thesis using assms by (auto simp: threads_wf_def thread_ok_def)
qed

lemma sys_inv_con:
  assumes "sys_inv s" and "\<And>t. pcs (con s) t = Finished \<Longrightarrow> pcs c t = Finished" and "terminating c = terminating (con s)"
  shows "sys_inv (s\<lparr>con := c, broken := b\<rparr>)"
  by (rule sys_inv_update [OF assms(1)]) (use assms threads_wf_con in \<open>auto simp: sys_inv_def\<close>)

lemma sys_inv_close:
  assumes inv: "sys_inv s" and a: "phases s a = Serving" "tds (srv s) a = Some td" "pcs (con s) (connection_fd td) = Finished"
  shows "sys_inv (s\<lparr>srv := (srv s)\<lparr>socks := socks (srv s) - {connection_fd td}\<rparr>, phases := (phases s)(a := Closed)\<rparr>)"
    (is "sys_inv ?s")
proof -
  have wf: "threads_wf s" using inv by (simp add: sys_inv_def)
  have sock: "sock_of ?s = sock_of s" "sock_of s a = connection_fd td" using a by (simp_all add: sock_of_def fun_eq_iff)
  have other: "sock_of s b \<noteq> connection_fd td" if "phases s b = Serving" "b \<noteq> a" for b
    using wf a that sock(2) by (auto simp: threads_wf_def inj_on_def)
  have "thread_ok ?s b" for b
    using wf a other [of b] unfolding threads_wf_def thread_ok_def sock(1) by (cases "b = a") auto
  moreover have "inj_on (sock_of ?s) (serving ?s)"
    using wf unfolding sock threads_wf_def by (auto simp: inj_on_def)
  moreover have "t \<in> sock_of ?s ` serving ?s" if t: "pcs (con s) t \<noteq> Finished" for t
  proof -
    obtain b where b: "phases s b = Serving" "t = sock_of s b" using wf t by (auto simp: threads_wf_def)
    then have "b \<noteq> a" using t a(3) sock(2) by auto
    with b show ?thesis unfolding sock by auto
  qed
  ultimately have "threads_wf ?s" using wf by (simp add: threads_wf_def)
  moreover have "server_wf (srv ?s) xs = server_wf (srv s) xs" for xs by (rule server_wf_cong) simp_all
  ultimately show ?thesis using inv
    by (intro sys_inv_update [OF inv]) (simp_all add: sys_inv_def completed_def item_td_def)
qed

lemma completed_marked:
  assumes "completed s x" and "tds s a = Some td"
  shows "completed (s\<lparr>tds := (tds s)(a \<mapsto> td\<lparr>thread_complete := True\<rparr>), running := r\<rparr>) x"
  using assms by (auto simp: completed_def item_td_def split: option.splits if_splits bind_splits)

lemma sys_inv_mark:
  assumes inv: "sys_inv s" and a: "phases s a = Closed" "tds (srv s) a = Some td"
  shows "sys_inv (s\<lparr>srv := (srv s)\<lparr>tds := (tds (srv s))(a \<mapsto> td\<lparr>thread_complete := True\<rparr>), running := running (srv s) - {a}\<rparr>,
    phases := (phases s)(a := Marked)\<rparr>)" (is "sys_inv ?s")
proof -
  have wf: "threads_wf s" using inv by (simp add: sys_inv_def)
  have ok: "thread_ok s b" for b using wf by (simp add: threads_wf_def)
  have sock: "sock_of ?s = sock_of s" using a by (auto simp: sock_of_def fun_eq_iff)
  have run: "a \<in> running (srv s)" using ok [of a] a by (simp add: thread_ok_def)
  have tid: "tids s (td_thread td) = Some a" using ok [of a] a by (simp add: thread_ok_def)
  have "thread_ok ?s b" for b
    using ok [of b] a unfolding thread_ok_def sock by (cases "b = a") auto
  moreover have ser: "serving ?s = serving s" using a by auto
  moreover have "\<exists>td. tds (srv ?s) b = Some td \<and> td_thread td = u" if "tids ?s u = Some b" for u b
    using threads_wfD(5) [OF wf, of u b] that a(2) by (cases "b = a") auto
  moreover have "tids ?s (td_thread td') = Some b" if "tds (srv ?s) b = Some td'" "thread_complete td'" for b td'
    using threads_wfD(4) [OF wf, of b td'] that tid by (cases "b = a") auto
  moreover have "t \<in> sock_of ?s ` serving ?s" if "pcs (con ?s) t \<noteq> Finished" for t
    using threads_wfD(3) [OF wf, of t] that unfolding sock ser by simp
  moreover have "inj_on (sock_of ?s) (serving ?s)" unfolding sock ser by (rule threads_wfD(2) [OF wf])
  ultimately have "threads_wf ?s" by (intro threads_wfI) blast+
  moreover have "server_wf (srv ?s) xs" if xs: "server_wf (srv s) xs" for xs
  proof -
    from run_event_wf [OF xs, of "ThreadDone a"] run a(2) have
      "server_wf ((srv s)\<lparr>tds := (tds (srv s))(a \<mapsto> td\<lparr>thread_complete := True\<rparr>),
        socks := socks (srv s) - {connection_fd td}, running := running (srv s) - {a}\<rparr>) xs" by auto
    then show ?thesis by (subst server_wf_cong [rotated -1]) auto
  qed
  ultimately show ?thesis using inv
    by (intro sys_inv_update [OF inv]) (simp_all add: completed_marked a(2), simp_all add: sys_inv_def)
qed

lemma sys_inv_return:
  assumes inv: "sys_inv s" and a: "phases s a = Marked"
  shows "sys_inv (s\<lparr>phases := (phases s)(a := Gone)\<rparr>)" (is "sys_inv ?s")
proof -
  have sock: "sock_of ?s = sock_of s" by (simp add: sock_of_def fun_eq_iff)
  have ser: "serving ?s = serving s" using a by auto
  have wf: "threads_wf s" using inv by (simp add: sys_inv_def)
  then have "thread_ok ?s b" for b
    using a unfolding threads_wf_def thread_ok_def sock by (cases "b = a") auto
  then have "\<forall>b. thread_ok ?s b" by blast
  then have "threads_wf ?s" using wf unfolding threads_wf_def sock ser by simp
  then show ?thesis using inv by (intro sys_inv_update [OF inv]) (simp_all add: sys_inv_def)
qed

text \<open>Only the listening socket is closed, and perhaps the flag set.\<close>

lemma threads_wf_srv:
  assumes wf: "threads_wf s" and same: "tds s' = tds (srv s)" "running s' = running (srv s)" "server_sock s' = server_sock (srv s)"
    and socks: "\<And>t. t \<in> socks (srv s) \<Longrightarrow> server_sock (srv s) \<noteq> Some t \<Longrightarrow> t \<in> socks s'"
    and con: "pcs c = pcs (con s)"
  shows "threads_wf (s\<lparr>srv := s', con := c, at := p\<rparr>)" (is "threads_wf ?s")
proof -
  have sock: "sock_of ?s = sock_of s" by (simp add: sock_of_def fun_eq_iff same)
  have "thread_ok ?s b" for b
    using wf socks unfolding threads_wf_def thread_ok_def sock by (simp add: same)
  then have "\<forall>b. thread_ok ?s b" by blast
  then show ?thesis using wf unfolding threads_wf_def sock by (simp add: same con)
qed

lemma close_sock_keeps: "t \<in> socks s \<Longrightarrow> fd \<noteq> Some t \<Longrightarrow> t \<in> socks (close_sock fd s)"
  by (auto simp: close_sock_def split: option.splits)

lemma sys_inv_signal:
  assumes inv: "sys_inv s"
  shows "sys_inv (s\<lparr>srv := signal_handler n (srv s), con := (con s)\<lparr>terminating := should_terminate (signal_handler n (srv s))\<rparr>\<rparr>)"
    (is "sys_inv ?s")
proof -
  have keep: "tds (signal_handler n (srv s)) = tds (srv s)" "items (signal_handler n (srv s)) = items (srv s)"
    "conns (signal_handler n (srv s)) = conns (srv s)" "running (signal_handler n (srv s)) = running (srv s)"
    "server_sock (signal_handler n (srv s)) = server_sock (srv s)"
    by (simp_all add: signal_handler_def)
  have "threads_wf (s\<lparr>srv := signal_handler n (srv s),
      con := (con s)\<lparr>terminating := should_terminate (signal_handler n (srv s))\<rparr>, at := at s\<rparr>)"
    by (rule threads_wf_srv) (use inv in \<open>auto simp: sys_inv_def keep signal_handler_def intro: close_sock_keeps\<close>)
  then have "threads_wf ?s" by simp
  moreover have "server_wf (srv ?s) xs" if "server_wf (srv s) xs" for xs
    using that server_wf_cong [of "signal_handler n (srv s)" "srv s" xs] keep by simp
  ultimately show ?thesis
    by (intro sys_inv_update [OF inv]) (simp_all add: completed_def item_td_def keep, simp add: signal_handler_def)
qed

lemma sys_inv_handler: "handler_step s s' \<Longrightarrow> sys_inv s \<Longrightarrow> sys_inv s'"
proof (induction rule: handler_step.induct)
  case (serve s c)
  then have "sys_inv (s\<lparr>con := c, broken := broken s\<rparr>)"
    by (intro sys_inv_con) (simp_all add: thread_step_finished thread_step_terminating)
  then show ?case by simp
next
  case (write_fails s t c)
  then show ?case by (intro sys_inv_con) (simp_all add: write_failure_finished write_failure_terminating)
qed (simp_all add: sys_inv_close sys_inv_mark sys_inv_return)

section \<open>The main thread\<close>

abbreviation new_td :: "nat \<Rightarrow> nat \<Rightarrow> sockaddr_in \<Rightarrow> thread_data_t" where
  "new_td u fd addr \<equiv> \<lparr>td_thread = u, thread_complete = False, connection_fd = fd, client_addr = addr\<rparr>"

text \<open>What accepting a connection does to the server: a new item or none, with or without a thread.\<close>

lemma accept_connection_effect:
  assumes wf: "server_wf s xs" and ok: "malloc_ok (ac_item env) s"
  shows "\<exists>s' xs'. accept_connection env s = Some s' \<and> server_wf s' xs' \<and> server_sock s' = server_sock s \<and>
    should_terminate s' = should_terminate s \<and> socks s \<subseteq> socks s' \<and>
    (case new_thread env s of
       None \<Rightarrow> running s' = running s \<and>
         (tds s' = tds s \<or> (\<exists>a u fd addr. tds s a = None \<and> tds s' = (tds s)(a \<mapsto> new_td u fd addr)))
     | Some (a, fd, u) \<Rightarrow> running s' = insert a (running s) \<and> fd \<in> socks s' \<and> tds s a = None \<and>
         (\<exists>addr. tds s' = (tds s)(a \<mapsto> new_td u fd addr)))"
proof -
  from accept_connection_wf [OF wf ok] obtain s' xs' where
    s': "accept_connection env s = Some s'" "server_wf s' xs'" "should_terminate s' = should_terminate s" by blast
  have restore: "(tds s)(a := None) = tds s" if "ie_td (ac_item env) = Some (a, j)" for a j
    using ok that by (auto simp: malloc_ok_def fun_upd_idem)
  have fresh: "tds s a = None" if "ie_td (ac_item env) = Some (a, j)" for a j
    using ok that by (simp add: malloc_ok_def)
  have "server_sock s' = server_sock s" "socks s \<subseteq> socks s'"
    using s'(1) by (auto simp: accept_connection_def init_conn_list_item_def Let_def split: option.splits if_splits bind_splits)
  moreover have "case new_thread env s of
       None \<Rightarrow> running s' = running s \<and>
         (tds s' = tds s \<or> (\<exists>a u fd addr. tds s a = None \<and> tds s' = (tds s)(a \<mapsto> new_td u fd addr)))
     | Some (a, fd, u) \<Rightarrow> running s' = insert a (running s) \<and> fd \<in> socks s' \<and> tds s a = None \<and>
         (\<exists>addr. tds s' = (tds s)(a \<mapsto> new_td u fd addr))"
    using s'(1)
    by (auto simp: accept_connection_def init_conn_list_item_def new_thread_def Let_def restore fresh
        split: option.splits if_splits bind_splits) (metis fresh option.distinct(1) | blast)+
  ultimately show ?thesis using s' by blast
qed

text \<open>The thread data of threads that have not returned is allocated.\<close>

lemma thread_ok_td:
  assumes "threads_wf s" and "phases s a \<noteq> Gone"
  shows "\<exists>td. tds (srv s) a = Some td \<and> tids s (td_thread td) = Some a \<and> (thread_complete td \<longleftrightarrow> phases s a = Marked)"
  using threads_wfD(1) [OF assms(1), of a] assms(2) by (simp add: thread_ok_def)

lemma sock_of_cong: "tds (srv s') a = tds (srv s) a \<Longrightarrow> sock_of s' a = sock_of s a"
  by (simp add: sock_of_def)

lemma threads_wf_grow:
  assumes wf: "threads_wf s" and same: "running s' = running (srv s)" "server_sock s' = server_sock (srv s)" "socks (srv s) \<subseteq> socks s'"
    and old: "\<And>b td. tds (srv s) b = Some td \<Longrightarrow> tds s' b = Some td"
    and new: "\<And>b td. tds s' b = Some td \<Longrightarrow> thread_complete td \<Longrightarrow> tds (srv s) b = Some td"
  shows "threads_wf (s\<lparr>srv := s'\<rparr>)" (is "threads_wf ?s")
proof (rule threads_wfI)
  have sock: "sock_of ?s b = sock_of s b" if "phases s b \<noteq> Gone" for b
    using thread_ok_td [OF wf that] old by (auto intro: sock_of_cong)
  show "thread_ok ?s b" for b
    using threads_wfD(1) [OF wf, of b] sock [of b] same old [of b] by (auto simp: thread_ok_def)
  show "inj_on (sock_of ?s) (serving ?s)"
    using threads_wfD(2) [OF wf] sock by (auto simp: inj_on_def)
  show "t \<in> sock_of ?s ` serving ?s" if "pcs (con ?s) t \<noteq> Finished" for t
    using threads_wfD(3) [OF wf, of t] that sock by force
  show "tids ?s (td_thread td) = Some b" if "tds (srv ?s) b = Some td" "thread_complete td" for b td
    using threads_wfD(4) [OF wf, of b td] that new by simp
  show "\<exists>td. tds (srv ?s) b = Some td \<and> td_thread td = u" if "tids ?s u = Some b" for u b
    using threads_wfD(5) [OF wf, of u b] that old by auto
qed

lemma threads_wf_launch:
  assumes wf: "threads_wf s" and run: "running s' = insert a (running (srv s))"
    and same: "server_sock s' = server_sock (srv s)" "socks (srv s) \<subseteq> socks s'"
    and fresh: "tds (srv s) a = None" "tids s u = None" "fd \<notin> socks (srv s)" "server_sock (srv s) \<noteq> Some fd"
    and new: "tds s' = (tds (srv s))(a \<mapsto> new_td u fd addr)" "fd \<in> socks s'"
  shows "threads_wf ((launch (Some (a, fd, u)) ls s)\<lparr>srv := s'\<rparr>)" (is "threads_wf ?s")
proof (rule threads_wfI)
  have s: "phases ?s = (phases s)(a := Serving)" "tids ?s = (tids s)(u \<mapsto> a)" "srv ?s = s'"
    "pcs (con ?s) = (pcs (con s))(fd := ReadLine)"
    by (simp_all add: launch_def start_thread_def)
  have gone: "phases s a = Gone" using thread_ok_td [OF wf, of a] fresh(1) by auto
  have a: "sock_of ?s a = fd" by (simp add: sock_of_def s new)
  have other: "sock_of ?s b = sock_of s b" if "b \<noteq> a" for b
    using that by (simp add: sock_of_def s new)
  have id: "td_thread td \<noteq> u" if "tids s (td_thread td) = Some b" for td b using that fresh(2) by auto
  show "thread_ok ?s b" for b
  proof (cases "b = a")
    case True
    then show ?thesis unfolding thread_ok_def s using a run same new fresh(4) by simp
  next
    case False
    have "\<exists>td. tds s' b = Some td \<and> ((tids s)(u \<mapsto> a)) (td_thread td) = Some b \<and> (thread_complete td \<longleftrightarrow> phases s b = Marked)"
      if live: "phases s b \<noteq> Gone"
    proof -
      from thread_ok_td [OF wf live] obtain td where
        "tds (srv s) b = Some td" "tids s (td_thread td) = Some b" "thread_complete td \<longleftrightarrow> phases s b = Marked" by blast
      with id [of td b] False show ?thesis by (simp add: new)
    qed
    with False show ?thesis using threads_wfD(1) [OF wf, of b] run same unfolding thread_ok_def s other [OF False]
      by auto
  qed
  have open_sock: "sock_of s b \<noteq> fd" if "phases s b = Serving" for b
    using threads_wfD(1) [OF wf, of b] that fresh(3) by (auto simp: thread_ok_def)
  have ser: "serving ?s = insert a (serving s)" by (auto simp: s)
  have old: "sock_of ?s b = sock_of s b" if "phases s b = Serving" for b using that gone by (intro other) auto
  then have img: "sock_of ?s ` serving s = sock_of s ` serving s" by (intro image_cong) simp_all
  have "inj_on (sock_of ?s) (serving s)" using threads_wfD(2) [OF wf] old by (simp add: inj_on_def)
  moreover have "fd \<notin> sock_of ?s ` serving s" using open_sock by (auto simp: img)
  ultimately show "inj_on (sock_of ?s) (serving ?s)" using gone unfolding ser by (simp add: a)
  show "t \<in> sock_of ?s ` serving ?s" if "pcs (con ?s) t \<noteq> Finished" for t
  proof -
    have "sock_of ?s ` serving ?s = insert fd (sock_of s ` serving s)" unfolding ser by (simp add: a img)
    then show ?thesis using threads_wfD(3) [OF wf, of t] that s(4) by (cases "t = fd") simp_all
  qed
  show "tids ?s (td_thread td) = Some b" if "tds (srv ?s) b = Some td" "thread_complete td" for b td
    using threads_wfD(4) [OF wf, of b td] that id unfolding s new by (cases "b = a") auto
  show "\<exists>td. tds (srv ?s) b = Some td \<and> td_thread td = v" if "tids ?s v = Some b" for v b
    using threads_wfD(5) [OF wf, of v b] that fresh(1) unfolding s new by (cases "v = u"; cases "b = a") auto
qed

lemma sys_inv_accept:
  assumes inv: "sys_inv s" and law: "accept_lawful env s" and run: "accept_connection env (srv s) = Some s'"
  shows "sys_inv ((launch (new_thread env (srv s)) ls s)\<lparr>srv := s', at := Reap (LIST_FIRST (conns s') 0)\<rparr>)" (is "sys_inv ?s")
proof -
  obtain xs where wf: "server_wf (srv s) xs" and thr: "threads_wf s" and sync: "should_terminate (srv s) = terminating (con s)"
    using inv by (auto simp: sys_inv_def)
  from law have ok: "malloc_ok (ac_item env) (srv s)" by (simp add: accept_lawful_def)
  from accept_connection_effect [OF wf ok] run obtain xs' where
    wf': "server_wf s' xs'" and same: "server_sock s' = server_sock (srv s)" "should_terminate s' = should_terminate (srv s)"
      "socks (srv s) \<subseteq> socks s'" by auto
  have "threads_wf ((launch (new_thread env (srv s)) ls s)\<lparr>srv := s'\<rparr>)"
  proof (cases "new_thread env (srv s)")
    case None
    from accept_connection_effect [OF wf ok] run None have "running s' = running (srv s)" and
      eff: "tds s' = tds (srv s) \<or> (\<exists>a u fd addr. tds (srv s) a = None \<and> tds s' = (tds (srv s))(a \<mapsto> new_td u fd addr))"
      by auto
    then have "threads_wf (s\<lparr>srv := s'\<rparr>)"
      by (intro threads_wf_grow [OF thr]) (use same in \<open>auto split: if_splits\<close>)
    then show ?thesis using None by (simp add: launch_def)
  next
    case (Some new)
    obtain a fd u where new: "new = (a, fd, u)" by (cases new)
    from accept_connection_effect [OF wf ok] run Some new obtain addr where eff: "running s' = insert a (running (srv s))"
      "fd \<in> socks s'" "tds (srv s) a = None" "tds s' = (tds (srv s))(a \<mapsto> new_td u fd addr)" by auto
    from Some new law have "fd \<notin> socks (srv s)" "server_sock (srv s) \<noteq> Some fd" "tids s u = None"
      by (auto simp: new_thread_def accept_lawful_def split: if_splits option.splits)
    with eff show ?thesis unfolding Some new by (intro threads_wf_launch [OF thr]) (simp_all add: same)
  qed
  moreover have "terminating (con ?s) = terminating (con s)"
    by (simp add: launch_def start_thread_def split: option.splits prod.splits)
  moreover have "\<exists>ys zs. xs' = ys @ zs \<and> LIST_FIRST (conns s') 0 = head_of zs"
    using dlist.rep_first [OF server_wf_rep [OF wf']] by (intro exI [of _ "[]"] exI [of _ xs']) simp
  ultimately show ?thesis unfolding sys_inv_def main_at_def using wf' same(2) sync
    by (intro conjI exI [of _ xs']) simp_all
qed

text \<open>A marked item: its thread can be joined, and it has returned or is about to.\<close>

lemma completed_thread:
  assumes thr: "threads_wf s" and wf: "server_wf (srv s) xs" and x: "x \<in> set xs" "completed (srv s) x"
  obtains td where "item_td (srv s) x = Some td" "thread_complete td" "tds (srv s) (item_of (srv s) x) = Some td"
    "tids s (td_thread td) = Some (item_of (srv s) x)"
    "phases s (item_of (srv s) x) = Marked \<or> phases s (item_of (srv s) x) = Gone"
proof -
  let ?a = "item_of (srv s) x"
  from server_wf_item [OF wf x(1)] x(2) obtain td where
    td: "item_td (srv s) x = Some td" "tds (srv s) ?a = Some td" "thread_complete td" by (auto simp: completed_def)
  moreover have "phases s ?a = Marked \<or> phases s ?a = Gone"
    using thread_ok_td [OF thr, of ?a] td by (cases "phases s ?a") auto
  ultimately show thesis using that threads_wfD(4) [OF thr td(2,3)] by blast
qed

lemma threads_wf_reap:
  assumes wf: "threads_wf s" and a: "phases s a = Gone" "tds (srv s) a = Some td" "tids s (td_thread td) = Some a"
    and same: "running s' = running (srv s)" "server_sock s' = server_sock (srv s)" "socks s' = socks (srv s)"
    and free: "tds s' = (tds (srv s))(a := None)"
  shows "threads_wf (s\<lparr>srv := s', tids := (tids s)(td_thread td := None)\<rparr>)" (is "threads_wf ?s")
proof (rule threads_wfI)
  have other: "sock_of ?s b = sock_of s b" if "phases s b \<noteq> Gone" for b
    using that a(1) by (auto simp: sock_of_def free)
  have id: "td_thread td' \<noteq> td_thread td" if "tids s (td_thread td') = Some b" "b \<noteq> a" for td' b
    using that a(3) by auto
  show "thread_ok ?s b" for b
  proof (cases "phases s b = Gone")
    case True
    then show ?thesis using threads_wfD(1) [OF wf, of b] by (simp add: thread_ok_def same)
  next
    case False
    from thread_ok_td [OF wf False] obtain td' where
      "tds (srv s) b = Some td'" "tids s (td_thread td') = Some b" "thread_complete td' \<longleftrightarrow> phases s b = Marked" by blast
    moreover have "b \<noteq> a" using False a(1) by auto
    ultimately have "\<exists>td'. tds s' b = Some td' \<and> ((tids s)(td_thread td := None)) (td_thread td') = Some b \<and>
        (thread_complete td' \<longleftrightarrow> phases s b = Marked)"
      using id [of td' b] by (simp add: free)
    then show ?thesis using threads_wfD(1) [OF wf, of b] other [OF False] by (simp add: thread_ok_def same)
  qed
  have old: "sock_of ?s b = sock_of s b" if "phases s b = Serving" for b using that by (intro other) simp
  then show "inj_on (sock_of ?s) (serving ?s)" using threads_wfD(2) [OF wf] by (simp add: inj_on_def)
  have "sock_of ?s ` serving ?s = sock_of s ` serving s" using old by (intro image_cong) simp_all
  then show "t \<in> sock_of ?s ` serving ?s" if "pcs (con ?s) t \<noteq> Finished" for t
    using threads_wfD(3) [OF wf, of t] that by simp
  show "tids ?s (td_thread td') = Some b" if "tds (srv ?s) b = Some td'" "thread_complete td'" for b td'
    using threads_wfD(4) [OF wf, of b td'] that id [of td' b] by (simp add: free split: if_splits)
  show "\<exists>td'. tds (srv ?s) b = Some td' \<and> td_thread td' = u" if "tids ?s u = Some b" for u b
    using threads_wfD(5) [OF wf, of u b] that a(2) by (auto simp: free split: if_splits)
qed

text \<open>The join of a marked item and the freeing of its memory, in either pass.\<close>

lemma join_effect:
  assumes inv: "threads_wf s" and wf: "server_wf (srv s) (ys @ x # zs)" and x: "completed (srv s) x"
    and step: "item_td (srv s) x = Some td" "tids s (td_thread td) = Some a" "phases s a = Gone"
      "reap_body (\<lambda>_. 0) x (srv s) = Some s'"
  shows "server_wf s' (ys @ zs)" and "threads_wf (s\<lparr>srv := s', tids := (tids s)(td_thread td := None)\<rparr>)"
    and "should_terminate s' = should_terminate (srv s)" and "LIST_NEXT (conns s') x = None"
    and "a = item_of (srv s) x" and "tds s' = (tds (srv s))(a := None)"
proof -
  from completed_thread [OF inv wf _ x] step(1) have
    td: "tds (srv s) (item_of (srv s) x) = Some td" "tids s (td_thread td) = Some (item_of (srv s) x)" by auto
  then show a: "a = item_of (srv s) x" using step(2) by simp
  from reap_body_removes [OF wf x, of "\<lambda>_. 0"] step(4) have
    s': "server_wf s' (ys @ zs)" "socks s' = socks (srv s)" "running s' = running (srv s)" "server_sock s' = server_sock (srv s)"
      "should_terminate s' = should_terminate (srv s)" "tds s' = (tds (srv s))(item_of (srv s) x := None)" by auto
  show "server_wf s' (ys @ zs)" "should_terminate s' = should_terminate (srv s)" "tds s' = (tds (srv s))(a := None)"
    using s' a by simp_all
  show "threads_wf (s\<lparr>srv := s', tids := (tids s)(td_thread td := None)\<rparr>)"
    by (rule threads_wf_reap [OF inv step(3)]) (use td a s' in simp_all)
  have "x \<notin> set (ys @ zs)" using wf by (auto simp: server_wf_def dest: list_rep_distinct)
  then have "x \<notin> list_live (conns s')" using s'(1) by (simp add: server_wf_def)
  then show "LIST_NEXT (conns s') x = None" by (simp add: live_node LIST_NEXT_def)
qed

lemma at_element:
  assumes wf: "server_wf s xs" and xs: "xs = ys @ zs" "Some x = head_of zs"
  obtains zs' where "xs = ys @ x # zs'" "LIST_NEXT (conns s) x = Some (head_of zs')" "item_td s x \<noteq> None"
proof -
  from head_of_split [OF xs(2) [symmetric]] obtain zs' where zs: "xs = ys @ x # zs'" using xs(1) by blast
  moreover have "LIST_NEXT (conns s) x = Some (head_of zs')"
    using dlist.rep_next [OF server_wf_rep [OF wf [unfolded zs]]] .
  moreover have "item_td s x \<noteq> None" using server_wf_item [OF wf, of x] zs by simp
  ultimately show thesis by (rule that)
qed

lemma reap_body_ok:
  assumes "server_wf s (ys @ x # zs)" and "completed s x"
  shows "reap_body joins x s \<noteq> None"
  using reap_body_removes [OF assms, of joins] by auto

text \<open>The two passes at an element: it is in the list, with its links and its item allocated.\<close>

lemma pass_element:
  assumes inv: "sys_inv s" and at: "at s = Reap (Some x) \<or> at s = Final (Some x)"
  obtains xs ys zs where "server_wf (srv s) xs" "xs = ys @ x # zs" "LIST_NEXT (conns (srv s)) x = Some (head_of zs)"
    "item_td (srv s) x \<noteq> None"
proof -
  obtain xs ys zs where "server_wf (srv s) xs" "xs = ys @ zs" "Some x = head_of zs"
    using inv at by (auto simp: sys_inv_def main_at_def)
  then show thesis by (rule at_element) (use \<open>server_wf (srv s) xs\<close> that in blast)
qed

lemma join_element:
  assumes inv: "sys_inv s" and at: "at s = Join x v \<or> at s = FinalJoin x"
  obtains ys zs where "server_wf (srv s) (ys @ x # zs)" "completed (srv s) x" "at s = Join x v \<Longrightarrow> v = head_of zs"
proof -
  obtain xs where "server_wf (srv s) xs" and m: "main_at s xs" using inv by (auto simp: sys_inv_def)
  moreover have "x \<in> set xs" "completed (srv s) x" using m at by (auto simp: main_at_def)
  moreover from m at \<open>x \<in> set xs\<close> obtain ys zs where "xs = ys @ x # zs" "at s = Join x v \<longrightarrow> v = head_of zs"
    by (cases "at s = Join x v") (auto simp: main_at_def dest: split_list)
  ultimately show thesis using that by blast
qed

text \<open>Faults cannot happen, but for the one after the final pass has freed an element.\<close>

lemma no_pass_fault:
  assumes "sys_inv s" and "at s = Reap (Some x) \<or> at s = Final (Some x)"
  shows "LIST_NEXT (conns (srv s)) x \<noteq> None" and "item_td (srv s) x \<noteq> None"
  using pass_element [OF assms] by fastforce+

lemma no_join_fault:
  assumes inv: "sys_inv s" and at: "at s = Join x v \<or> at s = FinalJoin x"
  shows "\<exists>td. item_td (srv s) x = Some td \<and> tids s (td_thread td) = Some (item_of (srv s) x) \<and>
    reap_body (\<lambda>_. 0) x (srv s) \<noteq> None \<and>
    (phases s (item_of (srv s) x) = Marked \<or> phases s (item_of (srv s) x) = Gone)"
proof -
  from join_element [OF inv at] obtain ys zs where e: "server_wf (srv s) (ys @ x # zs)" "completed (srv s) x" by blast
  have "threads_wf s" using inv by (simp add: sys_inv_def)
  from completed_thread [OF this e(1) _ e(2)] reap_body_ok [OF e, of "\<lambda>_. 0"] show ?thesis by auto
qed

lemma no_accept_fault: "sys_inv s \<Longrightarrow> accept_lawful env s \<Longrightarrow> accept_connection env (srv s) \<noteq> None"
  using accept_connection_effect by (fastforce simp: sys_inv_def accept_lawful_def)

text \<open>The passes move on along the list.\<close>

lemma sys_inv_pass:
  assumes inv: "sys_inv s" and at: "at s = Reap (Some x) \<or> at s = Final (Some x)" and v: "LIST_NEXT (conns (srv s)) x = Some v"
  shows "at s = Reap (Some x) \<Longrightarrow> sys_inv (s\<lparr>at := Reap v\<rparr>)"
    and "at s = Final (Some x) \<Longrightarrow> sys_inv (s\<lparr>at := Final v\<rparr>)"
    and "at s = Reap (Some x) \<Longrightarrow> completed (srv s) x \<Longrightarrow> sys_inv (s\<lparr>at := Join x v\<rparr>)"
    and "at s = Final (Some x) \<Longrightarrow> completed (srv s) x \<Longrightarrow> sys_inv (s\<lparr>at := FinalJoin x\<rparr>)"
proof -
  obtain xs ys zs where e: "server_wf (srv s) xs" "xs = ys @ x # zs" "v = head_of zs"
    by (rule pass_element [OF inv at]) (use v that in force)
  have next_v: "\<exists>us vs. xs = us @ vs \<and> v = head_of vs"
    by (rule exI [of _ "ys @ [x]"], rule exI [of _ zs]) (simp add: e)
  have stop: "at s = Final (Some x) \<Longrightarrow> should_terminate (srv s)" using inv by (auto simp: sys_inv_def main_at_def)
  have upd: "sys_inv (s\<lparr>at := p\<rparr>)" if "main_at (s\<lparr>at := p\<rparr>) xs" for p
    using inv e(1) that by (auto simp: sys_inv_def)
  show "at s = Reap (Some x) \<Longrightarrow> sys_inv (s\<lparr>at := Reap v\<rparr>)" by (rule upd) (simp add: main_at_def next_v)
  show "at s = Final (Some x) \<Longrightarrow> sys_inv (s\<lparr>at := Final v\<rparr>)" by (rule upd) (simp add: main_at_def next_v stop)
  show "at s = Reap (Some x) \<Longrightarrow> completed (srv s) x \<Longrightarrow> sys_inv (s\<lparr>at := Join x v\<rparr>)"
    by (rule upd) (use e(2,3) in \<open>auto simp: main_at_def\<close>)
  show "at s = Final (Some x) \<Longrightarrow> completed (srv s) x \<Longrightarrow> sys_inv (s\<lparr>at := FinalJoin x\<rparr>)"
    by (rule upd) (simp add: main_at_def stop e(2))
qed

lemma sys_inv_joined:
  assumes inv: "sys_inv s" and at: "at s = Join x v \<or> at s = FinalJoin x"
    and step: "item_td (srv s) x = Some td" "tids s (td_thread td) = Some a" "phases s a = Gone"
      "reap_body (\<lambda>_. 0) x (srv s) = Some s'"
  shows "at s = Join x v \<Longrightarrow> sys_inv (s\<lparr>srv := s', tids := (tids s)(td_thread td := None), at := Reap v\<rparr>)"
    and "at s = FinalJoin x \<Longrightarrow> sys_inv (s\<lparr>srv := s', tids := (tids s)(td_thread td := None), at := Crashed\<rparr>)"
    and "LIST_NEXT (conns s') x = None" and "a = item_of (srv s) x" and "tds s' = (tds (srv s))(a := None)"
proof -
  from join_element [OF inv at] obtain ys zs where
    e: "server_wf (srv s) (ys @ x # zs)" "completed (srv s) x" "at s = Join x v \<Longrightarrow> v = head_of zs" by blast
  have thr: "threads_wf s" and sync: "should_terminate (srv s) = terminating (con s)"
    and stop: "at s = FinalJoin x \<Longrightarrow> should_terminate (srv s)"
    using inv by (auto simp: sys_inv_def main_at_def)
  note eff = join_effect [OF thr e(1,2) step]
  have upd: "sys_inv (s\<lparr>srv := s', tids := (tids s)(td_thread td := None), at := p\<rparr>)"
    if "main_at (s\<lparr>srv := s', tids := (tids s)(td_thread td := None), at := p\<rparr>) (ys @ zs)" for p
    using that eff(1-3) sync by (auto simp: sys_inv_def)
  show "at s = Join x v \<Longrightarrow> sys_inv (s\<lparr>srv := s', tids := (tids s)(td_thread td := None), at := Reap v\<rparr>)"
    by (rule upd) (use e(3) in \<open>auto simp: main_at_def\<close>)
  show "at s = FinalJoin x \<Longrightarrow> sys_inv (s\<lparr>srv := s', tids := (tids s)(td_thread td := None), at := Crashed\<rparr>)"
    by (rule upd) (use stop eff(3) in \<open>simp add: main_at_def\<close>)
  show "LIST_NEXT (conns s') x = None" "a = item_of (srv s) x" "tds s' = (tds (srv s))(a := None)" using eff(4-6) by simp_all
qed

lemma sys_inv_end:
  assumes inv: "sys_inv s" and at: "at s = Final None"
  shows "sys_inv (s\<lparr>srv := close_sock (server_sock (srv s)) (srv s), at := Returned\<rparr>)" (is "sys_inv ?s")
proof -
  obtain xs where xs: "server_wf (srv s) xs" using inv by (auto simp: sys_inv_def)
  have "threads_wf (s\<lparr>srv := close_sock (server_sock (srv s)) (srv s), con := con s, at := Returned\<rparr>)"
    by (rule threads_wf_srv) (use inv in \<open>auto simp: sys_inv_def intro: close_sock_keeps\<close>)
  then have "threads_wf ?s" by simp
  moreover have "server_wf (srv ?s) xs" using xs by (subst server_wf_cong [of _ "srv s"]) simp_all
  moreover have "main_at ?s xs" using inv at by (auto simp: sys_inv_def main_at_def)
  ultimately show ?thesis using inv by (auto simp: sys_inv_def)
qed

lemma sys_inv_main: "main_step s s' \<Longrightarrow> sys_inv s \<Longrightarrow> sys_inv s'"
proof (induction rule: main_step.induct)
  case (check_off s)
  have "main_at (s\<lparr>at := Final (LIST_FIRST (conns (srv s)) 0)\<rparr>) xs" if "server_wf (srv s) xs" for xs
    using check_off(2) dlist.rep_first [OF server_wf_rep [OF that]] by (auto simp: main_at_def)
  then show ?case using check_off.prems by (intro sys_inv_move)
next
  case (join_fault s x v)
  then show ?case using no_join_fault [of s x v] by (auto split: option.splits)
next
  case (final_fault s x)
  then show ?case using no_pass_fault [of s x] by (auto split: option.splits)
next
  case (final_join_fault s x)
  then show ?case using no_join_fault [of s x] by (auto split: option.splits)
next
  case (final_joined s x td a s' v)
  then show ?case using sys_inv_joined(3) [of s x None td a s'] by simp
next
  case (final_join s x td)
  then obtain v where "LIST_NEXT (conns (srv s)) x = Some v" using no_pass_fault(1) [of s x] by auto
  then show ?case using sys_inv_pass(4) [of s x v] final_join by (simp add: completed_def)
next
  case (accept_fault s env)
  then show ?case using no_accept_fault [of s env] by simp
next
  case (reap_fault s x)
  then show ?case using no_pass_fault [of s x] by auto
next
  case (reap_keep s x v td)
  then show ?case by (intro sys_inv_pass(1)) simp_all
next
  case (final_keep s x td v)
  then show ?case by (intro sys_inv_pass(2)) simp_all
next
  case (reap_join s x v td)
  then show ?case by (intro sys_inv_pass(3)) (simp_all add: completed_def)
next
  case (join s x v td a s')
  then show ?case by (intro sys_inv_joined(1)) simp_all
next
  case (final_freed s x td a s')
  then show ?case by (intro sys_inv_joined(2) [of s x None td a s']) simp_all
qed (simp_all add: sys_inv_accept sys_inv_end sys_inv_move main_at_def)

lemma sys_inv_step: "sys_step s s' \<Longrightarrow> sys_inv s \<Longrightarrow> sys_inv s'"
  by (auto elim!: sys_stepE intro: sys_inv_main sys_inv_handler sys_inv_signal)

section \<open>The filestore\<close>

text \<open>A new thread on a socket on which no loop runs.\<close>

lemma conf_inv_start_thread:
  assumes inv: "conf_inv v0 ins c" and idle: "pcs c fd = Finished"
  shows "conf_inv v0 (ins(fd := lines_of fd (hist c) @ ls)) (start_thread fd ls c)"
proof -
  have hold: "holding (pcs (start_thread fd ls c) t) = holding (pcs c t)" for t
    using idle by (simp add: start_thread_def)
  have keep: "cworld (start_thread fd ls c) = cworld c" "hist (start_thread fd ls c) = hist c"
    by (simp_all add: start_thread_def)
  have lines: "lines_of t (hist c) @ in_hand (pcs (start_thread fd ls c) t) @ dropped (start_thread fd ls c) t @
      inputs (start_thread fd ls c) t = (ins(fd := lines_of fd (hist c) @ ls)) t" for t
    using inv by (simp add: conf_inv_def start_thread_def)
  have gone: "pcs (start_thread fd ls c) t = Finished \<and>
      (terminating (start_thread fd ls c) \<or> op_failed (start_thread fd ls c) t)" if "dropped (start_thread fd ls c) t \<noteq> []" for t
    using inv that by (auto simp: conf_inv_def start_thread_def split: if_splits)
  have echo: "echo_ok (op_failed (start_thread fd ls c) t) (lost (start_thread fd ls c) t) (cworld c)
      (pcs (start_thread fd ls c) t) t (due (start_thread fd ls c) t)" for t
    using inv_facts(2) [OF inv, of t] by (cases "t = fd") (simp_all add: start_thread_def echo_ok_def received_def)
  have reading: "reading_open (cworld c) (pcs (start_thread fd ls c) t)" for t
    using inv_facts(4) [OF inv, of t] by (simp add: start_thread_def)
  show ?thesis
    unfolding conf_inv_def hold keep using inv lines gone echo reading by (simp add: conf_inv_def)
qed

lemma store_inv_launch:
  assumes inv: "store_inv v0 s" and thr: "threads_wf s" and new: "new_thread env (srv s) = Some (a, fd, u)"
    and law: "accept_lawful env s"
  shows "store_inv v0 ((launch (Some (a, fd, u)) ls s)\<lparr>srv := s', at := p\<rparr>)"
proof -
  have "fd \<notin> socks (srv s)" using new law by (auto simp: new_thread_def accept_lawful_def split: if_splits option.splits)
  then have idle: "pcs (con s) fd = Finished"
    using threads_wfD(1,3) [OF thr] by (fastforce simp: thread_ok_def)
  have eq: "(\<lambda>t. before s t @ client s t)(fd := lines_of fd (hist (con s)) @ ls) =
      (\<lambda>t. ((before s)(fd := lines_of fd (hist (con s)))) t @ ((client s)(fd := ls)) t)" by auto
  show ?thesis
    using inv conf_inv_start_thread [OF _ idle, of v0 "\<lambda>t. before s t @ client s t" ls] unfolding eq
    by (auto simp: store_inv_def launch_def) (simp_all add: start_thread_def)
qed

lemma store_inv_cong:
  "con s' = con s \<Longrightarrow> before s' = before s \<Longrightarrow> client s' = client s \<Longrightarrow> broken s' = broken s \<Longrightarrow> store_inv v0 s' = store_inv v0 s"
  by (simp add: store_inv_def)

lemma store_inv_main: "main_step s s' \<Longrightarrow> threads_wf s \<Longrightarrow> store_inv v0 s \<Longrightarrow> store_inv v0 s'"
proof (induction rule: main_step.induct)
  case (accept s env s' ls)
  show ?case
  proof (cases "new_thread env (srv s)")
    case None
    then show ?thesis using accept.prems(2) by (simp add: launch_def store_inv_def)
  next
    case (Some new)
    then show ?thesis using store_inv_launch [OF accept.prems(2,1) _ accept(2)] by (cases new) auto
  qed
qed (simp_all add: store_inv_def)

lemma store_inv_handler: "handler_step s s' \<Longrightarrow> store_inv v0 s \<Longrightarrow> store_inv v0 s'"
proof (induction rule: handler_step.induct)
  case (serve s c)
  then show ?case using conf_inv_step [OF serve(2)] thread_step_hist [OF serve(2)]
    by (auto simp: store_inv_def intro: prefix_order.trans)
qed (simp_all add: store_inv_def)

lemma conf_inv_terminating: "conf_inv v0 ins c \<Longrightarrow> (terminating c \<longrightarrow> b) \<Longrightarrow> conf_inv v0 ins (c\<lparr>terminating := b\<rparr>)"
  by (cases b) (auto simp: conf_inv_def)

lemma store_inv_step: "sys_step s s' \<Longrightarrow> sys_inv s \<Longrightarrow> store_inv v0 s \<Longrightarrow> store_inv v0 s'"
proof (induction rule: sys_step.induct)
  case (signal s signum)
  then have "terminating (con s) \<longrightarrow> should_terminate (signal_handler signum (srv s))"
    by (simp add: sys_inv_def signal_handler_def)
  with signal show ?case by (auto simp: store_inv_def intro: conf_inv_terminating)
qed (auto simp: sys_inv_def intro: store_inv_main store_inv_handler)

section \<open>Reachable states\<close>

lemma sys_inv_start:
  assumes "server_wf s []" and "\<not> should_terminate s"
  shows "sys_inv (sys_start w s)"
proof -
  have "running s = {}" "tds s = Map.empty" using assms(1) by (auto simp: server_wf_def)
  then have "threads_wf (sys_start w s)" by (auto simp: threads_wf_def thread_ok_def sys_start_def start_conf_def)
  then show ?thesis using assms by (auto simp: sys_inv_def sys_start_def main_at_def start_conf_def)
qed

lemma store_inv_start: "dev_store_inv w \<Longrightarrow> store_inv (dev_view (kern w)) (sys_start w s)"
  by (auto simp: store_inv_def sys_start_def start_conf_def conf_inv_def dev_store_inv_def echo_ok_def received_def)

lemma reachable_sys_inv:
  assumes "sys_reachable w s0 s" and "server_wf s0 []" and "\<not> should_terminate s0"
  shows "sys_inv s"
  using assms(1)
proof (induction rule: rtranclp_induct)
  case base
  then show ?case using assms(2,3) by (rule sys_inv_start)
next
  case (step s s')
  then show ?case using sys_inv_step by blast
qed

lemma reachable_store_inv:
  assumes "sys_reachable w s0 s" and "server_wf s0 []" and "\<not> should_terminate s0" and "dev_store_inv w"
  shows "store_inv (dev_view (kern w)) s"
  using assms(1)
proof (induction rule: rtranclp_induct)
  case base
  then show ?case using assms(4) by (rule store_inv_start)
next
  case (step s s')
  then show ?case using store_inv_step reachable_sys_inv [OF step.hyps(1) assms(2,3)] by blast
qed

section \<open>What a step frees\<close>

lemma main_step_frees:
  assumes inv: "sys_inv s" and step: "main_step s s'" and free: "tds (srv s) a = Some td" "tds (srv s') a = None"
  shows "phases s a = Gone \<and> thread_complete td"
  using step
proof cases
  case (accept env s1 ls)
  obtain xs where "server_wf (srv s) xs" using inv by (auto simp: sys_inv_def)
  moreover have "malloc_ok (ac_item env) (srv s)" using accept(3) by (simp add: accept_lawful_def)
  ultimately show ?thesis using accept_connection_effect [of "srv s" xs env] accept(1,4) free
    by (auto split: option.splits if_splits)
next
  case (join x v td' b s1)
  note j = sys_inv_joined(4,5) [OF inv disjI1 [OF join(2)] join(3-6)]
  then have "a = b" using join(1) free by (auto split: if_splits)
  moreover from join_element [OF inv disjI1 [OF join(2)]] obtain ys zs where
    "server_wf (srv s) (ys @ x # zs)" "completed (srv s) x" by blast
  ultimately show ?thesis using j(1) join(3,5) free(1) server_wf_item(2) [of "srv s" "ys @ x # zs" x] by (simp add: completed_def)
next
  case (final_freed x td' b s1)
  note j = sys_inv_joined(4,5) [OF inv disjI2 [OF final_freed(2)] final_freed(3-6)]
  then have "a = b" using final_freed(1) free by (auto split: if_splits)
  moreover from join_element [OF inv disjI2 [OF final_freed(2)]] obtain ys zs where
    "server_wf (srv s) (ys @ x # zs)" "completed (srv s) x" by blast
  ultimately show ?thesis using j(1) final_freed(3,5) free(1) server_wf_item(2) [of "srv s" "ys @ x # zs" x] by (simp add: completed_def)
next
  case (final_joined x td' b s1 v)
  then show ?thesis using sys_inv_joined(3) [OF inv disjI2 [OF final_joined(2)] final_joined(3-6)] by simp
qed (use free in simp_all)

lemma handler_step_frees: "handler_step s s' \<Longrightarrow> tds (srv s) a = Some td \<Longrightarrow> tds (srv s') a \<noteq> None"
  by (erule handler_step.cases) auto

lemma sys_step_frees:
  assumes "sys_inv s" and "sys_step s s'" and "tds (srv s) a = Some td" and "tds (srv s') a = None"
  shows "phases s a = Gone \<and> thread_complete td"
  using assms(2)
proof cases
  case main
  then show ?thesis using main_step_frees [OF assms(1) _ assms(3,4)] by blast
next
  case handler
  then show ?thesis using handler_step_frees [OF _ assms(3)] assms(4) by blast
next
  case (signal n)
  then show ?thesis using assms(3,4) by (simp add: signal_handler_def split: if_splits)
qed

lemma main_step_crashes:
  assumes inv: "sys_inv s" and step: "main_step s s'"
  shows "at s' = Crashed \<longleftrightarrow> (\<exists>x. at s = FinalJoin x)"
  using step
proof cases
  case (accept_fault env)
  then show ?thesis using no_accept_fault [OF inv accept_fault(3)] by simp
next
  case (reap_fault x)
  then show ?thesis using no_pass_fault [OF inv disjI1 [OF reap_fault(2)]] by simp
next
  case (final_fault x)
  then show ?thesis using no_pass_fault [OF inv disjI2 [OF final_fault(2)]] by (auto split: option.splits)
next
  case (join_fault x v)
  then show ?thesis using no_join_fault [OF inv disjI1 [OF join_fault(2)]] by (auto split: option.splits)
next
  case (final_joined x td' b s1 v)
  then show ?thesis using sys_inv_joined(3) [OF inv disjI2 [OF final_joined(2)] final_joined(3-6)] by simp
qed (auto simp: launch_def split: option.splits)

section \<open>Progress of the two passes\<close>

text \<open>
  The elements a pass has still to visit, and the steps it takes at most as long as it is in the pass.
  The step from \<open>FinalJoin\<close> on reads freed memory, so \<open>FinalJoin\<close> and \<open>Crashed\<close> are neither
  in a pass nor the end of one.
\<close>

definition rest_of :: "list_store \<Rightarrow> nat option \<Rightarrow> nat list" where
  "rest_of l v = (THE zs. \<exists>ys. list_rep 0 l (ys @ zs) \<and> v = head_of zs)"

definition pass_left :: "system \<Rightarrow> nat" where
  "pass_left s =
     (case at s of
        Reap v \<Rightarrow> 2 * length (rest_of (conns (srv s)) v) + 1
      | Join x v \<Rightarrow> 2 * length (rest_of (conns (srv s)) v) + 2
      | Final v \<Rightarrow> 2 * length (rest_of (conns (srv s)) v) + 1
      | _ \<Rightarrow> 0)"

text \<open>The main thread is in the reaping pass, in the final pass, and the item whose thread it waits for.\<close>

definition reaping :: "system \<Rightarrow> bool" where
  "reaping s \<longleftrightarrow> (case at s of Reap _ \<Rightarrow> True | Join _ _ \<Rightarrow> True | _ \<Rightarrow> False)"

definition in_final :: "system \<Rightarrow> bool" where
  "in_final s \<longleftrightarrow> (case at s of Final _ \<Rightarrow> True | _ \<Rightarrow> False)"

definition joining :: "system \<Rightarrow> nat \<Rightarrow> bool" where
  "joining s x \<longleftrightarrow> (case at s of Join y _ \<Rightarrow> y = x | FinalJoin y \<Rightarrow> y = x | _ \<Rightarrow> False)"

lemma same_suffix:
  assumes "ys @ zs = ys' @ zs'" and "head_of zs = head_of zs'" and "distinct (ys @ zs)"
  shows "zs = zs'"
proof (cases zs)
  case Nil
  then show ?thesis using assms(2) by (cases zs') auto
next
  case (Cons z us)
  then obtain us' where us': "zs' = z # us'" using assms(2) by (cases zs') auto
  have "z \<notin> set ys" "z \<notin> set us" using assms(3) Cons by auto
  then show ?thesis using assms(1) unfolding Cons us' by (metis append_Cons_eq_iff assms(3) distinct.simps(2) distinct_append us' Cons)
qed

lemma rest_of_eq:
  assumes "list_rep 0 l (ys @ zs)"
  shows "rest_of l (head_of zs) = zs"
  unfolding rest_of_def
proof (rule the_equality)
  show "\<exists>ys. list_rep 0 l (ys @ zs) \<and> head_of zs = head_of zs" using assms by blast
  fix zs'
  assume "\<exists>ys'. list_rep 0 l (ys' @ zs') \<and> head_of zs = head_of zs'"
  then obtain ys' where *: "list_rep 0 l (ys' @ zs')" "head_of zs = head_of zs'" by blast
  have "ys @ zs = ys' @ zs'" using list_rep_unique [OF assms *(1)] .
  then show "zs' = zs" using same_suffix [OF _ *(2)] list_rep_distinct [OF assms] by blast
qed

lemma pass_left_element:
  assumes inv: "sys_inv s" and at: "at s = Reap (Some x) \<or> at s = Final (Some x)" and v: "LIST_NEXT (conns (srv s)) x = Some v"
  shows "pass_left s = 2 * length (rest_of (conns (srv s)) v) + 3"
proof -
  obtain ys zs where e: "server_wf (srv s) (ys @ x # zs)" "v = head_of zs"
    by (rule pass_element [OF inv at]) (use v that in force)
  have "rest_of (conns (srv s)) (head_of (x # zs)) = x # zs" by (rule rest_of_eq [OF server_wf_rep [OF e(1)]])
  moreover have "rest_of (conns (srv s)) (head_of zs) = zs"
    using rest_of_eq [of "conns (srv s)" "ys @ [x]" zs] server_wf_rep [OF e(1)] by simp
  ultimately show ?thesis using at by (auto simp: pass_left_def e(2))
qed

lemma pass_left_join:
  assumes inv: "sys_inv s" and at: "at s = Join x v" and run: "reap_body joins x (srv s) = Some s'"
  shows "rest_of (conns s') v = rest_of (conns (srv s)) v"
proof -
  from join_element [OF inv disjI1 [OF at]] at obtain ys zs where
    e: "server_wf (srv s) (ys @ x # zs)" "completed (srv s) x" "v = head_of zs" by blast
  from reap_body_removes [OF e(1,2), of joins] run have "server_wf s' (ys @ zs)" by auto
  then have "rest_of (conns s') v = zs" using rest_of_eq [OF server_wf_rep] e(3) by simp
  moreover have "rest_of (conns (srv s)) v = zs"
    using rest_of_eq [of "conns (srv s)" "ys @ [x]" zs] server_wf_rep [OF e(1)] e(3) by simp
  ultimately show ?thesis by simp
qed

lemma reaping_main_step:
  assumes "sys_inv s" and "reaping s" and "main_step s s'"
  shows "reaping s' \<and> pass_left s' < pass_left s \<or> at s' = LoopTop"
  using assms(3)
proof cases
  case (reap_keep x v td)
  then show ?thesis
    using pass_left_element [OF assms(1) disjI1 [OF reap_keep(2)] reap_keep(3)] by (simp add: pass_left_def reaping_def)
next
  case (reap_join x v td)
  then show ?thesis
    using pass_left_element [OF assms(1) disjI1 [OF reap_join(2)] reap_join(3)] by (simp add: pass_left_def reaping_def)
next
  case (join x v td a s1)
  then show ?thesis using pass_left_join [OF assms(1) join(2,6)] by (simp add: pass_left_def reaping_def)
next
  case (reap_fault x)
  then show ?thesis using main_step_crashes [OF assms(1,3)] by simp
next
  case (join_fault x v)
  then show ?thesis using main_step_crashes [OF assms(1,3)] by simp
qed (use assms(2) in \<open>simp_all add: reaping_def\<close>)

lemma final_main_step:
  assumes "sys_inv s" and "in_final s" and "main_step s s'"
  shows "in_final s' \<and> pass_left s' < pass_left s \<or> at s' = Returned \<or>
    (\<exists>x. at s = Final (Some x) \<and> completed (srv s) x \<and> at s' = FinalJoin x)"
  using assms(3)
proof cases
  case (final_keep x td v)
  then show ?thesis
    using pass_left_element [OF assms(1) disjI2 [OF final_keep(2)] final_keep(5)] by (simp add: pass_left_def in_final_def)
next
  case (final_join x td)
  then show ?thesis by (simp add: completed_def)
next
  case (final_fault x)
  then show ?thesis using main_step_crashes [OF assms(1,3)] by simp
qed (use assms(2) in \<open>simp_all add: in_final_def\<close>)

lemma pass_others_keep:
  assumes "sys_step s s'" and "\<not> main_step s s'"
  shows "at s' = at s \<and> pass_left s' = pass_left s"
  using assms(1)
proof cases
  case handler
  then show ?thesis by cases (simp_all add: pass_left_def split: main_pc.splits)
next
  case (signal n)
  then show ?thesis by (simp add: pass_left_def signal_handler_def split: main_pc.splits)
qed (use assms(2) in simp)

text \<open>A pass in which every marked thread has returned needs nobody else and does what the macro loop does.\<close>

definition marked_returned :: "system \<Rightarrow> bool" where
  "marked_returned s \<longleftrightarrow> (\<forall>a td. tds (srv s) a = Some td \<longrightarrow> thread_complete td \<longrightarrow> phases s a = Gone)"

lemma join_steps:
  assumes inv: "sys_inv s" and at: "at s = Join x v" and gone: "phases s (item_of (srv s) x) = Gone"
  shows "\<exists>s' u. main_step s (s\<lparr>srv := s', tids := (tids s)(u := None), at := Reap v\<rparr>) \<and>
    reap_body (\<lambda>_. 0) x (srv s) = Some s' \<and> tds s' = (tds (srv s))(item_of (srv s) x := None)"
proof -
  from no_join_fault [OF inv disjI1 [OF at]] obtain td s' where
    j: "item_td (srv s) x = Some td" "tids s (td_thread td) = Some (item_of (srv s) x)" "reap_body (\<lambda>_. 0) x (srv s) = Some s'"
    by auto
  note step = main_step.join [OF at j(1,2) gone j(3)]
  have "tds s' = (tds (srv s))(item_of (srv s) x := None)" using sys_inv_joined(5) [OF inv disjI1 [OF at] j(1,2) gone j(3)] .
  with step j(3) show ?thesis by blast
qed

text \<open>The main thread can go on unless it waits for a thread that has not returned.\<close>

lemma join_enabled:
  assumes inv: "sys_inv s" and at: "joining s x" and gone: "phases s (item_of (srv s) x) = Gone"
  shows "\<exists>s'. main_step s s'"
proof -
  obtain v where at': "at s = Join x v \<or> at s = FinalJoin x" using at by (auto simp: joining_def split: main_pc.splits)
  from no_join_fault [OF inv at'] obtain td s' where
    j: "item_td (srv s) x = Some td" "tids s (td_thread td) = Some (item_of (srv s) x)" "reap_body (\<lambda>_. 0) x (srv s) = Some s'"
    by auto
  from at' show ?thesis
  proof
    assume "at s = Join x v"
    then show ?thesis using main_step.join [OF _ j(1,2) gone j(3)] by blast
  next
    assume at: "at s = FinalJoin x"
    show ?thesis
      using main_step.final_freed [OF at j(1,2) gone j(3) sys_inv_joined(3) [OF inv at' j(1,2) gone j(3)]] by blast
  qed
qed

lemma pass_enabled:
  assumes inv: "sys_inv s" and pass: "reaping s \<or> in_final s"
  shows "(\<exists>s'. main_step s s') \<or> (\<exists>x. joining s x \<and> phases s (item_of (srv s) x) = Marked)"
proof (cases "\<exists>x. joining s x")
  case True
  then obtain x where x: "joining s x" by blast
  then obtain v where "at s = Join x v \<or> at s = FinalJoin x" by (auto simp: joining_def split: main_pc.splits)
  from no_join_fault [OF inv this] join_enabled [OF inv x] x show ?thesis by blast
next
  case False
  then obtain v where v: "at s = Reap v \<or> at s = Final v" using pass
    by (auto simp: reaping_def in_final_def joining_def split: main_pc.splits)
  show ?thesis
  proof (cases v)
    case None
    then show ?thesis using v main_step.reap_done main_step.final_done by blast
  next
    case (Some x)
    then have at: "at s = Reap (Some x) \<or> at s = Final (Some x)" using v by simp
    obtain w td where "LIST_NEXT (conns (srv s)) x = Some w" "item_td (srv s) x = Some td" using no_pass_fault [OF inv at] by auto
    then show ?thesis
      using at main_step.reap_keep main_step.reap_join main_step.final_keep main_step.final_join by blast
  qed
qed

lemma reap_one:
  assumes inv: "sys_inv s" and at: "at s = Reap (Some x)" and wf: "server_wf (srv s) (ys @ x # zs)" and ret: "marked_returned s"
  shows "\<exists>s' us. main_step\<^sup>*\<^sup>* s s' \<and> at s' = Reap (head_of zs) \<and> reap_body (\<lambda>_. 0) x (srv s) = Some (srv s') \<and>
    sys_inv s' \<and> marked_returned s' \<and> server_wf (srv s') (us @ zs)"
proof -
  have nxt: "LIST_NEXT (conns (srv s)) x = Some (head_of zs)" using dlist.rep_next [OF server_wf_rep [OF wf]] .
  obtain td where td: "item_td (srv s) x = Some td" "tds (srv s) (item_of (srv s) x) = Some td"
    using server_wf_item [OF wf, of x] by auto
  show ?thesis
  proof (cases "thread_complete td")
    case False
    note step = main_step.reap_keep [OF at nxt td(1) False]
    have "reap_body (\<lambda>_. 0) x (srv s) = Some (srv s)"
      by (rule reap_body_keeps) (simp_all add: td completed_def False)
    then show ?thesis using sys_inv_main [OF step inv] step ret wf
      by (intro exI [of _ "s\<lparr>at := Reap (head_of zs)\<rparr>"] exI [of _ "ys @ [x]"]) (auto simp: marked_returned_def)
  next
    case True
    let ?j = "s\<lparr>at := Join x (head_of zs)\<rparr>"
    note jstep = main_step.reap_join [OF at nxt td(1) True]
    note jinv = sys_inv_main [OF jstep inv]
    have gone: "phases ?j (item_of (srv ?j) x) = Gone" using ret True td(2) by (simp add: marked_returned_def)
    from join_steps [OF jinv _ gone] obtain s1 u where
      s1: "main_step ?j (?j\<lparr>srv := s1, tids := (tids ?j)(u := None), at := Reap (head_of zs)\<rparr>)"
        "reap_body (\<lambda>_. 0) x (srv s) = Some s1" "tds s1 = (tds (srv s))(item_of (srv s) x := None)" by auto
    have "server_wf s1 (ys @ zs)"
      using reap_body_removes [OF wf, of "\<lambda>_. 0"] s1(2) td True by (auto simp: completed_def)
    moreover have "main_step\<^sup>*\<^sup>* s (?j\<lparr>srv := s1, tids := (tids ?j)(u := None), at := Reap (head_of zs)\<rparr>)"
      by (rule converse_rtranclp_into_rtranclp [of main_step, OF jstep r_into_rtranclp [of main_step, OF s1(1)]])
    ultimately show ?thesis using sys_inv_main [OF s1(1) jinv] s1(2,3) ret
      by (intro exI [of _ "?j\<lparr>srv := s1, tids := (tids ?j)(u := None), at := Reap (head_of zs)\<rparr>"] exI [of _ ys])
        (auto simp: marked_returned_def)
  qed
qed

lemma reap_steps:
  "sys_inv s \<Longrightarrow> at s = Reap (head_of zs) \<Longrightarrow> server_wf (srv s) (ys @ zs) \<Longrightarrow> marked_returned s \<Longrightarrow>
    \<exists>s'. main_step\<^sup>*\<^sup>* s s' \<and> at s' = Reap None \<and>
      FOREACH_FROM_SAFE (\<lambda>c. LIST_NEXT (conns c)) (reap_body (\<lambda>_. 0)) (head_of zs) (srv s) = Some (Some (srv s'))"
proof (induction zs arbitrary: s ys)
  case Nil
  then show ?case by (auto intro: exI [of _ s])
next
  case (Cons x zs)
  have at: "at s = Reap (Some x)" using Cons.prems(2) by simp
  have nxt: "LIST_NEXT (conns (srv s)) x = Some (head_of zs)" using dlist.rep_next [OF server_wf_rep [OF Cons.prems(3)]] .
  from reap_one [OF Cons.prems(1) at Cons.prems(3,4)] obtain s1 us where
    s1: "main_step\<^sup>*\<^sup>* s s1" "at s1 = Reap (head_of zs)" "reap_body (\<lambda>_. 0) x (srv s) = Some (srv s1)"
      "sys_inv s1" "marked_returned s1" "server_wf (srv s1) (us @ zs)" by blast
  from Cons.IH [OF s1(4,2,6,5)] obtain s2 where
    s2: "main_step\<^sup>*\<^sup>* s1 s2" "at s2 = Reap None"
      "FOREACH_FROM_SAFE (\<lambda>c. LIST_NEXT (conns c)) (reap_body (\<lambda>_. 0)) (head_of zs) (srv s1) = Some (Some (srv s2))" by blast
  have "main_step\<^sup>*\<^sup>* s s2" using s1(1) s2(1) by (rule rtranclp_trans)
  then show ?case using s2(2,3) nxt s1(3) by auto
qed

section \<open>After a failing write\<close>

text \<open>
  The store is stalled and the thread with the argument \<open>a\<close> on socket \<open>t\<close> waits for the mutex it
  holds itself.
\<close>

definition stuck :: "nat \<Rightarrow> nat \<Rightarrow> system \<Rightarrow> bool" where
  "stuck a t s \<longleftrightarrow> stalled (con s) \<and> pcs (con s) t = WantRead \<and> phases s a = Serving \<and> sock_of s a = t"

lemma stuck_main:
  assumes step: "main_step s s'" and inv: "sys_inv s" and stuck: "stuck a t s"
  shows "stuck a t s' \<and> cworld (con s') = cworld (con s) \<and> hist (con s') = hist (con s)"
proof -
  have thr: "threads_wf s" and ser: "phases s a = Serving" using inv stuck by (simp_all add: sys_inv_def stuck_def)
  from thread_ok_td [OF thr, of a] ser obtain td where td: "tds (srv s) a = Some td" by auto
  have keep: "tds (srv s') a = Some td"
  proof -
    have "tds (srv s') a \<noteq> None" using main_step_frees [OF inv step td] ser by auto
    with step td show ?thesis
    proof cases
      case (accept env s1 ls)
      obtain xs where "server_wf (srv s) xs" using inv by (auto simp: sys_inv_def)
      moreover have "malloc_ok (ac_item env) (srv s)" using accept(3) by (simp add: accept_lawful_def)
      ultimately show ?thesis using accept_connection_effect [of "srv s" xs env] accept(1,4) td
        by (auto split: option.splits if_splits)
    next
      case (join x v td' b s1)
      then show ?thesis using sys_inv_joined(5) [OF inv disjI1 [OF join(2)] join(3-6)] ser td by auto
    next
      case (final_joined x td' b s1 v)
      then show ?thesis using sys_inv_joined(5) [OF inv disjI2 [OF final_joined(2)] final_joined(3-6)] ser td by auto
    next
      case (final_freed x td' b s1)
      then show ?thesis using sys_inv_joined(5) [OF inv disjI2 [OF final_freed(2)] final_freed(3-6)] ser td by auto
    qed (use td in auto)
  qed
  then have sock: "sock_of s' a = t" using stuck td by (simp add: stuck_def sock_of_def)
  show ?thesis
  proof (cases "con s' = con s \<and> phases s' = phases s")
    case True
    then show ?thesis using stuck sock by (simp add: stuck_def)
  next
    case False
    from step False obtain env ls b fd u where new: "new_thread env (srv s) = Some (b, fd, u)" "accept_lawful env s"
      and s': "con s' = start_thread fd ls (con s)" "phases s' = (phases s)(b := Serving)"
      by cases (auto simp: launch_def split: option.splits)
    have "fd \<notin> socks (srv s)" using new by (auto simp: new_thread_def accept_lawful_def split: if_splits option.splits)
    moreover have "t \<in> socks (srv s)" using threads_wfD(1) [OF thr, of a] stuck by (simp add: thread_ok_def stuck_def)
    ultimately have "t \<noteq> fd" by auto
    then show ?thesis using stuck sock by (auto simp: stuck_def s' start_thread_def stalled_def)
  qed
qed

lemma stuck_handler:
  assumes step: "handler_step s s'" and stuck: "stuck a t s"
  shows "stuck a t s' \<and> cworld (con s') = cworld (con s) \<and> hist (con s') = hist (con s)"
  using step
proof cases
  case (serve c)
  from stalled_step [OF conf_step.thread [OF serve(3)]] stuck serve(1) show ?thesis
    by (simp add: stuck_def sock_of_def)
next
  case (write_fails u c)
  then have "holding (pcs (con s) u)" by (auto elim!: write_failureE)
  then show ?thesis using stuck by (simp add: stuck_def stalled_def)
next
  case (close_conn b td)
  then have "b \<noteq> a" using stuck by (auto simp: stuck_def sock_of_def)
  then show ?thesis using stuck close_conn(1) by (simp add: stuck_def sock_of_def)
next
  case (mark b td)
  then have "b \<noteq> a" using stuck by (auto simp: stuck_def)
  then show ?thesis using stuck mark(1) by (simp add: stuck_def sock_of_def)
next
  case (return b td)
  then have "b \<noteq> a" using stuck by (auto simp: stuck_def)
  then show ?thesis using stuck return(1) by (simp add: stuck_def sock_of_def)
qed

lemma stuck_forever:
  assumes "sys_step\<^sup>*\<^sup>* s s'" and "sys_inv s" and "stuck a t s"
  shows "sys_inv s' \<and> stuck a t s' \<and> cworld (con s') = cworld (con s) \<and> hist (con s') = hist (con s)"
  using assms(1)
proof (induction rule: rtranclp_induct)
  case base
  then show ?case using assms(2,3) by simp
next
  case (step s1 s2)
  from step.hyps(2) have "stuck a t s2 \<and> cworld (con s2) = cworld (con s1) \<and> hist (con s2) = hist (con s1)"
  proof cases
    case main
    then show ?thesis using stuck_main step.IH by blast
  next
    case handler
    then show ?thesis using stuck_handler step.IH by blast
  next
    case (signal n)
    moreover have "stuck a t s1" using step.IH by simp
    ultimately show ?thesis by (simp add: stuck_def sock_of_def stalled_def signal_handler_def)
  qed
  then show ?case using step.IH sys_inv_step [OF step.hyps(2)] by simp
qed

end
