(* ===== verification/Server_Properties.thy ===== *)
theory Server_Properties
  imports Server_Correct
begin

text \<open>
  The properties of the server's main thread, with witnesses on a server with two connections, one
  of them finished.
\<close>

section \<open>Concrete servers\<close>

definition no_addr :: sockaddr_in where
  "no_addr = \<lparr>sin_addr = 0, sin_port = 0\<rparr>"

text \<open>Before \<open>main\<close> runs, and listening on descriptor 3.\<close>

definition boot :: server where
  "boot = \<lparr>conns = \<lparr>lh_first = (\<lambda>_. None), list_nodes = Map.empty\<rparr>, items = Map.empty, tds = Map.empty,
     running = {}, joined = [], socks = {}, server_sock = None, should_terminate = False\<rparr>"

text \<open>Items 1 and 2 with thread data 11 and 12; the thread of item 2 has finished.\<close>

definition two_conns :: server where
  "two_conns = \<lparr>conns = \<lparr>lh_first = (\<lambda>_. None)(0 := Some 1), list_nodes =
       [1 \<mapsto> \<lparr>le_next = Some 2, le_prev = FirstOf 0\<rparr>, 2 \<mapsto> \<lparr>le_next = None, le_prev = NextOf 1\<rparr>]\<rparr>,
     items = [1 \<mapsto> Some 11, 2 \<mapsto> Some 12],
     tds = [11 \<mapsto> \<lparr>td_thread = 101, thread_complete = False, connection_fd = 5, client_addr = no_addr\<rparr>,
       12 \<mapsto> \<lparr>td_thread = 102, thread_complete = True, connection_fd = 6, client_addr = no_addr\<rparr>],
     running = {11}, joined = [], socks = {3, 5}, server_sock = Some 3, should_terminate = False\<rparr>"

lemma two_conns_wf: "server_wf two_conns [1, 2]"
  by (auto simp: server_wf_def two_conns_def list_rep_def get_slot_def get_prev_def LIST_NEXT_def list_live_def
      item_of_def inj_on_def)

lemma two_conns_completed: "completed two_conns 2" "\<not> completed two_conns (Suc 0)"
  by (simp_all add: completed_def item_td_def two_conns_def)

text \<open>A connection that arrives on descriptor 7.\<close>

definition conn7 :: accept_env where
  "conn7 = \<lparr>ac_accept = Some (7, no_addr),
     ac_item = \<lparr>ie_td = Some (13, 0), ie_ld = Some (4, \<lparr>le_next = None, le_prev = FirstOf 0\<rparr>)\<rparr>, ac_create = (0, 103)\<rparr>"

section \<open>Properties\<close>

text \<open>
  C12: the reaping pass over a consistent connection list ends without touching freed memory and
  removes exactly the finished connections: the others stay in order with their thread data
  unchanged, no memory of a removed item stays allocated, every finished thread is joined, and
  sockets and running threads are left alone.
\<close>

theorem reap_removes_finished:
  assumes "server_wf s xs" and "\<forall>t. joins t = 0"
  shows "\<exists>s'. reap joins s = Some (Some s') \<and> server_wf s' (filter (\<lambda>x. \<not> completed s x) xs) \<and>
    (\<forall>y \<in> set xs. \<not> completed s y \<longrightarrow> item_td s' y = item_td s y) \<and>
    dom (items s') = {x \<in> set xs. \<not> completed s x} \<and>
    set (joined s') = set (joined s) \<union> thread_of s ` {x \<in> set xs. completed s x} \<and>
    socks s' = socks s \<and> running s' = running s"
proof -
  from reap_filters [OF assms(1), of joins] assms(2) obtain s' where
    s': "reap joins s = Some (Some s')" "server_wf s' (filter (\<lambda>x. \<not> completed s x) xs)"
      "\<forall>y \<in> set xs. \<not> completed s y \<longrightarrow> item_td s' y = item_td s y" "same_rest s s'"
      "set (joined s') = set (joined s) \<union> thread_of s ` {x \<in> set xs. completed s x}" by blast
  from s'(2) have "dom (items s') = {x \<in> set xs. \<not> completed s x}" by (simp add: server_wf_def)
  with s' show ?thesis unfolding same_rest_def by blast
qed

theorem reap_removes_finished_witness:
  "\<exists>s'. reap (\<lambda>_. 0) two_conns = Some (Some s') \<and> server_wf s' [1] \<and> dom (items s') = {1} \<and> set (joined s') = {102}"
proof -
  from reap_removes_finished [OF two_conns_wf, of "\<lambda>_. 0"] obtain s' where
    s': "reap (\<lambda>_. 0) two_conns = Some (Some s')" "server_wf s' (filter (\<lambda>x. \<not> completed two_conns x) [1, 2])"
      "dom (items s') = {x \<in> set [1, 2]. \<not> completed two_conns x}"
      "set (joined s') = set (joined two_conns) \<union> thread_of two_conns ` {x \<in> set [1, 2]. completed two_conns x}"
    by auto
  have "{x \<in> set [1, 2]. completed two_conns x} = {2}" "{x \<in> set [1, 2]. \<not> completed two_conns x} = {1}"
    using two_conns_completed by auto
  with s' two_conns_completed show ?thesis
    by (auto simp: thread_of_def item_td_def two_conns_def)
qed

text \<open>
  Whatever connections arrive, whatever allocations and thread creations fail, whenever handlers
  finish and signals arrive, the accept loop never touches freed memory and keeps the list
  consistent; it ends exactly when SIGINT or SIGTERM has arrived, and otherwise waits for the next
  connection.
\<close>

lemma accept_loop_safe:
  assumes "server_wf s xs" and "mallocs_ok envs s" and "\<not> should_terminate s"
  shows "if \<exists>env \<in> set envs. env_stops env
    then \<exists>s' xs'. accept_loop envs s = Some (Inr s') \<and> server_wf s' xs' \<and> should_terminate s'
    else accept_loop envs s = Some (Inl Blocked)"
  using accept_loop_wf [OF assms(1,2)] assms(3) by simp

text \<open>
  At shutdown the final pass uses \<open>LIST_FOREACH\<close>, which reads the link of an element after
  its memory was freed: if a handler has finished since the last reaping pass, \<open>main\<close> makes this
  access; if none has, it changes nothing, so the threads still running are neither joined nor freed
  when the process returns success.
\<close>

lemma shutdown_after_finished_thread:
  assumes "main_setup env s0 = Inr s1" and "accept_loop envs s1 = Some (Inr s2)" and "server_wf s2 xs"
    and "ofold run_event s2 events = Some s3"
  shows "server_main env envs events joins s0 =
    (if \<exists>x \<in> set xs. completed s3 x then Some (Inl Undefined)
     else Some (Inr (EXIT_SUCCESS, close_sock (server_sock s3) s3)))"
proof -
  from run_events_wf [OF assms(3), of events] assms(4) have "server_wf s3 xs" by auto
  from final_cleanup_effect [OF this, of joins] show ?thesis
    using assms by (simp add: server_main_def)
qed

text \<open>The process with one connection, whose thread is running.\<close>

definition one_conn :: server where
  "one_conn = \<lparr>conns = \<lparr>lh_first = (\<lambda>_. None)(0 := Some 4), list_nodes = [4 \<mapsto> \<lparr>le_next = None, le_prev = FirstOf 0\<rparr>]\<rparr>,
     items = [4 \<mapsto> Some 13],
     tds = [13 \<mapsto> \<lparr>td_thread = 103, thread_complete = False, connection_fd = 7, client_addr = no_addr\<rparr>],
     running = {13}, joined = [], socks = {7}, server_sock = Some 3, should_terminate = True\<rparr>"

text \<open>
  How startup ends. The process listens exactly when the options are right, every call
  succeeded and it is not the parent of the daemon. It exits with success exactly as that parent, or
  when \<open>bind\<close> or \<open>listen\<close> failed after every other call succeeded, so a service manager
  does not see that failure; then and when it exits with failure no socket is left open.
\<close>

lemma startup_outcomes:
  assumes "\<And>fd. se_socket env = Some fd \<Longrightarrow> fd \<notin> socks s0"
  defines "daemon \<equiv> parse_options (se_options env) False = Some True"
  defines "ready \<equiv> parse_options (se_options env) False \<noteq> None \<and>
    (daemon \<longrightarrow> se_fork env = 0 \<and> se_setsid env \<noteq> - 1 \<and> se_chdir env \<noteq> - 1) \<and>
    \<not> se_sigterm_err env \<and> \<not> se_sigint_err env \<and> se_socket env \<noteq> None"
  shows "(\<exists>s. main_setup env s0 = Inr s) \<longleftrightarrow> ready \<and> se_bind env \<noteq> - 1 \<and> se_listen env \<noteq> - 1"
    and "(\<exists>s. main_setup env s0 = Inl (EXIT_SUCCESS, s)) \<longleftrightarrow>
      daemon \<and> se_fork env \<noteq> 0 \<and> se_fork env \<noteq> - 1 \<or> ready \<and> (se_bind env = - 1 \<or> se_listen env = - 1)"
    and "main_setup env s0 = Inl (status, s) \<Longrightarrow> (status = EXIT_SUCCESS \<or> status = EXIT_FAILURE) \<and> socks s = socks s0"
  using assms
  by (cases "parse_options (se_options env) False"; cases "se_socket env";
      auto simp: main_setup_def daemonise_def Let_def close_sock_def split: if_splits)+

text \<open>
  A connection that was accepted but whose item cannot be allocated leaves its socket open with
  nothing in the list to remember it; one whose thread cannot be created stays in the list with its
  socket open and, whatever happens afterwards, is never marked complete, so no reaping pass removes it.
\<close>

lemma failed_start_keeps_connection:
  assumes wf: "server_wf s xs" and ok: "malloc_ok (ac_item env) s" and sock: "server_sock s \<noteq> None"
    and acc: "ac_accept env = Some (fd, addr)"
  shows "(ie_td (ac_item env) = None \<or> ie_ld (ac_item env) = None \<longrightarrow>
      (\<exists>s'. accept_connection env s = Some s' \<and> server_wf s' xs \<and> fd \<in> socks s')) \<and>
    (\<forall>t tj x xj. ie_td (ac_item env) = Some (t, tj) \<longrightarrow> ie_ld (ac_item env) = Some (x, xj) \<longrightarrow> fst (ac_create env) \<noteq> 0 \<longrightarrow>
      t \<notin> running s \<longrightarrow>
      (\<exists>s'. accept_connection env s = Some s' \<and> server_wf s' (x # xs) \<and> fd \<in> socks s' \<and>
        (\<forall>es s''. ofold run_event s' es = Some s'' \<longrightarrow> \<not> completed s'' x)))"
proof -
  from accept_connection_wf [OF wf ok] obtain s' xs' where
    s': "accept_connection env s = Some s'" "server_wf s' xs'"
      "xs' = xs \<or> (\<exists>x j. ie_ld (ac_item env) = Some (x, j) \<and> xs' = x # xs)" by blast
  show ?thesis
  proof (intro conjI impI allI)
    assume fail: "ie_td (ac_item env) = None \<or> ie_ld (ac_item env) = None"
    then have "conns s' = conns s" "fd \<in> socks s'"
      using s'(1) sock acc by (auto simp: accept_connection_def init_conn_list_item_def Let_def split: option.splits)
    then show "\<exists>s'. accept_connection env s = Some s' \<and> server_wf s' xs \<and> fd \<in> socks s'"
      using s'(1,2) server_wf_unique [OF s'(2), of xs] server_wf_rep [OF wf] by auto
  next
    fix t tj x xj
    assume a: "ie_td (ac_item env) = Some (t, tj)" "ie_ld (ac_item env) = Some (x, xj)" "fst (ac_create env) \<noteq> 0" "t \<notin> running s"
    have eff: "items s' x = Some (Some t)" "tds s' t = Some \<lparr>td_thread = tj, thread_complete = False, connection_fd = fd, client_addr = addr\<rparr>"
      "running s' = running s" "fd \<in> socks s'"
      using s'(1) sock acc a by (auto simp: accept_connection_def init_conn_list_item_def Let_def split: option.splits bind_splits)
    have "x \<in> set xs'" using s'(2) eff(1) by (auto simp: server_wf_def)
    moreover have "x \<notin> set xs" using ok a(2) wf by (auto simp: malloc_ok_def server_wf_def)
    ultimately have "xs' = x # xs" using s'(3) a(2) by auto
    moreover have "\<not> completed s'' x" if "ofold run_event s' es = Some s''" for es s''
      using run_events_idle [OF that, of t] eff a(4) by (simp add: completed_def item_td_def)
    ultimately show "\<exists>s'. accept_connection env s = Some s' \<and> server_wf s' (x # xs) \<and> fd \<in> socks s' \<and>
        (\<forall>es s''. ofold run_event s' es = Some s'' \<longrightarrow> \<not> completed s'' x)"
      using s'(1,2) eff(4) by blast
  qed
qed

end
