(* ===== verification/System_Properties.thy ===== *)
theory System_Properties
  imports System_Correct Server_Properties
begin

text \<open>
  The properties of the whole server process, with witnesses on a run in which one client connects
  and goes away again.
\<close>

section \<open>A concrete run\<close>

text \<open>
  The server listens on descriptor 3. A client connects on descriptor 7; its item is at address 4,
  its thread data at 13, its thread is 103. It sends the lines \<open>ls\<close>, or nothing.
\<close>

definition listening :: server where
  "listening = boot\<lparr>server_sock := Some 3, socks := {3}\<rparr>"

definition client_start :: "bytes list \<Rightarrow> conf" where
  "client_start ls = start_thread 7 ls (start_conf {} start_world (\<lambda>_. []))"

definition quiet_end :: conf where
  "quiet_end = (client_start [])\<lparr>pcs := (pcs (client_start []))(7 := Finished)\<rparr>"

definition run_state :: "bytes list \<Rightarrow> server \<Rightarrow> conf \<Rightarrow> main_pc \<Rightarrow> phase \<Rightarrow> system" where
  "run_state ls sv c p ph = \<lparr>srv = sv, con = c, at = p, phases = (\<lambda>_. Gone)(13 := ph), tids = [103 \<mapsto> 13],
     before = (\<lambda>_. []), client = (\<lambda>_. [])(7 := ls), broken = False\<rparr>"

definition served :: "nat set \<Rightarrow> server" where
  "served fds = one_conn\<lparr>socks := fds, should_terminate := False\<rparr>"

definition finished :: server where
  "finished = (served {3})\<lparr>tds := [13 \<mapsto> the (tds one_conn 13)\<lparr>thread_complete := True\<rparr>], running := {}\<rparr>"

lemma listening_wf: "server_wf listening []" "\<not> should_terminate listening"
  by (auto simp: listening_def boot_def server_wf_def list_rep_def get_slot_def list_live_def)

lemma run_state_steps:
  "main_step (sys_start start_world listening) ((sys_start start_world listening)\<lparr>at := Accepting\<rparr>)"
  "main_step ((sys_start start_world listening)\<lparr>at := Accepting\<rparr>) (run_state ls (served {3, 7}) (client_start ls) (Reap (Some 4)) Serving)"
  "handler_step (run_state [] (served {3, 7}) (client_start []) (Reap (Some 4)) Serving) (run_state [] (served {3, 7}) quiet_end (Reap (Some 4)) Serving)"
  "handler_step (run_state [] (served {3, 7}) quiet_end (Reap (Some 4)) Serving) (run_state [] (served {3}) quiet_end (Reap (Some 4)) Closed)"
  "handler_step (run_state [] (served {3}) quiet_end (Reap (Some 4)) Closed) (run_state [] finished quiet_end (Reap (Some 4)) Marked)"
  "main_step (run_state [] finished quiet_end (Reap (Some 4)) Marked) (run_state [] finished quiet_end (Join 4 None) Marked)"
  "handler_step (run_state [] finished quiet_end (Join 4 None) Marked) (run_state [] finished quiet_end (Join 4 None) Gone)"
  "handler_step (run_state [] finished quiet_end (Reap (Some 4)) Marked) (run_state [] finished quiet_end (Reap (Some 4)) Gone)"
proof -
  show "main_step (sys_start start_world listening) ((sys_start start_world listening)\<lparr>at := Accepting\<rparr>)"
    by (rule main_step.check_on) (simp_all add: sys_start_def listening_wf)
  have acc: "accept_connection conn7 listening = Some (served {3, 7})"
    by (simp add: conn7_def listening_def boot_def served_def one_conn_def accept_connection_def init_conn_list_item_def
        LIST_INSERT_HEAD_def LIST_FIRST_def put_next_def put_first_def put_prev_def insert_commute)
  have law: "accept_lawful conn7 ((sys_start start_world listening)\<lparr>at := Accepting\<rparr>)"
    by (simp add: accept_lawful_def malloc_ok_def conn7_def sys_start_def listening_def boot_def)
  have new: "new_thread conn7 listening = Some (13, 7, 103)"
    by (simp add: new_thread_def conn7_def listening_def boot_def)
  have "main_step ((sys_start start_world listening)\<lparr>at := Accepting\<rparr>)
      ((launch (Some (13, 7, 103)) ls ((sys_start start_world listening)\<lparr>at := Accepting\<rparr>))
        \<lparr>srv := served {3, 7}, at := Reap (LIST_FIRST (conns (served {3, 7})) 0)\<rparr>)"
    using main_step.accept [OF _ law, of "served {3, 7}" ls] acc new by (simp add: sys_start_def)
  moreover have "(launch (Some (13, 7, 103)) ls ((sys_start start_world listening)\<lparr>at := Accepting\<rparr>))
        \<lparr>srv := served {3, 7}, at := Reap (LIST_FIRST (conns (served {3, 7})) 0)\<rparr> =
      run_state ls (served {3, 7}) (client_start ls) (Reap (Some 4)) Serving"
    by (simp add: launch_def sys_start_def run_state_def client_start_def served_def one_conn_def LIST_FIRST_def start_conf_def
        fun_upd_idem)
  ultimately show "main_step ((sys_start start_world listening)\<lparr>at := Accepting\<rparr>)
      (run_state ls (served {3, 7}) (client_start ls) (Reap (Some 4)) Serving)" by simp
  have "thread_step (client_start []) quiet_end"
    unfolding quiet_end_def by (rule thread_step.eof) (simp_all add: client_start_def start_thread_def)
  then show "handler_step (run_state [] (served {3, 7}) (client_start []) (Reap (Some 4)) Serving)
      (run_state [] (served {3, 7}) quiet_end (Reap (Some 4)) Serving)"
    using handler_step.serve [of "run_state [] (served {3, 7}) (client_start []) (Reap (Some 4)) Serving" quiet_end]
    by (simp add: run_state_def alive_def)
  show "handler_step (run_state [] (served {3, 7}) quiet_end (Reap (Some 4)) Serving)
      (run_state [] (served {3}) quiet_end (Reap (Some 4)) Closed)"
    using handler_step.close_conn [of "run_state [] (served {3, 7}) quiet_end (Reap (Some 4)) Serving" 13 "the (tds one_conn 13)"]
    by (simp add: run_state_def alive_def served_def one_conn_def quiet_end_def insert_Diff_if)
  show "handler_step (run_state [] (served {3}) quiet_end (Reap (Some 4)) Closed)
      (run_state [] finished quiet_end (Reap (Some 4)) Marked)"
    using handler_step.mark [of "run_state [] (served {3}) quiet_end (Reap (Some 4)) Closed" 13 "the (tds one_conn 13)"]
    by (simp add: run_state_def alive_def served_def one_conn_def finished_def)
  show "main_step (run_state [] finished quiet_end (Reap (Some 4)) Marked) (run_state [] finished quiet_end (Join 4 None) Marked)"
    using main_step.reap_join [of "run_state [] finished quiet_end (Reap (Some 4)) Marked" 4 None "the (tds finished 13)"]
    by (simp add: run_state_def finished_def served_def one_conn_def LIST_NEXT_def item_td_def)
  show "handler_step (run_state [] finished quiet_end (Join 4 None) Marked) (run_state [] finished quiet_end (Join 4 None) Gone)"
    using handler_step.return [of "run_state [] finished quiet_end (Join 4 None) Marked" 13 "the (tds finished 13)"]
    by (simp add: run_state_def alive_def finished_def)
  show "handler_step (run_state [] finished quiet_end (Reap (Some 4)) Marked) (run_state [] finished quiet_end (Reap (Some 4)) Gone)"
    using handler_step.return [of "run_state [] finished quiet_end (Reap (Some 4)) Marked" 13 "the (tds finished 13)"]
    by (simp add: run_state_def alive_def finished_def)
qed

lemma run_state_reachable:
  "sys_reachable start_world listening (run_state ls (served {3, 7}) (client_start ls) (Reap (Some 4)) Serving)"
  "sys_reachable start_world listening (run_state [] finished quiet_end (Reap (Some 4)) Marked)"
  "sys_reachable start_world listening (run_state [] finished quiet_end (Join 4 None) Marked)"
  "sys_reachable start_world listening (run_state [] finished quiet_end (Join 4 None) Gone)"
  "sys_reachable start_world listening (run_state [] finished quiet_end (Reap (Some 4)) Gone)"
proof -
  note steps = run_state_steps(1,2,6) [THEN sys_step.main] run_state_steps(3,4,5,7,8) [THEN sys_step.handler]
  note more = rtranclp.rtrancl_into_rtrancl [where r = sys_step]
  show s1: "sys_reachable start_world listening (run_state ls (served {3, 7}) (client_start ls) (Reap (Some 4)) Serving)" for ls
    by (rule more [OF more [OF rtranclp.rtrancl_refl steps(1)] steps(2)])
  show s2: "sys_reachable start_world listening (run_state [] finished quiet_end (Reap (Some 4)) Marked)"
    by (rule more [OF more [OF more [OF s1 steps(4)] steps(5)] steps(6)])
  show s3: "sys_reachable start_world listening (run_state [] finished quiet_end (Join 4 None) Marked)"
    by (rule more [OF s2 steps(3)])
  show "sys_reachable start_world listening (run_state [] finished quiet_end (Join 4 None) Gone)"
    by (rule more [OF s3 steps(7)])
  show "sys_reachable start_world listening (run_state [] finished quiet_end (Reap (Some 4)) Gone)"
    by (rule more [OF s2 steps(8)])
qed

section \<open>Properties\<close>

text \<open>
  C13: memory safety of the whole process. Whatever connects, fails, finishes or is signalled, in
  whatever interleaving, also inside the reaping pass and with descriptor numbers, addresses and
  thread identifiers used again: the connection list is consistent; every thread that has not
  returned has its thread data allocated, marked complete exactly when it has marked it itself; no
  two serving threads share a socket; memory of a thread is only freed after the thread has marked it
  and returned. The main thread never touches freed memory, except in the final pass, where it does
  as soon as it has joined a thread.
\<close>

theorem server_memory_safe:
  assumes "server_wf s0 []" and "\<not> should_terminate s0" and "sys_reachable w s0 s" and "sys_step s s'"
  shows "(\<exists>xs. server_wf (srv s) xs) \<and>
    (\<forall>a. phases s a \<noteq> Gone \<longrightarrow> (\<exists>td. tds (srv s) a = Some td \<and> (thread_complete td \<longleftrightarrow> phases s a = Marked))) \<and>
    inj_on (sock_of s) {a. phases s a = Serving} \<and>
    (\<forall>a td. tds (srv s) a = Some td \<longrightarrow> tds (srv s') a = None \<longrightarrow> phases s a = Gone \<and> thread_complete td) \<and>
    (at s' = Crashed \<longrightarrow> (\<exists>x. at s = FinalJoin x)) \<and>
    ((\<exists>x. at s = FinalJoin x) \<longrightarrow> main_step s s' \<longrightarrow> at s' = Crashed)"
proof -
  note inv = reachable_sys_inv [OF assms(3,1,2)]
  then have thr: "threads_wf s" by (simp add: sys_inv_def)
  have "at s' = Crashed \<Longrightarrow> \<exists>x. at s = FinalJoin x"
    using assms(4)
  proof cases
    case main
    then show "at s' = Crashed \<Longrightarrow> \<exists>x. at s = FinalJoin x" using main_step_crashes [OF inv] by blast
  next
    case handler
    then have "at s' = at s" "alive s" by (auto elim: handler_stepE)
    then show "at s' = Crashed \<Longrightarrow> \<exists>x. at s = FinalJoin x" by (simp add: alive_def)
  next
    case signal
    then show "at s' = Crashed \<Longrightarrow> \<exists>x. at s = FinalJoin x" by (simp add: alive_def)
  qed
  moreover have "phases s a = Gone \<and> thread_complete td" if "tds (srv s) a = Some td" "tds (srv s') a = None" for a td
    using sys_step_frees [OF inv assms(4) that] .
  moreover have "\<exists>xs. server_wf (srv s) xs" using inv by (auto simp: sys_inv_def)
  moreover have "\<exists>td. tds (srv s) a = Some td \<and> (thread_complete td \<longleftrightarrow> phases s a = Marked)" if "phases s a \<noteq> Gone" for a
    using thread_ok_td [OF thr that] by blast
  ultimately show ?thesis using threads_wfD(2) [OF thr] main_step_crashes [OF inv] by blast
qed

theorem server_memory_safe_witness:
  "\<exists>s'. sys_step (run_state [] finished quiet_end (Join 4 None) Gone) s' \<and> tds (srv s') 13 = None \<and> at s' \<noteq> Crashed \<and>
    phases (run_state [] finished quiet_end (Join 4 None) Gone) 13 = Gone"
proof -
  let ?s = "run_state [] finished quiet_end (Join 4 None) Gone"
  have it: "item_of (srv ?s) 4 = 13" "at ?s = Join 4 None" "phases ?s 13 = Gone" "tds (srv ?s) 13 \<noteq> None"
    by (simp_all add: item_of_def run_state_def finished_def served_def one_conn_def)
  from join_steps [OF reachable_sys_inv [OF run_state_reachable(4) listening_wf], of 4 None] it obtain sv u where
    step: "main_step ?s (?s\<lparr>srv := sv, tids := (tids ?s)(u := None), at := Reap None\<rparr>)" and free: "tds sv 13 = None" by auto
  from server_memory_safe [OF listening_wf run_state_reachable(4) sys_step.main [OF step]] free it(2,4)
  have "phases ?s 13 = Gone" by fastforce
  with sys_step.main [OF step] free show ?thesis
    by (intro exI [of _ "?s\<lparr>srv := sv, tids := (tids ?s)(u := None), at := Reap None\<rparr>"]) simp
qed

text \<open>
  C14: the filestore of the whole process. As long as no device write has failed, and with connections
  coming and going and descriptor numbers used again: the device holds the lines in the order in
  which they were written, at most one thread is inside the critical sections, which is when the
  mutex is locked; of every client the lines written so far, the line in hand, the line dropped at
  the end and the lines still to come are what it sends, in order; and what it has received plus what
  is being sent is a sequence of snapshots of the device, or the beginning of one if a \<open>send\<close> to
  it failed or the device could not be opened for it, less what was lost if a \<open>send\<close> was short.
\<close>

theorem server_stores_in_order:
  assumes "server_wf s0 []" and "\<not> should_terminate s0" and "dev_store_inv w" and "sys_reachable w s0 s" and "\<not> broken s"
  shows "dev_inv (kern (cworld (con s))) \<and>
    dev_view (kern (cworld (con s))) = foldl write_spec (dev_view (kern w)) (map snd (hist (con s))) \<and>
    file_mutex (cworld (con s)) = (\<exists>t. holding (pcs (con s) t)) \<and>
    (\<forall>t u. holding (pcs (con s) t) \<longrightarrow> holding (pcs (con s) u) \<longrightarrow> t = u) \<and>
    (\<forall>t. \<exists>ls. lines_of t (hist (con s)) = before s t @ ls \<and>
      ls @ in_hand (pcs (con s) t) @ dropped (con s) t @ inputs (con s) t = client s t) \<and>
    (\<forall>t. \<not> op_failed (con s) t \<longrightarrow>
      received (lost (con s) t) (sent (cworld (con s)) t @ unsent (cworld (con s)) (pcs (con s) t)) (due (con s) t)) \<and>
    (\<forall>t. op_failed (con s) t \<longrightarrow>
      (\<exists>d. prefix d (due (con s) t) \<and> received (lost (con s) t) (sent (cworld (con s)) t) d))"
proof -
  from reachable_store_inv [OF assms(4,1,2,3)] assms(5) have
    inv: "conf_inv (dev_view (kern w)) (\<lambda>t. before s t @ client s t) (con s)"
    and pre: "\<And>t. prefix (before s t) (lines_of t (hist (con s)))" by (auto simp: store_inv_def)
  have "\<exists>ls. lines_of t (hist (con s)) = before s t @ ls \<and>
      ls @ in_hand (pcs (con s) t) @ dropped (con s) t @ inputs (con s) t = client s t" for t
  proof -
    obtain ls where ls: "lines_of t (hist (con s)) = before s t @ ls" using pre [of t] by (auto elim: prefixE)
    have "lines_of t (hist (con s)) @ in_hand (pcs (con s) t) @ dropped (con s) t @ inputs (con s) t = before s t @ client s t"
      using inv by (simp add: conf_inv_def)
    then show ?thesis using ls by auto
  qed
  moreover have "received (lost (con s) t) (sent (cworld (con s)) t @ unsent (cworld (con s)) (pcs (con s) t)) (due (con s) t)"
    if "\<not> op_failed (con s) t" for t
    using inv_facts(2) [OF inv, of t] that by (simp add: echo_ok_def)
  moreover have "\<exists>d. prefix d (due (con s) t) \<and> received (lost (con s) t) (sent (cworld (con s)) t) d"
    if "op_failed (con s) t" for t
    using inv_facts(2) [OF inv, of t] that by (simp add: echo_ok_def)
  ultimately show ?thesis using inv unfolding conf_inv_def by blast
qed

theorem server_stores_in_order_witness:
  "\<exists>ls. lines_of 7 (hist (client_start [''hi''])) = ls \<and>
    ls @ in_hand (pcs (client_start [''hi'']) 7) @ dropped (client_start [''hi'']) 7 @ inputs (client_start [''hi'']) 7 = [''hi'']"
proof -
  let ?s = "run_state [''hi''] (served {3, 7}) (client_start [''hi'']) (Reap (Some 4)) Serving"
  have "\<not> broken ?s" by (simp add: run_state_def)
  from server_stores_in_order [OF listening_wf start_world_inv run_state_reachable(1) this]
  have "\<exists>ls. lines_of 7 (hist (con ?s)) = before ?s 7 @ ls \<and>
      ls @ in_hand (pcs (con ?s) 7) @ dropped (con ?s) 7 @ inputs (con ?s) 7 = client ?s 7" by blast
  then show ?thesis by (simp add: run_state_def)
qed

text \<open>
  C15: the reaping pass ends in every schedule, without ever touching freed memory. Each step of the
  main thread in it leads nearer to the end of the pass or to the top of the accept loop, never to a
  fault; no step of another thread and no signal moves it back; and the main thread can always go on,
  except when it waits in \<open>pthread_join\<close> for a thread that has marked its data and not yet
  returned: that thread can return with its next step, without waiting for anything, and after that
  the main thread can go on. In the final pass each step leads nearer to its end or lets \<open>main\<close>
  return, until the pass meets an item whose thread has finished: that one it frees and then reads, so
  nothing is claimed from there on. All of this holds also after a failing write has stopped the
  connection threads for good.
\<close>

theorem main_passes_progress:
  assumes "server_wf s0 []" and "\<not> should_terminate s0" and "sys_reachable w s0 s" and "reaping s \<or> in_final s"
  shows "(\<forall>s'. main_step s s' \<longrightarrow>
      reaping s \<and> (reaping s' \<and> pass_left s' < pass_left s \<or> at s' = LoopTop) \<or>
      in_final s \<and> (in_final s' \<and> pass_left s' < pass_left s \<or> at s' = Returned \<or>
        (\<exists>x. at s = Final (Some x) \<and> completed (srv s) x \<and> at s' = FinalJoin x))) \<and>
    (\<forall>s'. sys_step s s' \<longrightarrow> \<not> main_step s s' \<longrightarrow> at s' = at s \<and> pass_left s' = pass_left s) \<and>
    ((\<exists>s'. main_step s s') \<or>
     (\<exists>x v. at s = Join x v \<and> phases s (item_of (srv s) x) = Marked \<and>
      (\<exists>s'. handler_step s (s\<lparr>phases := (phases s)(item_of (srv s) x := Gone)\<rparr>) \<and>
        main_step (s\<lparr>phases := (phases s)(item_of (srv s) x := Gone)\<rparr>) s')))"
proof (intro conjI allI impI)
  note inv = reachable_sys_inv [OF assms(3,1,2)]
  show "reaping s \<and> (reaping s' \<and> pass_left s' < pass_left s \<or> at s' = LoopTop) \<or>
      in_final s \<and> (in_final s' \<and> pass_left s' < pass_left s \<or> at s' = Returned \<or>
        (\<exists>x. at s = Final (Some x) \<and> completed (srv s) x \<and> at s' = FinalJoin x))" if "main_step s s'" for s'
    using assms(4) reaping_main_step [OF inv _ that] final_main_step [OF inv _ that] by blast
  show "at s' = at s" "pass_left s' = pass_left s" if "sys_step s s'" "\<not> main_step s s'" for s'
    using pass_others_keep [OF that] by simp_all
  have "\<exists>s'. handler_step s (s\<lparr>phases := (phases s)(item_of (srv s) x := Gone)\<rparr>) \<and>
        main_step (s\<lparr>phases := (phases s)(item_of (srv s) x := Gone)\<rparr>) s'"
    if x: "joining s x" "phases s (item_of (srv s) x) = Marked" for x
  proof -
    let ?a = "item_of (srv s) x"
    let ?s = "s\<lparr>phases := (phases s)(?a := Gone)\<rparr>"
    have "threads_wf s" using inv by (simp add: sys_inv_def)
    from thread_ok_td [OF this, of ?a] x(2) obtain td where "tds (srv s) ?a = Some td" by auto
    then have ret: "handler_step s ?s"
      by (intro handler_step.return) (use x assms(4) in \<open>auto simp: alive_def reaping_def in_final_def\<close>)
    moreover have "joining ?s x" using x(1) by (simp add: joining_def)
    ultimately show ?thesis using join_enabled [OF sys_inv_handler [OF ret inv], of x] by auto
  qed
  moreover have "\<exists>v. at s = Join x v" if "joining s x" for x
    using that assms(4) by (auto simp: joining_def reaping_def in_final_def split: main_pc.splits)
  ultimately show "(\<exists>s'. main_step s s') \<or>
     (\<exists>x v. at s = Join x v \<and> phases s (item_of (srv s) x) = Marked \<and>
      (\<exists>s'. handler_step s (s\<lparr>phases := (phases s)(item_of (srv s) x := Gone)\<rparr>) \<and>
        main_step (s\<lparr>phases := (phases s)(item_of (srv s) x := Gone)\<rparr>) s'))"
    using pass_enabled [OF inv assms(4)] by blast
qed

theorem main_passes_progress_witness:
  "pass_left (run_state [] finished quiet_end (Join 4 None) Marked) < pass_left (run_state [] finished quiet_end (Reap (Some 4)) Marked) \<and>
   (\<exists>s'. main_step ((run_state [] finished quiet_end (Join 4 None) Marked)\<lparr>phases := \<lambda>_. Gone\<rparr>) s')"
proof
  have "reaping (run_state [] finished quiet_end (Reap (Some 4)) Marked)" by (simp add: run_state_def reaping_def)
  from main_passes_progress [OF listening_wf run_state_reachable(2) disjI1 [OF this]] run_state_steps(6)
  have "pass_left (run_state [] finished quiet_end (Join 4 None) Marked) < pass_left (run_state [] finished quiet_end (Reap (Some 4)) Marked) \<or>
    at (run_state [] finished quiet_end (Join 4 None) Marked) = LoopTop \<or> in_final (run_state [] finished quiet_end (Reap (Some 4)) Marked)"
    by blast
  then show "pass_left (run_state [] finished quiet_end (Join 4 None) Marked) < pass_left (run_state [] finished quiet_end (Reap (Some 4)) Marked)"
    by (simp add: run_state_def in_final_def)
  let ?s = "run_state [] finished quiet_end (Join 4 None) Marked"
  have pass: "reaping ?s \<or> in_final ?s" and at: "at ?s = Join x v \<Longrightarrow> x = 4" for x v
    by (auto simp: run_state_def reaping_def)
  have it: "item_of (srv ?s) 4 = 13" by (simp add: item_of_def run_state_def finished_def served_def one_conn_def)
  have upd: "(phases ?s)(13 := Gone) = (\<lambda>_. Gone)" by (auto simp: run_state_def)
  have "\<not> main_step ?s s'" for s'
    by (auto elim!: main_stepE simp: run_state_def finished_def served_def one_conn_def item_td_def split: if_splits)
      (simp_all add: reap_body_def item_td_def LIST_REMOVE_def LIST_NEXT_def put_first_def put_slot_def free_conn_list_item_def
        free_list_data_def get_prev_def)
  with main_passes_progress [OF listening_wf run_state_reachable(3) pass] obtain x v where "at ?s = Join x v"
    "\<exists>s'. main_step (?s\<lparr>phases := (phases ?s)(item_of (srv ?s) x := Gone)\<rparr>) s'" by blast
  with at have "\<exists>s'. main_step (?s\<lparr>phases := (phases ?s)(item_of (srv ?s) 4 := Gone)\<rparr>) s'" by blast
  then show "\<exists>s'. main_step (?s\<lparr>phases := \<lambda>_. Gone\<rparr>) s'" unfolding it upd .
qed

text \<open>
  C17: the steps of the main thread implement the reaping pass of the sequential model: in a reachable
  state at the start of the pass in which every marked thread has returned, the main thread reaches
  the top of the loop by its own steps, with the server state \<open>reap\<close> computes.
\<close>

theorem reap_refines_steps:
  assumes "server_wf s0 []" and "\<not> should_terminate s0" and "sys_reachable w s0 s"
    and "at s = Reap (LIST_FIRST (conns (srv s)) 0)" and "marked_returned s"
  shows "\<exists>s'. main_step\<^sup>*\<^sup>* s s' \<and> at s' = LoopTop \<and> reap (\<lambda>_. 0) (srv s) = Some (Some (srv s'))"
proof -
  note inv = reachable_sys_inv [OF assms(3,1,2)]
  then obtain xs where wf: "server_wf (srv s) xs" by (auto simp: sys_inv_def)
  have first: "LIST_FIRST (conns (srv s)) 0 = head_of xs" by (rule dlist.rep_first [OF server_wf_rep [OF wf]])
  from reap_steps [OF inv _ _ assms(5), of xs "[]"] assms(4) first wf obtain s' where
    s': "main_step\<^sup>*\<^sup>* s s'" "at s' = Reap None"
      "FOREACH_FROM_SAFE (\<lambda>c. LIST_NEXT (conns c)) (reap_body (\<lambda>_. 0)) (head_of xs) (srv s) = Some (Some (srv s'))" by auto
  have "main_step\<^sup>*\<^sup>* s (s'\<lparr>at := LoopTop\<rparr>)"
    by (rule rtranclp.rtrancl_into_rtrancl [where r = main_step, OF s'(1) main_step.reap_done [OF s'(2)]])
  then show ?thesis using s'(3) first by (intro exI [of _ "s'\<lparr>at := LoopTop\<rparr>"]) (simp add: reap_def LIST_FOREACH_SAFE_def)
qed

theorem reap_refines_steps_witness:
  "\<exists>s'. main_step\<^sup>*\<^sup>* (run_state [] finished quiet_end (Reap (Some 4)) Gone) s' \<and> at s' = LoopTop \<and>
    reap (\<lambda>_. 0) finished = Some (Some (srv s'))"
proof -
  let ?s = "run_state [] finished quiet_end (Reap (Some 4)) Gone"
  have "at ?s = Reap (LIST_FIRST (conns (srv ?s)) 0)" "marked_returned ?s" "srv ?s = finished"
    by (simp_all add: run_state_def finished_def served_def one_conn_def LIST_FIRST_def marked_returned_def)
  with reap_refines_steps [OF listening_wf run_state_reachable(5)] show ?thesis by simp
qed

text \<open>
  C33: one failing write stops the whole server. Once a thread of any interleaving holds the mutex to
  write and the write fails, nothing is ever stored in the device or sent to a client again, whatever
  other clients connect afterwards: the mutex stays locked, no thread is ever inside a critical
  section, and the failing thread itself waits for the mutex forever, its connection open and its
  memory never freed.
\<close>

theorem failed_write_stops_server:
  assumes "server_wf s0 []" and "\<not> should_terminate s0" and "dev_store_inv w" and "sys_reachable w s0 s" and "\<not> broken s"
    and "alive s" and "write_failure t (con s) c" and "sys_step\<^sup>*\<^sup>* (s\<lparr>con := c, broken := True\<rparr>) s'"
  shows "cworld (con s') = cworld c \<and> file_mutex (cworld (con s')) \<and> hist (con s') = hist (con s) \<and>
    (\<forall>u. \<not> holding (pcs (con s') u)) \<and> pcs (con s') t = WantRead \<and> t \<in> socks (srv s') \<and>
    (\<exists>a td. phases s' a = Serving \<and> tds (srv s') a = Some td \<and> connection_fd td = t)"
proof -
  let ?s = "s\<lparr>con := c, broken := True\<rparr>"
  note inv = reachable_sys_inv [OF assms(4,1,2)]
  note inv1 = sys_inv_handler [OF handler_step.write_fails [OF assms(6,7)] inv]
  from reachable_store_inv [OF assms(4,1,2,3)] assms(5) have
    "conf_inv (dev_view (kern w)) (\<lambda>t. before s t @ client s t) (con s)" by (simp add: store_inv_def)
  note fail = write_failure_stalls [OF this assms(7)]
  have "threads_wf ?s" using inv1 by (simp add: sys_inv_def)
  from threads_wfD(3) [OF this, of t] fail(2) obtain a where "phases ?s a = Serving" "sock_of ?s a = t" by auto
  then have "stuck a t ?s" using fail by (simp add: stuck_def)
  from stuck_forever [OF assms(8) inv1 this] have
    s': "sys_inv s'" "stuck a t s'" "cworld (con s') = cworld c" "hist (con s') = hist c" by simp_all
  have "threads_wf s'" using s'(1) by (simp add: sys_inv_def)
  from thread_ok_td [OF this, of a] threads_wfD(1) [OF this, of a] s'(2) have
    "\<exists>td. tds (srv s') a = Some td \<and> connection_fd td = t" "t \<in> socks (srv s')"
    by (auto simp: stuck_def thread_ok_def sock_of_def)
  then show ?thesis using s'(2-4) fail(3) by (auto simp: stuck_def stalled_def)
qed

text \<open>The client sends a line, its thread takes the mutex, and the device cannot be opened.\<close>

definition write_begun :: conf where
  "write_begun = (client_start [''hi''])\<lparr>inputs := (inputs (client_start [''hi'']))(7 := []),
     pcs := (pcs (client_start [''hi'']))(7 := HoldWrite ''hi''), cworld := start_world\<lparr>file_mutex := True\<rparr>\<rparr>"

definition write_lost :: conf where
  "write_lost = write_begun\<lparr>pcs := (pcs write_begun)(7 := WantRead), op_failed := (op_failed write_begun)(7 := True)\<rparr>"

lemma write_begun_reachable:
  "sys_reachable start_world listening (run_state [''hi''] (served {3, 7}) write_begun (Reap (Some 4)) Serving)"
proof -
  let ?c = "client_start [''hi'']" and ?st = "\<lambda>c. run_state [''hi''] (served {3, 7}) c (Reap (Some 4)) Serving"
  let ?c1 = "?c\<lparr>pcs := (pcs ?c)(7 := WantWrite ''hi''), inputs := (inputs ?c)(7 := [])\<rparr>"
  have lift: "sys_step (?st c) (?st c')" if "thread_step c c'" for c c'
    using handler_step.serve [of "?st c" c'] that by (intro sys_step.handler) (simp add: run_state_def alive_def)
  have one: "thread_step ?c ?c1"
    by (rule thread_step.recv) (simp_all add: client_start_def start_thread_def start_conf_def)
  have "thread_step ?c1 (?c1\<lparr>pcs := (pcs ?c1)(7 := HoldWrite ''hi''), cworld := start_world\<lparr>file_mutex := True\<rparr>\<rparr>)"
    by (rule thread_step.lock_write)
      (simp_all add: client_start_def start_thread_def start_conf_def start_world_def pthread_mutex_lock_def)
  then have two: "thread_step ?c1 write_begun" by (simp add: write_begun_def)
  note more = rtranclp.rtrancl_into_rtrancl [where r = sys_step]
  show ?thesis by (rule more [OF more [OF run_state_reachable(1) lift [OF one]] lift [OF two]])
qed

lemma write_begun_fails: "write_failure 7 write_begun write_lost"
proof -
  have "write_failure 7 write_begun (write_begun\<lparr>pcs := (pcs write_begun)(7 := WantRead), cworld := cworld write_begun,
      op_failed := (op_failed write_begun)(7 := True)\<rparr>)"
    by (rule write_failure.write_fails [where bs = "''hi''" and fd = None and pos = None])
      (simp_all add: write_begun_def sys_write_def sys_lseek_def sys_open_def)
  then show ?thesis by (simp add: write_lost_def)
qed

theorem failed_write_stops_server_witness: "file_mutex (cworld write_lost) \<and> pcs write_lost 7 = WantRead \<and> hist write_lost = []"
proof -
  let ?s = "run_state [''hi''] (served {3, 7}) write_begun (Reap (Some 4)) Serving"
  have "\<not> broken ?s" "alive ?s" "write_failure 7 (con ?s) write_lost" using write_begun_fails
    by (simp_all add: run_state_def alive_def)
  from failed_write_stops_server [OF listening_wf start_world_inv write_begun_reachable this rtranclp.rtrancl_refl]
  show ?thesis by (simp add: run_state_def write_begun_def client_start_def start_thread_def start_conf_def)
qed

end
