(* ===== verification/Schedules.thy ===== *)
theory Schedules
  imports Threads
begin

text \<open>
  The steps of \<open>Threads\<close> against the functions they take apart. A call of \<open>filestore_write\<close>, of
  \<open>filestore_read_to_dest\<close> and a whole run of \<open>handle_connection\<close> are schedules in which one
  thread moves and the others wait, with the same effect on the process; this also shows that the
  functions return whatever the sends do and whenever the signal arrives.
\<close>

section \<open>The filestore calls\<close>

text \<open>The device answers; nothing is asked of the sends.\<close>

definition fread_calm :: "fread_env \<Rightarrow> world \<Rightarrow> bool" where
  "fread_calm env w \<longleftrightarrow> fr_lock_rc env = 0 \<and> fr_unlock_rc env = 0 \<and> length (fr_buffer env) = 1024 \<and>
     (case fr_open env of None \<Rightarrow> False | Some fd \<Rightarrow> fdt w fd = None) \<and>
     (\<forall>i. r_lock_rc (fr_reads env i) = 0 \<and> r_uncopied (fr_reads env i) = 0)"

lemmas then_step = rtranclp.rtrancl_into_rtrancl [where r = thread_step]
lemmas step_then = converse_rtranclp_into_rtranclp [where r = thread_step]

lemma write_schedule:
  assumes inv: "dev_store_inv (cworld c)" and ok: "fwrite_ok env bs (cworld c)" and pc: "pcs c t = WantWrite bs"
  shows "\<exists>w'. filestore_write env bs (word_of_nat (length bs)) (cworld c) = Inr (0, w') \<and> dev_store_inv w' \<and>
    thread_step\<^sup>*\<^sup>* c (c\<lparr>pcs := (pcs c)(t := WantRead), cworld := w', hist := hist c @ [(t, bs)]\<rparr>)"
proof -
  let ?w = "cworld c" and ?n = "word_of_nat (length bs) :: size_t"
  define w1 where "w1 = ?w\<lparr>file_mutex := True\<rparr>"
  from ok obtain fd where fd: "fw_open env = Some fd" "fdt ?w fd = None" by (auto simp: fwrite_ok_def split: option.splits)
  have law: "write_lawful (fw_write env) bs ?n (kern w1)" "write_succeeds (fw_write env) bs ?n (kern w1)" "fdt w1 fd = None"
    using ok fd(2) by (simp_all add: fwrite_ok_def w1_def)
  have "length bs < 2 ^ 63" using ok by (simp add: fwrite_ok_def)
  with dev_store.wr_step [OF inv this ok] obtain w' where
    w': "filestore_write env bs ?n ?w = Inr (0, w')" "dev_store_inv w'" by blast
  let ?run = "sys_write (fw_write env) (Some fd) bs ?n (sys_lseek (fw_lseek env) (Some fd) (sys_open (Some fd) w1))"
  from w'(1) obtain r w2 where w2: "?run = Inr (r, w2)" "w' = sys_close (Some fd) (snd (pthread_mutex_unlock 0 w2))"
    using inv ok fd(1)
    by (cases ?run) (auto simp: filestore_write_def pthread_mutex_lock_def pthread_mutex_unlock_def fwrite_ok_def
        dev_store_inv_def w1_def Let_def split: if_splits simp del: fd_opened)
  let ?c1 = "c\<lparr>pcs := (pcs c)(t := HoldWrite bs), cworld := w1\<rparr>"
  let ?c2 = "?c1\<lparr>pcs := (pcs ?c1)(t := EndWrite fd), cworld := w2, hist := hist ?c1 @ [(t, bs)]\<rparr>"
  have s1: "thread_step c ?c1"
    using thread_step.lock_write [OF pc, of w1] inv by (simp add: pthread_mutex_lock_def dev_store_inv_def w1_def)
  have s2: "thread_step ?c1 ?c2"
    by (rule thread_step.do_write) (use law w2(1) in simp_all)
  have s3: "thread_step ?c2 (?c2\<lparr>pcs := (pcs ?c2)(t := WantRead), cworld := w'\<rparr>)"
    using thread_step.unlock_write [of ?c2 t fd] w2(2) by simp
  have "?c2\<lparr>pcs := (pcs ?c2)(t := WantRead), cworld := w'\<rparr> =
      c\<lparr>pcs := (pcs c)(t := WantRead), cworld := w', hist := hist c @ [(t, bs)]\<rparr>" by (cases c) simp
  from then_step [OF then_step [OF then_step [OF rtranclp.rtrancl_refl s1] s2] s3, unfolded this]
  have "thread_step\<^sup>*\<^sup>* c (c\<lparr>pcs := (pcs c)(t := WantRead), cworld := w', hist := hist c @ [(t, bs)]\<rparr>)" .
  then show ?thesis using w' by blast
qed

lemma small_count: "n \<le> 1024 \<Longrightarrow> (word_of_nat n :: size_t) \<noteq> - 1" "n \<le> 1024 \<Longrightarrow> unat (word_of_nat n :: size_t) = n"
proof -
  show n: "unat (word_of_nat n :: size_t) = n" if "n \<le> 1024" using that by (intro unat_of_nat_size_t) simp
  have "unat (- 1 :: size_t) = 2 ^ 64 - 1" by (simp add: unsigned_minus_1_eq_mask mask_eq_exp_minus_1)
  then show "(word_of_nat n :: size_t) \<noteq> - 1" if "n \<le> 1024" using n [OF that] that by auto
qed

text \<open>One round of the sending loop is a step: a full, a short or a failing \<open>send\<close>.\<close>

lemma send_step:
  assumes pc: "pcs c t = HoldRead fd" and env: "r_lock_rc env = 0" "r_uncopied env = 0"
    and rd: "sys_read env (Some fd) 1024 (cworld c) = Inr (int (length out), out, w)" "length out \<le> 1024" "out \<noteq> []"
    and snd: "sys_send (Some k) t (out @ drop (length out) buf) (word_of_int (int (length out))) w = Inr (m, w')"
  shows "\<exists>l. thread_step c (c\<lparr>cworld := w', lost := (lost c)(t := l)\<rparr>)"
proof (cases "k < length out")
  case True
  have "thread_step c (c\<lparr>cworld := w', lost := (lost c)(t := True)\<rparr>)"
    by (rule thread_step.send_short [OF pc env rd(1) _ _ snd]) (use True rd(3) in simp_all)
  then show ?thesis by blast
next
  case False
  then have "sys_send (Some 1024) t (out @ drop (length out) buf) (word_of_nat (length out)) w = Inr (m, w')"
    using snd rd(2) by (simp add: sys_send_def small_count min_def)
  then have "thread_step c (c\<lparr>cworld := w'\<rparr>)"
    by (intro thread_step.send [OF pc env rd(1)]) (use rd(3) in simp_all)
  moreover have "c\<lparr>cworld := w', lost := (lost c)(t := lost c t)\<rparr> = c\<lparr>cworld := w'\<rparr>" by (cases c) simp
  ultimately show ?thesis by metis
qed

text \<open>After a failing \<open>send\<close> the loop reads once more and stops.\<close>

lemma send_fails_schedule:
  assumes inv: "dev_src_inv reads fd (cworld c)" and pc: "pcs c t = HoldRead fd"
    and rd: "sys_read (reads i) (Some fd) 1024 (cworld c) = Inr (int (length out), out, w1)" and out: "out \<noteq> []"
    and fail: "sends i = None"
  shows "\<exists>br w' l. send_loop (\<lambda>i. sys_read (reads i) (Some fd) 1024) sends i t buf 0 (cworld c) = Some (Inr (- 1, br, w')) \<and>
    br \<noteq> - 1 \<and> dev_src_keep fd w' = dev_src_keep fd (cworld c) \<and>
    thread_step\<^sup>*\<^sup>* c (c\<lparr>pcs := (pcs c)(t := EndRead (Some fd)), cworld := w',
      op_failed := (op_failed c)(t := True), lost := (lost c)(t := l)\<rparr>)"
proof -
  let ?rd = "\<lambda>i. sys_read (reads i) (Some fd) 1024" and ?buf = "out @ drop (length out) buf"
  have env: "r_lock_rc (reads j) = 0" "r_uncopied (reads j) = 0" for j using inv by (simp_all add: dev_src_inv_def)
  from dev_read_step [OF inv, of i] rd have w1: "length out \<le> 1024" "dev_src_inv reads fd w1"
    "dev_src_keep fd w1 = dev_src_keep fd (cworld c)" by auto
  obtain out2 w2 where r2: "?rd (Suc i) w1 = Inr (int (length out2), out2, w2)" "length out2 \<le> 1024"
    "dev_src_keep fd w2 = dev_src_keep fd w1" using dev_read_step [OF w1(2), of "Suc i"] by blast
  have pos: "0 < (word_of_nat (length out) :: size_t)" using out by (simp add: word_less_nat_alt small_count w1(1))
  have snd: "sys_send None t ?buf (word_of_nat (length out)) w1 = Inr (- 1, w1)"
    by (simp add: sys_send_def small_count w1(1))
  let ?c1 = "c\<lparr>pcs := (pcs c)(t := Drain fd), cworld := w1, op_failed := (op_failed c)(t := True)\<rparr>"
  have s1: "thread_step c ?c1"
    using snd out by (intro thread_step.send_fails [OF pc env rd]) simp_all
  have s2: "thread_step ?c1 (?c1\<lparr>pcs := (pcs ?c1)(t := EndRead (Some fd)), cworld := w2\<rparr>)"
    by (rule thread_step.drain [OF _ env [of "Suc i"], of _ _ fd]) (use r2(1) in simp_all)
  have eq: "?c1\<lparr>pcs := (pcs ?c1)(t := EndRead (Some fd)), cworld := w2\<rparr> = c\<lparr>pcs := (pcs c)(t := EndRead (Some fd)), cworld := w2,
      op_failed := (op_failed c)(t := True), lost := (lost c)(t := lost c t)\<rparr>" by (cases c) simp
  have "send_loop ?rd sends i t buf 0 (cworld c) = Some (Inr (- 1, word_of_nat (length out2), w2))"
    using rd pos snd fail r2(1) by (subst send_loop.simps, simp, subst send_loop.simps) simp
  then show ?thesis
    using then_step [OF then_step [OF rtranclp.rtrancl_refl s1] s2, unfolded eq] small_count(1) [OF r2(2)] r2(3) w1(3)
    by (intro exI [of _ "word_of_nat (length out2)"] exI [of _ w2] exI [of _ "lost c t"]) simp
qed

text \<open>The whole loop, whatever the sends do.\<close>

lemma send_schedule:
  "dev_src_inv reads fd (cworld c) \<Longrightarrow> length buf = 1024 \<Longrightarrow> pcs c t = HoldRead fd \<Longrightarrow>
    \<exists>r br w' l. send_loop (\<lambda>i. sys_read (reads i) (Some fd) 1024) sends i t buf 0 (cworld c) = Some (Inr (r, br, w')) \<and>
      (r = 0 \<or> r = - 1) \<and> br \<noteq> - 1 \<and> dev_src_keep fd w' = dev_src_keep fd (cworld c) \<and>
      thread_step\<^sup>*\<^sup>* c (c\<lparr>pcs := (pcs c)(t := EndRead (Some fd)), cworld := w',
        op_failed := (op_failed c)(t := op_failed c t \<or> r = - 1), lost := (lost c)(t := l)\<rparr>)"
proof (induction "length (dev_src_rest fd (cworld c))" arbitrary: c i buf rule: less_induct)
  case less
  let ?rd = "\<lambda>i. sys_read (reads i) (Some fd) 1024"
  have env: "r_lock_rc (reads j) = 0" "r_uncopied (reads j) = 0" for j using less.prems(1) by (simp_all add: dev_src_inv_def)
  from dev_read_step [OF less.prems(1), of i] obtain out w1 where
    rd: "?rd i (cworld c) = Inr (int (length out), out, w1)" "length out \<le> 1024"
      "dev_src_rest fd (cworld c) = out @ dev_src_rest fd w1" and inv: "dev_src_inv reads fd w1"
      "dev_src_keep fd w1 = dev_src_keep fd (cworld c)" by blast
  let ?buf = "out @ drop (length out) buf"
  show ?case
  proof (cases "out = []")
    case True
    have "thread_step c (c\<lparr>pcs := (pcs c)(t := EndRead (Some fd)), cworld := w1\<rparr>)"
      using rd(1) True by (intro thread_step.sent_all [OF less.prems(3) env]) simp
    moreover have "c\<lparr>pcs := (pcs c)(t := EndRead (Some fd)), cworld := w1, op_failed := (op_failed c)(t := op_failed c t),
        lost := (lost c)(t := lost c t)\<rparr> = c\<lparr>pcs := (pcs c)(t := EndRead (Some fd)), cworld := w1\<rparr>" by (cases c) simp
    ultimately show ?thesis using rd(1) inv True
      by (subst send_loop.simps) (auto intro!: exI [of _ "lost c t"] r_into_rtranclp)
  next
    case False
    have pos: "0 < (word_of_nat (length out) :: size_t)" using False by (simp add: word_less_nat_alt small_count rd(2))
    show ?thesis
    proof (cases "sends i")
      case None
      from send_fails_schedule [OF less.prems(1,3) rd(1) False, of sends buf, OF None] show ?thesis
        by (intro exI [of _ "- 1 :: int"]) simp
    next
      case (Some k)
      define w2 where "w2 = w1\<lparr>sent := (sent w1)(t := sent w1 t @ take (min k (length out)) out)\<rparr>"
      have snd: "sys_send (Some k) t ?buf (word_of_nat (length out)) w1 = Inr (int (min k (length out)), w2)"
        by (simp add: sys_send_def small_count rd(2) w2_def)
      from send_step [OF less.prems(3) env rd(1,2) False, of k buf] snd obtain l where
        s: "thread_step c (c\<lparr>cworld := w2, lost := (lost c)(t := l)\<rparr>)" by auto
      let ?c1 = "c\<lparr>cworld := w2, lost := (lost c)(t := l)\<rparr>"
      have w2: "dev_src_inv reads fd w2" "dev_src_rest fd w2 = dev_src_rest fd w1" "dev_src_keep fd w2 = dev_src_keep fd w1"
        using inv(1) by (simp_all add: w2_def dev_src_inv_def dev_src_rest_def dev_src_keep_def split: option.splits)
      have "length (dev_src_rest fd (cworld ?c1)) < length (dev_src_rest fd (cworld c))" using rd(3) w2(2) False by simp
      from less.hyps [OF this, of ?buf "Suc i"] w2(1) less.prems(2,3) rd(2) obtain r br w' l' where
        ih: "send_loop ?rd sends (Suc i) t ?buf 0 w2 = Some (Inr (r, br, w'))" "r = 0 \<or> r = - 1" "br \<noteq> - 1"
          "dev_src_keep fd w' = dev_src_keep fd w2"
          "thread_step\<^sup>*\<^sup>* ?c1 (?c1\<lparr>pcs := (pcs ?c1)(t := EndRead (Some fd)), cworld := w',
            op_failed := (op_failed ?c1)(t := op_failed ?c1 t \<or> r = - 1), lost := (lost ?c1)(t := l')\<rparr>)" by auto
      have eq: "?c1\<lparr>pcs := (pcs ?c1)(t := EndRead (Some fd)), cworld := w',
            op_failed := (op_failed ?c1)(t := op_failed ?c1 t \<or> r = - 1), lost := (lost ?c1)(t := l')\<rparr> =
          c\<lparr>pcs := (pcs c)(t := EndRead (Some fd)), cworld := w',
            op_failed := (op_failed c)(t := op_failed c t \<or> r = - 1), lost := (lost c)(t := l')\<rparr>" by (cases c) simp
      have "send_loop ?rd sends i t buf 0 (cworld c) = Some (Inr (r, br, w'))"
        using rd(1) pos snd Some ih(1) by (subst send_loop.simps) simp
      moreover have "dev_src_keep fd w' = dev_src_keep fd (cworld c)" using ih(4) w2(3) inv(2) by simp
      ultimately show ?thesis using step_then [OF s ih(5) [unfolded eq]] ih(2,3) by blast
    qed
  qed
qed

lemma read_schedule:
  assumes inv: "dev_store_inv (cworld c)" and ok: "fread_calm env (cworld c)" and pc: "pcs c t = WantRead"
  shows "\<exists>r w' l. filestore_read_to_dest env t (cworld c) = Some (Inr (r, w')) \<and> (r = 0 \<or> r = - 1) \<and> dev_store_inv w' \<and>
    thread_step\<^sup>*\<^sup>* c (c\<lparr>pcs := (pcs c)(t := ReadLine), cworld := w',
      due := (due c)(t := due c t @ concat (dev_lines (kern (cworld c)))),
      op_failed := (op_failed c)(t := op_failed c t \<or> r = - 1), lost := (lost c)(t := l)\<rparr>)"
proof -
  let ?w = "cworld c" let ?d = "due c t @ concat (dev_lines (kern ?w))"
  from ok obtain fd where fd: "fr_open env = Some fd" "fdt ?w fd = None" by (auto simp: fread_calm_def split: option.splits)
  define w1 where "w1 = ?w\<lparr>file_mutex := True\<rparr>"
  define w3 where "w3 = w1\<lparr>fdt := (fdt w1)(fd \<mapsto> \<lparr>private_data = AesdDevice, f_pos = 0\<rparr>)\<rparr>"
  have seek: "sys_lseek (if fr_lseek_ok env then Some 0 else None) (Some fd) (sys_open (Some fd) w1) = w3"
    by (simp add: sys_lseek_def w3_def)
  have src: "dev_src_inv (fr_reads env) fd w3"
    using inv ok by (auto simp: dev_src_inv_def w3_def w1_def dev_store_inv_def fread_calm_def)
  let ?c1 = "c\<lparr>pcs := (pcs c)(t := OpenRead), cworld := w1, due := (due c)(t := ?d)\<rparr>"
  let ?c2 = "?c1\<lparr>pcs := (pcs ?c1)(t := HoldRead fd), cworld := w3\<rparr>"
  have s1: "thread_step c ?c1"
    using thread_step.lock_read [OF pc, of w1] inv by (simp add: pthread_mutex_lock_def dev_store_inv_def w1_def)
  have s2: "thread_step ?c1 ?c2"
    using thread_step.open_read [of ?c1 t fd "if fr_lseek_ok env then Some 0 else None"] fd(2) seek
    by (simp add: w1_def)
  from send_schedule [of "fr_reads env" fd ?c2 "fr_buffer env" t "fr_sends env" 0] src ok obtain r br w4 l where
    run: "send_loop (\<lambda>i. sys_read (fr_reads env i) (Some fd) 1024) (fr_sends env) 0 t (fr_buffer env) 0 w3 = Some (Inr (r, br, w4))"
      "r = 0 \<or> r = - 1" "br \<noteq> - 1" "dev_src_keep fd w4 = dev_src_keep fd w3"
    and s3: "thread_step\<^sup>*\<^sup>* ?c2 (?c2\<lparr>pcs := (pcs ?c2)(t := EndRead (Some fd)), cworld := w4,
      op_failed := (op_failed ?c2)(t := op_failed ?c2 t \<or> r = - 1), lost := (lost ?c2)(t := l)\<rparr>)" (is "thread_step\<^sup>*\<^sup>* _ ?c3")
    by (auto simp: fread_calm_def)
  define w' where "w' = sys_close (Some fd) (snd (pthread_mutex_unlock 0 w4))"
  have s4: "thread_step ?c3 (?c3\<lparr>pcs := (pcs ?c3)(t := ReadLine), cworld := w'\<rparr>)"
    using thread_step.unlock_read [of ?c3 t "Some fd"] by (simp add: w'_def)
  have "?c3\<lparr>pcs := (pcs ?c3)(t := ReadLine), cworld := w'\<rparr> = c\<lparr>pcs := (pcs c)(t := ReadLine), cworld := w',
      due := (due c)(t := ?d), op_failed := (op_failed c)(t := op_failed c t \<or> r = - 1), lost := (lost c)(t := l)\<rparr>"
    by (cases c) simp
  from then_step [OF step_then [OF s1 step_then [OF s2 s3]] s4, unfolded this] have
    "thread_step\<^sup>*\<^sup>* c (c\<lparr>pcs := (pcs c)(t := ReadLine), cworld := w', due := (due c)(t := ?d),
      op_failed := (op_failed c)(t := op_failed c t \<or> r = - 1), lost := (lost c)(t := l)\<rparr>)" .
  moreover have "filestore_read_to_dest env t ?w = Some (Inr (r, w'))"
    using ok inv fd seek run(1-3)
    by (auto simp: filestore_read_to_dest_def pthread_mutex_lock_def pthread_mutex_unlock_def fread_calm_def
        dev_store_inv_def Let_def w'_def w1_def simp del: fd_opened)
  moreover have "dev_store_inv w'"
    using inv run(4) by (simp add: dev_store_inv_def w'_def sys_close_def pthread_mutex_unlock_def dev_src_keep_def w3_def w1_def)
  ultimately show ?thesis using run(2) by blast
qed

section \<open>The connection loop\<close>

text \<open>The answers of a socket that breaks after some lines, perhaps inside the next one.\<close>

inductive broken_input :: "sys_read list \<Rightarrow> bytes list \<Rightarrow> bool" where
  error: "quiet pre bs \<Longrightarrow> newline \<notin> set bs \<Longrightarrow> e \<noteq> EINTR \<Longrightarrow> broken_input (pre @ [RErr e]) []"
| line: "quiet pre bs \<Longrightarrow> newline \<notin> set bs \<Longrightarrow> broken_input fd ls \<Longrightarrow>
    broken_input (pre @ RByte newline # fd) ((bs @ [newline]) # ls)"

definition conn_input :: "bool \<Rightarrow> sys_read list \<Rightarrow> bytes list \<Rightarrow> bool" where
  "conn_input breaks fd ls \<longleftrightarrow> (if breaks then broken_input fd ls else line_input fd ls)"

lemma read_conn_Cons:
  assumes "conn_input b fd (l # ls)" and "length buf = 65536"
  obtains e buf' fd' where
    "read_line fd (Some buf) CONNECTION_BUFFER_SIZE errno = Inr (int (length (take max_line l)), e, buf', fd')"
    "0 < length (take max_line l)" "length buf' = 65536"
    "take (length (take max_line l)) buf' = take max_line l" "conn_input b fd' ls"
proof (cases b)
  case False
  then have "line_input fd (l # ls)" using assms(1) by (simp add: conn_input_def)
  from read_line_input_Cons [OF this assms(2)] that False show ?thesis by (auto simp: conn_input_def)
next
  case True
  then have "broken_input fd (l # ls)" using assms(1) by (simp add: conn_input_def)
  then show ?thesis
  proof cases
    case (line pre bs fd')
    have "read_line fd (Some buf) CONNECTION_BUFFER_SIZE errno =
        Inr (int (min 65535 (length l)), errno_after pre errno, delivered buf CONNECTION_BUFFER_SIZE l, fd')"
      using read_line_newline [OF line(3,4), of CONNECTION_BUFFER_SIZE buf fd' errno] assms(2) line by simp
    with line assms(2) True show thesis
      by (intro that [of "errno_after pre errno" "delivered buf CONNECTION_BUFFER_SIZE l" fd'])
        (auto simp: delivered_def Let_def min_def conn_input_def)
  qed
qed

lemma read_conn_Nil:
  assumes "conn_input b fd []" and "length buf = 65536"
  shows "\<exists>e buf' fd'. read_line fd (Some buf) CONNECTION_BUFFER_SIZE errno = Inr (if b then - 1 else 0, e, buf', fd')"
proof (cases b)
  case False
  then show ?thesis using read_line_input_Nil [of fd buf errno] assms by (auto simp: conn_input_def)
next
  case True
  then have "broken_input fd []" using assms(1) by (simp add: conn_input_def)
  then show ?thesis
  proof cases
    case (error pre bs e)
    then show ?thesis using read_line_fails [OF error(2,3), of CONNECTION_BUFFER_SIZE buf e "[]" errno] assms(2) True by simp
  qed
qed

text \<open>The end of the loop without a line, and with a line that is dropped.\<close>

lemma end_step:
  assumes "pcs c t = ReadLine" and "inputs c t = []"
  shows "\<exists>c'. conf_step c c' \<and> cworld c' = cworld c \<and> pcs c' = (pcs c)(t := Finished) \<and> hist c' = hist c \<and>
    reset c' = (reset c)(t := reset c t \<or> b)"
proof (cases b)
  case True
  then show ?thesis using conf_step.thread [OF thread_step.recv_error [OF assms(1)]] by fastforce
next
  case False
  then show ?thesis using conf_step.thread [OF thread_step.eof [OF assms]] by fastforce
qed

lemma drop_steps:
  assumes "pcs c t = ReadLine" and "inputs c t = bs # ls" and "stop \<or> op_failed c t"
  shows "\<exists>c'. conf_step\<^sup>*\<^sup>* c c' \<and> cworld c' = cworld c \<and> pcs c' = (pcs c)(t := Finished) \<and> hist c' = hist c"
proof -
  define c1 where "c1 = (if stop \<and> \<not> terminating c then c\<lparr>terminating := True\<rparr> else c)"
  have "conf_step\<^sup>*\<^sup>* c c1" using conf_step.signal [of c] by (simp add: c1_def r_into_rtranclp)
  moreover have "conf_step c1 (c1\<lparr>pcs := (pcs c1)(t := Finished), inputs := (inputs c1)(t := ls), dropped := (dropped c1)(t := [bs])\<rparr>)"
    by (rule conf_step.thread [OF thread_step.drop_line]) (use assms in \<open>auto simp: c1_def\<close>)
  ultimately have "conf_step\<^sup>*\<^sup>* c (c1\<lparr>pcs := (pcs c1)(t := Finished), inputs := (inputs c1)(t := ls), dropped := (dropped c1)(t := [bs])\<rparr>)"
    (is "conf_step\<^sup>*\<^sup>* c ?c2") by (rule rtranclp.rtrancl_into_rtrancl)
  moreover have "cworld ?c2 = cworld c" "pcs ?c2 = (pcs c)(t := Finished)" "hist ?c2 = hist c" by (simp_all add: c1_def)
  ultimately show ?thesis by blast
qed

text \<open>A line that is served.\<close>

lemma serve_steps:
  assumes inv: "dev_store_inv (cworld c)" and at: "pcs c t = ReadLine" "inputs c t = bs # ls" "\<not> terminating c" "\<not> op_failed c t"
    and wok: "fwrite_ok we bs (cworld c)"
    and rok: "\<And>w. filestore_write we bs (word_of_nat (length bs)) (cworld c) = Inr (0, w) \<Longrightarrow> fread_calm re w"
  shows "\<exists>w1 r c'. filestore_write we bs (word_of_nat (length bs)) (cworld c) = Inr (0, w1) \<and>
    filestore_read_to_dest re t w1 = Some (Inr (r, cworld c')) \<and> dev_store_inv (cworld c') \<and> conf_step\<^sup>*\<^sup>* c c' \<and>
    pcs c' = pcs c \<and> inputs c' t = ls \<and> \<not> terminating c' \<and> (op_failed c' t \<longleftrightarrow> r = - 1) \<and> hist c' = hist c @ [(t, bs)]"
proof -
  have lift: "conf_step\<^sup>*\<^sup>* x y" if "thread_step\<^sup>*\<^sup>* x y" for x y
    using that by (rule rtranclp_mono [THEN predicate2D, rotated]) (auto intro: conf_step.thread)
  let ?c1 = "c\<lparr>pcs := (pcs c)(t := WantWrite bs), inputs := (inputs c)(t := ls)\<rparr>"
  have s1: "thread_step c ?c1" using thread_step.recv [OF at] .
  from write_schedule [of ?c1 we bs t] inv wok obtain w1 where
    w1: "filestore_write we bs (word_of_nat (length bs)) (cworld c) = Inr (0, w1)" "dev_store_inv w1"
    and s2: "thread_step\<^sup>*\<^sup>* ?c1 (?c1\<lparr>pcs := (pcs ?c1)(t := WantRead), cworld := w1, hist := hist ?c1 @ [(t, bs)]\<rparr>)"
      (is "thread_step\<^sup>*\<^sup>* _ ?c2") by auto
  from read_schedule [of ?c2 re t] w1(2) rok [OF w1(1)] obtain r w' l where
    w': "filestore_read_to_dest re t w1 = Some (Inr (r, w'))" "dev_store_inv w'"
    and s3: "thread_step\<^sup>*\<^sup>* ?c2 (?c2\<lparr>pcs := (pcs ?c2)(t := ReadLine), cworld := w',
      due := (due ?c2)(t := due ?c2 t @ concat (dev_lines (kern (cworld ?c2)))),
      op_failed := (op_failed ?c2)(t := op_failed ?c2 t \<or> r = - 1), lost := (lost ?c2)(t := l)\<rparr>)"
      (is "thread_step\<^sup>*\<^sup>* _ ?c3") by auto
  have "conf_step\<^sup>*\<^sup>* c ?c3" using lift [OF step_then [OF s1 rtranclp_trans [OF s2 s3]]] .
  moreover have "pcs ?c3 = pcs c" using at(1) by auto
  ultimately show ?thesis using w1 w' at by (intro exI [of _ w1] exI [of _ r] exI [of _ ?c3]) simp
qed

abbreviation dev_loop :: "(nat \<Rightarrow> fwrite_env) \<Rightarrow> (nat \<Rightarrow> fread_env) \<Rightarrow> nat \<Rightarrow> (nat \<Rightarrow> bool) \<Rightarrow> nat \<Rightarrow> sys_read list \<Rightarrow> bytes \<Rightarrow> int \<Rightarrow>
    bool \<Rightarrow> world \<Rightarrow> (int \<times> world) comp option" where
  "dev_loop we re t \<equiv> conn_loop (\<lambda>i. filestore_write (we i)) (\<lambda>i. filestore_read_to_dest (re i) t)"

lemma loop_ends:
  assumes "conn_input b fd []" and "length buf = 65536" and "pcs c t = ReadLine" and "inputs c t = []"
  shows "\<exists>n c'. dev_loop we re t st i fd buf errno (op_failed c t) (cworld c) = Some (Inr (n, cworld c')) \<and>
    conf_step\<^sup>*\<^sup>* c c' \<and> pcs c' = (pcs c)(t := Finished) \<and> hist c' = hist c"
proof -
  from read_conn_Nil [OF assms(1,2), of errno] obtain e buf' fd' where
    rl: "read_line fd (Some buf) CONNECTION_BUFFER_SIZE errno = Inr (if b then - 1 else 0, e, buf', fd')" by blast
  then have "dev_loop we re t st i fd buf errno (op_failed c t) (cworld c) = Some (Inr (if b then - 1 else 0, cworld c))"
    by (subst conn_loop.simps) simp
  moreover from end_step [OF assms(3,4), of b] obtain c' where "conf_step c c'" "cworld c' = cworld c"
    "pcs c' = (pcs c)(t := Finished)" "hist c' = hist c" by blast
  ultimately show ?thesis by (intro exI [of _ "if b then - 1 else 0"] exI [of _ c']) (simp add: r_into_rtranclp)
qed

lemma loop_drops:
  assumes "conn_input b fd (l # lines)" and "length buf = 65536" and "pcs c t = ReadLine"
    and "inputs c t = take max_line l # ls" and "st i \<or> op_failed c t"
  shows "\<exists>n c'. dev_loop we re t st i fd buf errno (op_failed c t) (cworld c) = Some (Inr (n, cworld c')) \<and>
    conf_step\<^sup>*\<^sup>* c c' \<and> pcs c' = (pcs c)(t := Finished) \<and> hist c' = hist c"
proof -
  let ?n = "int (length (take max_line l))"
  from read_conn_Cons [OF assms(1,2), of errno] obtain e buf' fd' where
    "read_line fd (Some buf) CONNECTION_BUFFER_SIZE errno = Inr (?n, e, buf', fd')" by blast
  then have "dev_loop we re t st i fd buf errno (op_failed c t) (cworld c) = Some (Inr (?n, cworld c))"
    using assms(5) by (subst conn_loop.simps) auto
  moreover from drop_steps [OF assms(3-5)] obtain c' where "conf_step\<^sup>*\<^sup>* c c'" "cworld c' = cworld c"
    "pcs c' = (pcs c)(t := Finished)" "hist c' = hist c" by blast
  ultimately show ?thesis by (intro exI [of _ ?n] exI [of _ c']) simp
qed

lemma conn_schedule:
  "dev_store_inv (cworld c) \<Longrightarrow> conn_input b fd lines \<Longrightarrow> length buf = 65536 \<Longrightarrow>
    pcs c t = ReadLine \<Longrightarrow> inputs c t = chunks_of lines \<Longrightarrow> \<not> terminating c \<Longrightarrow>
    serve_ok (\<lambda>i. filestore_write (we i)) (\<lambda>i. filestore_read_to_dest (re i) t) (\<lambda>i. fwrite_ok (we i)) (\<lambda>i. fread_calm (re i))
      i (chunks_of lines) (cworld c) \<Longrightarrow>
    \<exists>n c' served. dev_loop we re t st i fd buf errno (op_failed c t) (cworld c) = Some (Inr (n, cworld c')) \<and>
      conf_step\<^sup>*\<^sup>* c c' \<and> pcs c' = (pcs c)(t := Finished) \<and> prefix served (chunks_of lines) \<and>
      hist c' = hist c @ map (Pair t) served"
proof (induction lines arbitrary: c fd buf i errno)
  case Nil
  from loop_ends [OF Nil.prems(2-4), of we re st i errno] Nil.prems(5) obtain n c' where
    "dev_loop we re t st i fd buf errno (op_failed c t) (cworld c) = Some (Inr (n, cworld c'))" "conf_step\<^sup>*\<^sup>* c c'"
    "pcs c' = (pcs c)(t := Finished)" "hist c' = hist c" by auto
  then show ?case by (intro exI [of _ n] exI [of _ c'] exI [of _ "[]"]) simp
next
  case (Cons l lines)
  let ?c = "take max_line l" and ?wr = "\<lambda>i. filestore_write (we i)" and ?rd = "\<lambda>i. filestore_read_to_dest (re i) t"
  show ?case
  proof (cases "st i \<or> op_failed c t")
    case True
    from loop_drops [OF Cons.prems(2-4), of "chunks_of lines" st i we re errno] Cons.prems(5) True obtain n c' where
      "dev_loop we re t st i fd buf errno (op_failed c t) (cworld c) = Some (Inr (n, cworld c'))" "conf_step\<^sup>*\<^sup>* c c'"
      "pcs c' = (pcs c)(t := Finished)" "hist c' = hist c" by auto
    then show ?thesis by (intro exI [of _ n] exI [of _ c'] exI [of _ "[]"]) simp
  next
    case False
    from read_conn_Cons [OF Cons.prems(2,3), of errno] obtain e buf' fd' where
      rl: "read_line fd (Some buf) CONNECTION_BUFFER_SIZE errno = Inr (int (length ?c), e, buf', fd')"
        "0 < length ?c" "length buf' = 65536" "take (length ?c) buf' = ?c" "conn_input b fd' lines" by blast
    have "unat (word_of_nat (length ?c) :: size_t) = length ?c" by (intro unat_of_nat_size_t) simp
    then have wr: "?wr i buf' (word_of_nat (length ?c)) s = ?wr i ?c (word_of_nat (length ?c)) s" for s
      using dev_store.wr_prefix [of "we i" buf' "word_of_nat (length ?c)" s] rl(4) by simp
    from Cons.prems(7) have ok: "fwrite_ok (we i) ?c (cworld c)"
      "\<And>w. ?wr i ?c (word_of_nat (length ?c)) (cworld c) = Inr (0, w) \<Longrightarrow> fread_calm (re i) w" by auto
    from serve_steps [OF Cons.prems(1,4) _ Cons.prems(6) _ ok] Cons.prems(5) False obtain w1 r c1 where
      c1: "?wr i ?c (word_of_nat (length ?c)) (cworld c) = Inr (0, w1)" "?rd i w1 = Some (Inr (r, cworld c1))"
        "dev_store_inv (cworld c1)" "conf_step\<^sup>*\<^sup>* c c1" "pcs c1 = pcs c" "inputs c1 t = chunks_of lines" "\<not> terminating c1"
        "op_failed c1 t \<longleftrightarrow> r = - 1" "hist c1 = hist c @ [(t, ?c)]" by auto
    have "serve_ok ?wr ?rd (\<lambda>i. fwrite_ok (we i)) (\<lambda>i. fread_calm (re i)) (Suc i) (chunks_of lines) (cworld c1)"
      using Cons.prems(7) c1(1,2) by simp
    from Cons.IH [OF c1(3) rl(5,3) Cons.prems(4) [folded c1(5)] c1(6,7) this, of e, unfolded c1(5)] obtain n c' served where
      c': "dev_loop we re t st (Suc i) fd' buf' e (op_failed c1 t) (cworld c1) = Some (Inr (n, cworld c'))"
        "conf_step\<^sup>*\<^sup>* c1 c'" "pcs c' = (pcs c)(t := Finished)" "prefix served (chunks_of lines)"
        "hist c' = hist c1 @ map (Pair t) served" by blast
    have "dev_loop we re t st i fd buf errno (op_failed c t) (cworld c) = Some (Inr (n, cworld c'))"
      using rl(1,2) False wr c1(1,2,8) c'(1) by (subst conn_loop.simps) simp
    moreover have "conf_step\<^sup>*\<^sup>* c c'" using rtranclp_trans [OF c1(4) c'(2)] .
    ultimately show ?thesis using c'(3-5) c1(9)
      by (intro exI [of _ n] exI [of _ c'] exI [of _ "?c # served"]) simp
  qed
qed

section \<open>The property\<close>

text \<open>
  C7: \<open>handle_connection\<close> is one schedule of the interleaving of \<open>Threads\<close>. With the device
  answering, the handler returns, whatever the sends do (take all, take less, fail), whenever the
  signal arrives, and whether its client closes the connection or the connection breaks; and the
  steps of its thread alone, with at most one of the signal handler, lead from the start of its loop
  to the end, with the process in the state the function returns and the lines written that it has
  served. So what holds of every interleaving holds of the handler run on its own.
\<close>

theorem handler_is_schedule:
  assumes "dev_store_inv (cworld c)" and "conn_input breaks fd lines" and "length buf = 65536"
    and "pcs c (connection_fd td) = ReadLine" and "inputs c (connection_fd td) = chunks_of lines"
    and "\<not> terminating c" and "\<not> op_failed c (connection_fd td)"
    and "serve_ok (\<lambda>i. filestore_write (we i)) (\<lambda>i. filestore_read_to_dest (re i) (connection_fd td))
      (\<lambda>i. fwrite_ok (we i)) (\<lambda>i. fread_calm (re i)) 0 (chunks_of lines) (cworld c)"
  shows "\<exists>c' served. handle_connection (\<lambda>i. filestore_write (we i)) (\<lambda>i. filestore_read_to_dest (re i)) should_terminate
      fd buf errno td socks (cworld c) = Some (Inr (td\<lparr>thread_complete := True\<rparr>, socks - {connection_fd td}, cworld c')) \<and>
    conf_step\<^sup>*\<^sup>* c c' \<and> pcs c' = (pcs c)(connection_fd td := Finished) \<and>
    prefix served (chunks_of lines) \<and> hist c' = hist c @ map (Pair (connection_fd td)) served"
proof -
  from conn_schedule [OF assms(1-6,8), of should_terminate errno] assms(7) obtain n c' served where
    run: "conn_loop (\<lambda>i. filestore_write (we i)) (\<lambda>i. filestore_read_to_dest (re i) (connection_fd td)) should_terminate 0 fd buf
        errno False (cworld c) = Some (Inr (n, cworld c'))"
    and rest: "conf_step\<^sup>*\<^sup>* c c'" "pcs c' = (pcs c)(connection_fd td := Finished)" "prefix served (chunks_of lines)"
      "hist c' = hist c @ map (Pair (connection_fd td)) served" by auto
  from run show ?thesis by (intro exI [of _ c'] exI [of _ served]) (simp add: handle_connection_def rest)
qed

section \<open>A witness\<close>

text \<open>A client whose connection is gone when its first line is echoed.\<close>

definition deaf_fread :: fread_env where
  "deaf_fread = good_fread\<lparr>fr_sends := (\<lambda>_. None)\<rparr>"

lemma calm_serve_one:
  assumes inv: "dev_store_inv s" and ok: "fwrite_ok we c s" and calm: "\<And>s1. fdt s1 = fdt s \<Longrightarrow> fread_calm re s1"
  shows "serve_ok (\<lambda>i. filestore_write we) (\<lambda>i. filestore_read_to_dest re t) (\<lambda>i. fwrite_ok we) (\<lambda>i. fread_calm re) i [c] s"
proof -
  have n: "unat (word_of_nat (length c) :: size_t) = length c"
    using ok by (intro unat_of_nat_size_t) (simp add: fwrite_ok_def)
  from filestore_write_refines [OF inv, of "word_of_nat (length c)" c we] ok n obtain s1 where
    s1: "filestore_write we c (word_of_nat (length c)) s = Inr (0, s1)" "dev_store_inv s1" "fdt s1 = fdt s" by auto
  from read_schedule [of "start_conf {} s1 (\<lambda>_. [])\<lparr>pcs := (\<lambda>_. WantRead)\<rparr>" re t] s1(2) calm [OF s1(3)]
  obtain r w' where "filestore_read_to_dest re t s1 = Some (Inr (r, w'))" by (auto simp: start_conf_def)
  then show ?thesis using ok s1(1) calm [OF s1(3)] by simp
qed

theorem handler_is_schedule_witness:
  "\<exists>c'. handle_connection (\<lambda>i. filestore_write hi_fwrite) (\<lambda>i. filestore_read_to_dest deaf_fread) (\<lambda>_. False)
      hi_input (replicate 65536 nul) 0 conn5 {3, 5} start_world =
        Some (Inr (conn5\<lparr>thread_complete := True\<rparr>, {3}, cworld c')) \<and>
    conf_step\<^sup>*\<^sup>* (start_conf {5, 6} start_world two_clients) c' \<and> pcs c' 5 = Finished \<and> pcs c' 6 = ReadLine"
proof -
  let ?c = "start_conf {5, 6} start_world two_clients"
  have c: "cworld ?c = start_world" "connection_fd conn5 = 5" "chunks_of [''hi'' @ [newline]] = [''hi'' @ [newline]]"
    by (simp_all add: start_conf_def conn5_def)
  have calm: "fread_calm deaf_fread w" if "fdt w = fdt start_world" for w
    using that by (simp add: fread_calm_def deaf_fread_def good_fread_def start_world_def)
  have "serve_ok (\<lambda>i. filestore_write hi_fwrite) (\<lambda>i. filestore_read_to_dest deaf_fread (connection_fd conn5))
      (\<lambda>i. fwrite_ok hi_fwrite) (\<lambda>i. fread_calm deaf_fread) 0 (chunks_of [''hi'' @ [newline]]) (cworld ?c)"
    unfolding c by (rule calm_serve_one [OF start_world_inv hi_fwrite_ok calm])
  from handler_is_schedule [OF _ _ _ _ _ _ _ this, of False hi_input "replicate 65536 nul" "\<lambda>_. False" 0 "{3, 5}"]
  obtain c' where run: "handle_connection (\<lambda>i. filestore_write hi_fwrite) (\<lambda>i. filestore_read_to_dest deaf_fread) (\<lambda>_. False)
      hi_input (replicate 65536 nul) 0 conn5 {3, 5} start_world =
        Some (Inr (conn5\<lparr>thread_complete := True\<rparr>, {3, 5} - {5}, cworld c'))"
    and steps: "conf_step\<^sup>*\<^sup>* ?c c'" "pcs c' = (pcs ?c)(5 := Finished)"
    using start_world_inv hi_line_input c by (auto simp: start_conf_def two_clients_def conn_input_def)
  have "{3, 5} - {5 :: nat} = {3}" by auto
  with run steps show ?thesis by (intro exI [of _ c']) (simp add: start_conf_def)
qed

end
