(* ===== verification/File_Threads.thy ===== *)
theory File_Threads
  imports Threads
begin

text \<open>
  The threads of the regular-file configuration: any number of connection threads and the timer
  thread, interleaved at the grain of system calls. All of them use the one descriptor of the file,
  so they also share its position; a write appends, wherever the position is. Lines and timestamps
  arrive in any order. A write may take only the beginning of what it is given, a \<open>send\<close> may be
  short or fail, a client may go away and the signal handler may run at any time. A write of the file
  may fail, which leaves the mutex locked; and a read of the file may fail: in the sending loop the
  thread then sends from a count of \<open>2\<^sup>6\<^sup>4 - 1\<close>, which is undefined, and after a failed
  \<open>send\<close> it is the end of the loop. Setting the position of the open regular file to 0 cannot fail.
  The connection thread of a socket \<open>t\<close> is \<open>Some t\<close>, the timer thread \<open>None\<close>.
\<close>

section \<open>Configurations and steps\<close>

datatype file_pc =
    FReadLine
  | FAsleep
  | FWantWrite bytes
  | FHoldWrite bytes
  | FEndWrite
  | FWantRead
  | FSeek
  | FHoldRead
  | FDrain
  | FEndRead
  | FOverrun
  | FFinished

text \<open>
  History: \<open>came\<close> are the lines a connection has accepted and the timestamps the timer has made,
  \<open>fhist\<close> the writes with the number of bytes the file took, and \<open>fdropped\<close> the write that failed.
\<close>

record file_conf =
  fworld :: file_world
  fpcs :: "nat option \<Rightarrow> file_pc"
  came :: "nat option \<Rightarrow> bytes list"
  fhist :: "(nat option \<times> bytes \<times> nat) list"
  fdue :: "nat \<Rightarrow> bytes"
  fdropped :: "(nat option \<times> bytes) option"
  ffailed :: "nat \<Rightarrow> bool"
  flost :: "nat \<Rightarrow> bool"
  fstop :: bool

inductive file_step :: "file_conf \<Rightarrow> file_conf \<Rightarrow> bool" where
  recv: "fpcs c (Some t) = FReadLine \<Longrightarrow> \<not> fstop c \<Longrightarrow> \<not> ffailed c t \<Longrightarrow> bs \<noteq> [] \<Longrightarrow> length bs \<le> max_line \<Longrightarrow>
    file_step c (c\<lparr>fpcs := (fpcs c)(Some t := FWantWrite bs), came := (came c)(Some t := came c (Some t) @ [bs])\<rparr>)"
| leave: "fpcs c (Some t) = FReadLine \<Longrightarrow> file_step c (c\<lparr>fpcs := (fpcs c)(Some t := FFinished)\<rparr>)"
| tick: "fpcs c None = FAsleep \<Longrightarrow> nul \<in> set timestamp \<Longrightarrow> length timestamp = 100 \<Longrightarrow>
    file_step c (c\<lparr>fpcs := (fpcs c)(None := FWantWrite (c_string timestamp)),
      came := (came c)(None := came c None @ [c_string timestamp])\<rparr>)"
| lock_write: "fpcs c u = FWantWrite bs \<Longrightarrow> pthread_mutex_lock 0 (fworld c) = Inr (0, w) \<Longrightarrow>
    file_step c (c\<lparr>fpcs := (fpcs c)(u := FHoldWrite bs), fworld := w\<rparr>)"
| do_write: "fpcs c u = FHoldWrite bs \<Longrightarrow> file_write (Some k) bs (word_of_nat (length bs)) (fworld c) = (r, w) \<Longrightarrow> r \<noteq> - 1 \<Longrightarrow>
    file_step c (c\<lparr>fpcs := (fpcs c)(u := FEndWrite), fworld := w, fhist := fhist c @ [(u, bs, k)]\<rparr>)"
| write_fails: "fpcs c u = FHoldWrite bs \<Longrightarrow> file_write None bs (word_of_nat (length bs)) (fworld c) = (- 1, w) \<Longrightarrow>
    file_step c (c\<lparr>fpcs := (fpcs c)(u := (case u of None \<Rightarrow> FAsleep | Some _ \<Rightarrow> FWantRead)), fworld := w,
      fdropped := Some (u, bs),
      ffailed := (case u of None \<Rightarrow> ffailed c | Some t \<Rightarrow> (ffailed c)(t := True))\<rparr>)"
| unlock_write: "fpcs c u = FEndWrite \<Longrightarrow>
    file_step c (c\<lparr>fpcs := (fpcs c)(u := (case u of None \<Rightarrow> FAsleep | Some _ \<Rightarrow> FWantRead)),
      fworld := snd (pthread_mutex_unlock 0 (fworld c))\<rparr>)"
| lock_read: "fpcs c (Some t) = FWantRead \<Longrightarrow> pthread_mutex_lock 0 (fworld c) = Inr (0, w) \<Longrightarrow>
    file_step c (c\<lparr>fpcs := (fpcs c)(Some t := FSeek), fworld := w, fdue := (fdue c)(t := fdue c t @ fdata w)\<rparr>)"
| seek: "fpcs c (Some t) = FSeek \<Longrightarrow>
    file_step c (c\<lparr>fpcs := (fpcs c)(Some t := FHoldRead), fworld := (fworld c)\<lparr>fpos := 0\<rparr>\<rparr>)"
| send: "fpcs c (Some t) = FHoldRead \<Longrightarrow> file_read True 1024 (fworld c) = Inr (n, out, w) \<Longrightarrow> 0 < n \<Longrightarrow>
    sys_send (Some k) t (out @ drop (length out) buf) (word_of_int n) w = Inr (m, w') \<Longrightarrow>
    file_step c (c\<lparr>fworld := w', flost := (flost c)(t := flost c t \<or> k < nat n)\<rparr>)"
| send_fails: "fpcs c (Some t) = FHoldRead \<Longrightarrow> file_read True 1024 (fworld c) = Inr (n, out, w) \<Longrightarrow> 0 < n \<Longrightarrow>
    sys_send None t (out @ drop (length out) buf) (word_of_int n) w = Inr (- 1, w') \<Longrightarrow>
    file_step c (c\<lparr>fpcs := (fpcs c)(Some t := FDrain), fworld := w', ffailed := (ffailed c)(t := True)\<rparr>)"
| read_fails: "fpcs c (Some t) = FHoldRead \<Longrightarrow> file_read False 1024 (fworld c) = Inr (- 1, out, w) \<Longrightarrow>
    file_step c (c\<lparr>fpcs := (fpcs c)(Some t := FOverrun), fworld := w, ffailed := (ffailed c)(t := True)\<rparr>)"
| drain_fails: "fpcs c (Some t) = FDrain \<Longrightarrow> file_read False 1024 (fworld c) = Inr (- 1, out, w) \<Longrightarrow>
    file_step c (c\<lparr>fpcs := (fpcs c)(Some t := FEndRead), fworld := w\<rparr>)"
| drain: "fpcs c (Some t) = FDrain \<Longrightarrow> file_read True 1024 (fworld c) = Inr (n, out, w) \<Longrightarrow>
    file_step c (c\<lparr>fpcs := (fpcs c)(Some t := FEndRead), fworld := w\<rparr>)"
| sent_all: "fpcs c (Some t) = FHoldRead \<Longrightarrow> file_read True 1024 (fworld c) = Inr (0, out, w) \<Longrightarrow>
    file_step c (c\<lparr>fpcs := (fpcs c)(Some t := FEndRead), fworld := w\<rparr>)"
| unlock_read: "fpcs c (Some t) = FEndRead \<Longrightarrow>
    file_step c (c\<lparr>fpcs := (fpcs c)(Some t := FReadLine), fworld := snd (pthread_mutex_unlock 0 (fworld c))\<rparr>)"
| signal: "\<not> fstop c \<Longrightarrow> file_step c (c\<lparr>fstop := True\<rparr>)"

inductive_cases file_stepE: "file_step c c'"

text \<open>The connections \<open>T\<close> and the timer, at their start.\<close>

definition file_start :: "nat set \<Rightarrow> file_world \<Rightarrow> file_conf" where
  "file_start T w = \<lparr>fworld = w,
     fpcs = (\<lambda>u. case u of None \<Rightarrow> FAsleep | Some t \<Rightarrow> if t \<in> T then FReadLine else FFinished),
     came = (\<lambda>_. []), fhist = [], fdue = sent w, fdropped = None, ffailed = (\<lambda>_. False), flost = (\<lambda>_. False), fstop = False\<rparr>"

abbreviation file_reachable :: "nat set \<Rightarrow> file_world \<Rightarrow> file_conf \<Rightarrow> bool" where
  "file_reachable T w \<equiv> file_step\<^sup>*\<^sup>* (file_start T w)"

section \<open>The invariant\<close>

fun fholding :: "file_pc \<Rightarrow> bool" where
  "fholding (FHoldWrite _) = True"
| "fholding FEndWrite = True"
| "fholding FSeek = True"
| "fholding FHoldRead = True"
| "fholding FDrain = True"
| "fholding FEndRead = True"
| "fholding FOverrun = True"
| "fholding _ = False"

fun fin_hand :: "file_pc \<Rightarrow> bytes list" where
  "fin_hand (FWantWrite bs) = [bs]"
| "fin_hand (FHoldWrite bs) = [bs]"
| "fin_hand _ = []"

fun fwinding_up :: "file_pc \<Rightarrow> bool" where
  "fwinding_up FWantRead = True"
| "fwinding_up FOverrun = True"
| "fwinding_up FDrain = True"
| "fwinding_up FEndRead = True"
| "fwinding_up FReadLine = True"
| "fwinding_up FFinished = True"
| "fwinding_up _ = False"

definition funsent :: "file_world \<Rightarrow> file_pc \<Rightarrow> bytes" where
  "funsent w p = (case p of FSeek \<Rightarrow> fdata w | FHoldRead \<Rightarrow> drop (fpos w) (fdata w) | _ \<Rightarrow> [])"

text \<open>What a thread has asked to be written, and what the file has taken of all of it.\<close>

definition asked :: "nat option \<Rightarrow> (nat option \<times> bytes \<times> nat) list \<Rightarrow> bytes list" where
  "asked u h = map (\<lambda>(_, bs, _). bs) (filter (\<lambda>(v, _). v = u) h)"

definition taken :: "(nat option \<times> bytes \<times> nat) list \<Rightarrow> bytes" where
  "taken h = concat (map (\<lambda>(_, bs, k). take k bs) h)"

text \<open>The write of a thread that failed.\<close>

definition fdropped_of :: "nat option \<Rightarrow> (nat option \<times> bytes) option \<Rightarrow> bytes list" where
  "fdropped_of u d = (case d of None \<Rightarrow> [] | Some (v, bs) \<Rightarrow> if v = u then [bs] else [])"

definition fecho :: "bool \<Rightarrow> bool \<Rightarrow> file_world \<Rightarrow> file_pc \<Rightarrow> nat \<Rightarrow> bytes \<Rightarrow> bool" where
  "fecho failed short w p t d \<longleftrightarrow>
     (if failed then fwinding_up p \<and> (\<exists>d'. prefix d' d \<and> received short (sent w t) d')
      else received short (sent w t @ funsent w p) d)"

definition finv :: "bytes \<Rightarrow> file_conf \<Rightarrow> bool" where
  "finv d0 c \<longleftrightarrow> filestore_fd (fworld c) \<noteq> None \<and> fdata (fworld c) = d0 @ taken (fhist c) \<and>
     file_mutex (fworld c) = ((\<exists>u. fholding (fpcs c u)) \<or> fdropped c \<noteq> None) \<and>
     (\<forall>u v. fholding (fpcs c u) \<longrightarrow> fholding (fpcs c v) \<longrightarrow> u = v) \<and>
     (\<forall>u. asked u (fhist c) @ fdropped_of u (fdropped c) @ fin_hand (fpcs c u) = came c u) \<and>
     (\<forall>u. \<forall>bs \<in> set (fin_hand (fpcs c u)). length bs \<le> max_line) \<and>
     (\<forall>t. fecho (ffailed c t) (flost c t) (fworld c) (fpcs c (Some t)) t (fdue c t)) \<and>
     (\<forall>u. fdropped c \<noteq> None \<longrightarrow> \<not> fholding (fpcs c u)) \<and>
     (\<forall>t. ffailed c t \<longrightarrow> fpcs c (Some t) = FWantRead \<longrightarrow> fdropped c \<noteq> None)"

lemma finv_facts:
  assumes "finv d0 c"
  shows "filestore_fd (fworld c) \<noteq> None" and "fdata (fworld c) = d0 @ taken (fhist c)"
    and "file_mutex (fworld c) = ((\<exists>u. fholding (fpcs c u)) \<or> fdropped c \<noteq> None)"
    and "fholding (fpcs c u) \<Longrightarrow> fholding (fpcs c v) \<Longrightarrow> u = v"
    and "asked u (fhist c) @ fdropped_of u (fdropped c) @ fin_hand (fpcs c u) = came c u"
    and "bs \<in> set (fin_hand (fpcs c u)) \<Longrightarrow> length bs \<le> max_line"
    and "fecho (ffailed c t) (flost c t) (fworld c) (fpcs c (Some t)) t (fdue c t)"
    and "fdropped c \<noteq> None \<Longrightarrow> \<not> fholding (fpcs c u)"
    and "ffailed c t \<Longrightarrow> fpcs c (Some t) = FWantRead \<Longrightarrow> fdropped c \<noteq> None"
  using assms unfolding finv_def by blast+

lemma funsent_idle [simp]: "\<not> fholding p \<Longrightarrow> funsent w p = []"
  by (cases p) (simp_all add: funsent_def)

lemma funsent_simps [simp]:
  "funsent w (FHoldWrite bs) = []" "funsent w FEndWrite = []" "funsent w FDrain = []" "funsent w FEndRead = []"
  "funsent w FOverrun = []" "funsent w FSeek = fdata w" "funsent w FHoldRead = drop (fpos w) (fdata w)"
  by (simp_all add: funsent_def)

lemma asked_simps [simp]:
  "asked u [] = []" "asked u (h @ [(v, bs, k)]) = asked u h @ (if v = u then [bs] else [])"
  by (simp_all add: asked_def)

lemma taken_simps [simp]: "taken [] = []" "taken (h @ [(v, bs, k)]) = taken h @ take k bs"
  by (simp_all add: taken_def)

text \<open>A step of a thread that does not hold the mutex before or after it.\<close>

lemma finv_outside:
  assumes inv: "finv d0 c" and out: "\<not> fholding (fpcs c u)" "\<not> fholding p" and hand: "fin_hand (fpcs c u) = []"
    and wind: "\<And>t. u = Some t \<Longrightarrow> ffailed c t \<Longrightarrow> fwinding_up p" "p \<noteq> FWantRead" and len: "\<forall>bs \<in> set (fin_hand p). length bs \<le> max_line"
  shows "finv d0 (c\<lparr>fpcs := (fpcs c)(u := p), came := (came c)(u := came c u @ fin_hand p)\<rparr>)"
proof -
  define P where "P = (fpcs c)(u := p)"
  have h: "fholding (P v) = fholding (fpcs c v)" for v using out by (simp add: P_def)
  have e: "fecho (ffailed c t) (flost c t) (fworld c) (P (Some t)) t (fdue c t)" for t
    using finv_facts(7) [OF inv, of t] out wind(1) [of t] by (auto simp: P_def fecho_def)
  have l: "asked v (fhist c) @ fdropped_of v (fdropped c) @ fin_hand (P v) = ((came c)(u := came c u @ fin_hand p)) v" for v
    using finv_facts(5) [OF inv, of v] finv_facts(5) [OF inv, of u] hand by (auto simp: P_def)
  have n: "length bs \<le> max_line" if "bs \<in> set (fin_hand (P v))" for v bs
    using that len finv_facts(6) [OF inv, of bs v] by (auto simp: P_def split: if_splits)
  have f: "P (Some t) = FWantRead \<longrightarrow> fdropped c \<noteq> None" if "ffailed c t" for t
    using finv_facts(9) [OF inv that] wind(2) by (auto simp: P_def)
  show ?thesis unfolding P_def [symmetric] finv_def
    using inv l n e f by (simp add: h finv_def del: fun_upd_apply)
qed

text \<open>A step of the thread that holds the mutex, takes it or gives it back.\<close>

lemma finv_inside:
  assumes inv: "finv d0 c" and alone: "\<And>v. v \<noteq> u \<Longrightarrow> \<not> fholding (fpcs c v)" and drop: "fdropped c = None"
    and fd: "filestore_fd w \<noteq> None" "fdata w = d0 @ taken h" and mutex: "file_mutex w = fholding p"
    and lines: "asked u h @ fin_hand p = asked u (fhist c) @ fin_hand (fpcs c u)" "\<And>v. v \<noteq> u \<Longrightarrow> asked v h = asked v (fhist c)"
    and len: "set (fin_hand p) \<subseteq> set (fin_hand (fpcs c u))"
    and echo: "\<And>t. u = Some t \<Longrightarrow> fecho (b t) (l t) w p t (d t)"
    and others: "\<And>t. u \<noteq> Some t \<Longrightarrow> sent w t = sent (fworld c) t \<and> b t = ffailed c t \<and> l t = flost c t \<and> d t = fdue c t"
    and want: "\<And>t. u = Some t \<Longrightarrow> p = FWantRead \<Longrightarrow> \<not> b t"
  shows "finv d0 (c\<lparr>fpcs := (fpcs c)(u := p), fworld := w, fhist := h, fdue := d, ffailed := b, flost := l\<rparr>)"
proof -
  let ?c = "c\<lparr>fpcs := (fpcs c)(u := p), fworld := w, fhist := h, fdue := d, ffailed := b, flost := l\<rparr>"
  have m: "file_mutex w = ((\<exists>v. fholding (fpcs ?c v)) \<or> fdropped ?c \<noteq> None)" and one: "\<forall>v v'. fholding (fpcs ?c v) \<longrightarrow> fholding (fpcs ?c v') \<longrightarrow> v = v'"
    using mutex alone drop by auto
  have li: "asked v h @ fdropped_of v (fdropped ?c) @ fin_hand (fpcs ?c v) = came c v" for v
    using finv_facts(5) [OF inv, of v] lines drop by (cases "v = u") (simp_all add: fdropped_of_def)
  have n: "\<forall>bs \<in> set (fin_hand (fpcs ?c v)). length bs \<le> max_line" for v
    using finv_facts(6) [OF inv, of _ v] len by (cases "v = u") auto
  have e: "fecho (b t) (l t) w (fpcs ?c (Some t)) t (d t)" for t
  proof (cases "u = Some t")
    case False
    then have "\<not> fholding (fpcs c (Some t))" using alone [of "Some t"] by simp
    then show ?thesis using finv_facts(7) [OF inv, of t] others [OF False] False by (auto simp: fecho_def split: if_splits)
  qed (use echo in simp)
  have f: "\<forall>t. b t \<longrightarrow> fpcs ?c (Some t) = FWantRead \<longrightarrow> fdropped ?c \<noteq> None"
    using want others finv_facts(9) [OF inv] drop by (auto split: if_splits)
  have sel: "fworld ?c = w" "fhist ?c = h" "came ?c = came c" "ffailed ?c = b" "flost ?c = l" "fdue ?c = d" by simp_all
  have dr: "\<forall>v. fdropped ?c \<noteq> None \<longrightarrow> \<not> fholding (fpcs ?c v)" using drop by simp
  show ?thesis unfolding finv_def sel by (intro conjI fd m f dr) (use one li n e in blast)+
qed

text \<open>The read of the file, and what the holder of the mutex may rely on.\<close>

lemma file_read_effect:
  assumes "file_read True 1024 w0 = Inr (n, out, w)" and "filestore_fd w0 \<noteq> None"
  shows "n = int (length out)" and "length out \<le> 1024" and "drop (fpos w0) (fdata w0) = out @ drop (fpos w) (fdata w)"
    and "n = 0 \<Longrightarrow> drop (fpos w0) (fdata w0) = []" and "fdata w = fdata w0" and "filestore_fd w = filestore_fd w0"
    and "file_mutex w = file_mutex w0" and "sent w = sent w0"
  using file_source.rd_step [of "\<lambda>_. True" w0 0] assms by (auto simp: file_src_inv_def)

lemma file_holder:
  assumes inv: "finv d0 c" and hold: "fholding (fpcs c u)"
  shows "file_mutex (fworld c)" and "v \<noteq> u \<Longrightarrow> \<not> fholding (fpcs c v)" and "fdropped c = None"
  using finv_facts(3) [OF inv] finv_facts(4) [OF inv _ hold, of v] finv_facts(8) [OF inv, of u] hold by blast+

lemma file_lock:
  assumes inv: "finv d0 c" and lock: "pthread_mutex_lock 0 (fworld c) = Inr (0, w)"
  shows "w = (fworld c)\<lparr>file_mutex := True\<rparr>" and "\<not> fholding (fpcs c v)" and "fdropped c = None"
proof -
  have "w = (fworld c)\<lparr>file_mutex := True\<rparr> \<and> \<not> file_mutex (fworld c)"
    using lock by (auto simp: pthread_mutex_lock_def split: if_splits)
  then show "w = (fworld c)\<lparr>file_mutex := True\<rparr>" "\<not> fholding (fpcs c v)" "fdropped c = None"
    using finv_facts(3) [OF inv] by blast+
qed

text \<open>A step inside that writes nothing: the same thread goes on or leaves.\<close>

lemma finv_quiet:
  assumes inv: "finv d0 c" and alone: "\<And>v. v \<noteq> u \<Longrightarrow> \<not> fholding (fpcs c v)" and drop: "fdropped c = None"
    and same: "filestore_fd w = filestore_fd (fworld c)" "fdata w = fdata (fworld c)" "file_mutex w = fholding p"
      "fin_hand p = fin_hand (fpcs c u)"
    and echo: "\<And>t. u = Some t \<Longrightarrow> fecho (b t) (l t) w p t (d t)"
    and others: "\<And>t. u \<noteq> Some t \<Longrightarrow> sent w t = sent (fworld c) t \<and> b t = ffailed c t \<and> l t = flost c t \<and> d t = fdue c t"
    and want: "\<And>t. u = Some t \<Longrightarrow> p = FWantRead \<Longrightarrow> \<not> b t"
  shows "finv d0 (c\<lparr>fpcs := (fpcs c)(u := p), fworld := w, fdue := d, ffailed := b, flost := l\<rparr>)"
proof -
  have "finv d0 (c\<lparr>fpcs := (fpcs c)(u := p), fworld := w, fhist := fhist c, fdue := d, ffailed := b, flost := l\<rparr>)"
    by (rule finv_inside [OF inv alone drop]) (use finv_facts(1,2) [OF inv] same echo others want in simp_all)
  then show ?thesis by (cases c) simp
qed

lemma finv_plain:
  assumes "finv d0 c" and "\<not> fwinding_up (fpcs c (Some t))"
  shows "\<not> ffailed c t" and "received (flost c t) (sent (fworld c) t @ funsent (fworld c) (fpcs c (Some t))) (fdue c t)"
  using finv_facts(7) [OF assms(1), of t] assms(2) by (auto simp: fecho_def split: if_splits)

lemma finv_lock_write:
  assumes inv: "finv d0 c" and pc: "fpcs c u = FWantWrite bs" and lock: "pthread_mutex_lock 0 (fworld c) = Inr (0, w)"
  shows "finv d0 (c\<lparr>fpcs := (fpcs c)(u := FHoldWrite bs), fworld := w\<rparr>)"
proof -
  note w = file_lock [OF inv lock]
  have echo: "fecho (ffailed c t) (flost c t) w (FHoldWrite bs) t (fdue c t)" if "u = Some t" for t
    using finv_plain [OF inv, of t] pc that by (simp add: fecho_def w(1))
  have "finv d0 (c\<lparr>fpcs := (fpcs c)(u := FHoldWrite bs), fworld := w, fdue := fdue c, ffailed := ffailed c, flost := flost c\<rparr>)"
    by (rule finv_quiet [OF inv w(2,3)])
      (use pc echo in \<open>simp_all add: w(1)\<close>)
  then show ?thesis by (cases c) simp
qed

lemma finv_write:
  assumes inv: "finv d0 c" and pc: "fpcs c u = FHoldWrite bs"
    and run: "file_write (Some k) bs (word_of_nat (length bs)) (fworld c) = (r, w)"
  shows "finv d0 (c\<lparr>fpcs := (fpcs c)(u := FEndWrite), fworld := w, fhist := fhist c @ [(u, bs, k)]\<rparr>)"
proof -
  note hold = file_holder [OF inv, of u]
  have "length bs \<le> max_line" using finv_facts(6) [OF inv, of bs u] pc by simp
  then have "unat (word_of_nat (length bs) :: size_t) = length bs" by (intro unat_of_nat_size_t) simp
  then have w: "w = (fworld c)\<lparr>fdata := fdata (fworld c) @ take k bs, fpos := length (fdata (fworld c) @ take k bs)\<rparr>"
    using run finv_facts(1) [OF inv] by (auto simp: file_write_def Let_def min_def split: option.splits if_splits)
  have echo: "fecho (ffailed c t) (flost c t) w FEndWrite t (fdue c t)" if "u = Some t" for t
    using finv_plain [OF inv, of t] pc that by (simp add: fecho_def w)
  have "finv d0 (c\<lparr>fpcs := (fpcs c)(u := FEndWrite), fworld := w, fhist := fhist c @ [(u, bs, k)], fdue := fdue c,
      ffailed := ffailed c, flost := flost c\<rparr>)"
    by (rule finv_inside [OF inv _ hold(3)]) (use pc hold finv_facts(1,2) [OF inv] echo in \<open>simp_all add: w\<close>)
  then show ?thesis by (cases c) simp
qed

lemma finv_unlock:
  assumes inv: "finv d0 c" and pc: "fpcs c u = FEndWrite \<or> fpcs c u = FEndRead"
    and p: "\<not> fholding p" "fin_hand p = []" "fpcs c u = FEndRead \<Longrightarrow> fwinding_up p \<and> p \<noteq> FWantRead"
  shows "finv d0 (c\<lparr>fpcs := (fpcs c)(u := p), fworld := snd (pthread_mutex_unlock 0 (fworld c))\<rparr>)"
proof -
  have hold: "fholding (fpcs c u)" using pc by auto
  have echo: "fecho (ffailed c t) (flost c t) ((fworld c)\<lparr>file_mutex := False\<rparr>) p t (fdue c t)" if "u = Some t" for t
    using finv_facts(7) [OF inv, of t] that pc p by (auto simp: fecho_def split: if_splits)
  have want: "\<not> ffailed c t" if "u = Some t" "p = FWantRead" for t
    using finv_plain(1) [OF inv, of t] that pc p(3) by auto
  have "finv d0 (c\<lparr>fpcs := (fpcs c)(u := p), fworld := (fworld c)\<lparr>file_mutex := False\<rparr>, fdue := fdue c, ffailed := ffailed c,
      flost := flost c\<rparr>)"
    by (rule finv_quiet [OF inv file_holder(2,3) [OF inv hold]]) (use pc p echo want in auto)
  then show ?thesis by (cases c) (simp add: pthread_mutex_unlock_def)
qed

text \<open>A failed write leaves the mutex locked with nobody inside.\<close>

lemma finv_write_fails:
  assumes inv: "finv d0 c" and pc: "fpcs c u = FHoldWrite bs"
    and p: "\<not> fholding p" "fin_hand p = []" "fwinding_up p \<or> u = None"
    and b: "b = (case u of None \<Rightarrow> ffailed c | Some t \<Rightarrow> (ffailed c)(t := True))"
  shows "finv d0 (c\<lparr>fpcs := (fpcs c)(u := p), fdropped := Some (u, bs), ffailed := b\<rparr>)"
proof -
  let ?c = "c\<lparr>fpcs := (fpcs c)(u := p), fdropped := Some (u, bs), ffailed := b\<rparr>"
  have hold: "fholding (fpcs c u)" using pc by simp
  note alone = file_holder [OF inv hold]
  have none: "\<not> fholding (fpcs ?c v)" for v using alone(2) [of v] p(1) by simp
  have li: "asked v (fhist c) @ fdropped_of v (Some (u, bs)) @ fin_hand (fpcs ?c v) = came c v" for v
    using finv_facts(5) [OF inv, of v] alone(3) pc p(2) by (auto simp: fdropped_of_def)
  have n: "\<forall>bs \<in> set (fin_hand (fpcs ?c v)). length bs \<le> max_line" for v
    using finv_facts(6) [OF inv, of _ v] p(2) by simp
  have e: "fecho (b t) (flost c t) (fworld c) (fpcs ?c (Some t)) t (fdue c t)" for t
  proof (cases "u = Some t")
    case True
    then have "\<exists>d'. prefix d' (fdue c t) \<and> received (flost c t) (sent (fworld c) t) d'"
      using finv_plain(2) [OF inv, of t] pc by (auto intro: received_begin)
    then show ?thesis using True p b by (simp add: fecho_def)
  next
    case False
    then have "b t = ffailed c t" using b by (simp split: option.splits)
    then show ?thesis using finv_facts(7) [OF inv, of t] False by simp
  qed
  have sel: "fworld ?c = fworld c" "fhist ?c = fhist c" "came ?c = came c" "ffailed ?c = b" "flost ?c = flost c" "fdue ?c = fdue c"
    "fdropped ?c = Some (u, bs)" by simp_all
  show ?thesis unfolding finv_def sel
    by (intro conjI finv_facts(1,2) [OF inv]) (use none li n e alone(1) in blast)+
qed

lemma finv_lock_read:
  assumes inv: "finv d0 c" and pc: "fpcs c (Some t) = FWantRead" and lock: "pthread_mutex_lock 0 (fworld c) = Inr (0, w)"
  shows "finv d0 (c\<lparr>fpcs := (fpcs c)(Some t := FSeek), fworld := w, fdue := (fdue c)(t := fdue c t @ fdata w)\<rparr>)"
proof -
  note w = file_lock [OF inv lock]
  have "\<not> ffailed c t" using finv_facts(9) [OF inv, of t] pc w(3) by blast
  then have "fecho (ffailed c t) (flost c t) w FSeek t (fdue c t @ fdata w)"
    using finv_facts(7) [OF inv, of t] received_append pc by (simp add: fecho_def w(1))
  then have "finv d0 (c\<lparr>fpcs := (fpcs c)(Some t := FSeek), fworld := w, fdue := (fdue c)(t := fdue c t @ fdata w),
      ffailed := ffailed c, flost := flost c\<rparr>)"
    by (intro finv_quiet [OF inv w(2,3)]) (use pc in \<open>auto simp: w(1)\<close>)
  then show ?thesis by (cases c) simp
qed

text \<open>The steps of the sending loop: the thread has the file to itself.\<close>

lemma finv_reader:
  assumes inv: "finv d0 c" and pc: "fpcs c (Some t) = FSeek \<or> fpcs c (Some t) = FHoldRead \<or> fpcs c (Some t) = FDrain"
    and p: "p = FHoldRead \<or> p = FDrain \<or> p = FEndRead \<or> p = FOverrun"
    and w: "filestore_fd w = filestore_fd (fworld c)" "fdata w = fdata (fworld c)" "file_mutex w = file_mutex (fworld c)"
      "\<And>v. v \<noteq> t \<Longrightarrow> sent w v = sent (fworld c) v"
    and echo: "fecho b l w p t (fdue c t)"
  shows "finv d0 (c\<lparr>fpcs := (fpcs c)(Some t := p), fworld := w, ffailed := (ffailed c)(t := b), flost := (flost c)(t := l)\<rparr>)"
proof -
  have hold: "fholding (fpcs c (Some t))" using pc by auto
  have "finv d0 (c\<lparr>fpcs := (fpcs c)(Some t := p), fworld := w, fdue := fdue c, ffailed := (ffailed c)(t := b),
      flost := (flost c)(t := l)\<rparr>)"
    by (rule finv_quiet [OF inv file_holder(2,3) [OF inv hold]]) (use pc p w echo file_holder(1) [OF inv hold] in auto)
  then show ?thesis by (cases c) simp
qed

lemma finv_send:
  assumes inv: "finv d0 c" and pc: "fpcs c (Some t) = FHoldRead" and rd: "file_read True 1024 (fworld c) = Inr (n, out, w)"
    and snd: "sys_send (Some k) t (out @ drop (length out) buf) (word_of_int n) w = Inr (m, w')"
  shows "finv d0 (c\<lparr>fworld := w', flost := (flost c)(t := flost c t \<or> k < nat n)\<rparr>)"
proof -
  note plain = finv_plain [OF inv, of t] and eff = file_read_effect [OF rd finv_facts(1) [OF inv]]
  have n: "unat (word_of_int n :: size_t) = length out" using eff(1,2) by (simp add: unat_of_nat_size_t)
  have w': "w' = w\<lparr>sent := (sent w)(t := sent w t @ take k out)\<rparr>"
    using snd n by (auto simp: sys_send_def min_def split: if_splits)
  have "received (flost c t) (sent w t @ out @ drop (fpos w) (fdata w)) (fdue c t)" using plain(2) pc eff(3,8) by simp
  then have "received (flost c t \<or> k < nat n) (sent w t @ take k out @ drop (fpos w) (fdata w)) (fdue c t)"
    using received_short [of "flost c t" "sent w t" out "drop (fpos w) (fdata w)" "fdue c t" k] eff(1)
    by (cases "k < length out") auto
  then have "finv d0 (c\<lparr>fpcs := (fpcs c)(Some t := FHoldRead), fworld := w', ffailed := (ffailed c)(t := False),
      flost := (flost c)(t := flost c t \<or> k < nat n)\<rparr>)"
    by (intro finv_reader [OF inv]) (use pc eff in \<open>simp_all add: w' fecho_def\<close>)
  then show ?thesis using pc plain(1) by (cases c) (simp add: fun_upd_idem)
qed

lemma finv_read_end:
  assumes inv: "finv d0 c" and pc: "fpcs c (Some t) = FHoldRead \<and> n = 0 \<or> fpcs c (Some t) = FDrain"
    and rd: "file_read True 1024 (fworld c) = Inr (n, out, w)"
  shows "finv d0 (c\<lparr>fpcs := (fpcs c)(Some t := FEndRead), fworld := w\<rparr>)"
proof -
  note eff = file_read_effect [OF rd finv_facts(1) [OF inv]]
  have "funsent (fworld c) (fpcs c (Some t)) = []" using pc eff(4) by auto
  then have "fecho (ffailed c t) (flost c t) w FEndRead t (fdue c t)"
    using finv_facts(7) [OF inv, of t] eff(8) by (simp add: fecho_def split: if_splits)
  then have "finv d0 (c\<lparr>fpcs := (fpcs c)(Some t := FEndRead), fworld := w, ffailed := (ffailed c)(t := ffailed c t),
      flost := (flost c)(t := flost c t)\<rparr>)"
    by (intro finv_reader [OF inv]) (use pc eff in auto)
  then show ?thesis by (cases c) simp
qed

lemma finv_send_fails:
  assumes inv: "finv d0 c" and pc: "fpcs c (Some t) = FHoldRead" and rd: "file_read True 1024 (fworld c) = Inr (n, out, w)"
  shows "finv d0 (c\<lparr>fpcs := (fpcs c)(Some t := FDrain), fworld := w, ffailed := (ffailed c)(t := True)\<rparr>)"
proof -
  note eff = file_read_effect [OF rd finv_facts(1) [OF inv]]
  have "\<exists>d'. prefix d' (fdue c t) \<and> received (flost c t) (sent (fworld c) t) d'"
    by (rule received_begin) (use finv_plain(2) [OF inv, of t] pc in simp)
  then have "finv d0 (c\<lparr>fpcs := (fpcs c)(Some t := FDrain), fworld := w, ffailed := (ffailed c)(t := True),
      flost := (flost c)(t := flost c t)\<rparr>)"
    by (intro finv_reader [OF inv]) (use pc eff in \<open>simp_all add: fecho_def\<close>)
  then show ?thesis by (cases c) simp
qed

text \<open>A failing read of the file changes nothing but the path of the thread.\<close>

lemma finv_read_fails:
  assumes inv: "finv d0 c" and pc: "fpcs c (Some t) = FHoldRead \<and> p = FOverrun \<or> fpcs c (Some t) = FDrain \<and> p = FEndRead"
  shows "finv d0 (c\<lparr>fpcs := (fpcs c)(Some t := p), ffailed := (ffailed c)(t := ffailed c t \<or> p = FOverrun)\<rparr>)"
proof -
  have "\<exists>d'. prefix d' (fdue c t) \<and> received (flost c t) (sent (fworld c) t) d'" if "fpcs c (Some t) = FHoldRead"
    by (rule received_begin) (use finv_plain(2) [OF inv, of t] that in simp)
  then have "fecho (ffailed c t \<or> p = FOverrun) (flost c t) (fworld c) p t (fdue c t)"
    using finv_facts(7) [OF inv, of t] pc by (auto simp: fecho_def)
  then have "finv d0 (c\<lparr>fpcs := (fpcs c)(Some t := p), fworld := fworld c, ffailed := (ffailed c)(t := ffailed c t \<or> p = FOverrun),
      flost := (flost c)(t := flost c t)\<rparr>)"
    by (intro finv_reader [OF inv]) (use pc in auto)
  then show ?thesis by (cases c) simp
qed

lemma file_read_fails_same: "file_read False n w = Inr (r, out, w') \<Longrightarrow> w' = w"
  by (auto simp: file_read_def split: option.splits)

lemma finv_step: "file_step c c' \<Longrightarrow> finv d0 c \<Longrightarrow> finv d0 c'"
proof (induction rule: file_step.induct)
  case (recv c t bs)
  from finv_outside [OF recv.prems, of "Some t" "FWantWrite bs"] recv show ?case by simp
next
  case (leave c t)
  from finv_outside [OF leave.prems, of "Some t" FFinished] leave
  have "finv d0 (c\<lparr>fpcs := (fpcs c)(Some t := FFinished), came := (came c)(Some t := came c (Some t))\<rparr>)" by simp
  then show ?case by (cases c) simp
next
  case (tick c timestamp)
  have "length (c_string timestamp) \<le> length timestamp" by (rule length_takeWhile_le)
  with finv_outside [OF tick.prems, of None "FWantWrite (c_string timestamp)"] tick show ?case by simp
next
  case (lock_write c u bs w)
  then show ?case by (intro finv_lock_write)
next
  case (do_write c u bs k r w)
  then show ?case by (intro finv_write)
next
  case (write_fails c u bs w)
  then have "w = fworld c" by (simp add: file_write_def split: option.splits)
  moreover have "finv d0 (c\<lparr>fpcs := (fpcs c)(u := (case u of None \<Rightarrow> FAsleep | Some _ \<Rightarrow> FWantRead)), fdropped := Some (u, bs),
      ffailed := (case u of None \<Rightarrow> ffailed c | Some t \<Rightarrow> (ffailed c)(t := True))\<rparr>)"
    by (rule finv_write_fails [OF write_fails.prems write_fails(1)]) (auto split: option.splits)
  ultimately show ?case by (cases c) simp
next
  case (unlock_write c u)
  then show ?case by (intro finv_unlock) (auto split: option.splits)
next
  case (lock_read c t w)
  then show ?case by (intro finv_lock_read)
next
  case (seek c t)
  have "fecho (ffailed c t) (flost c t) ((fworld c)\<lparr>fpos := 0\<rparr>) FHoldRead t (fdue c t)"
    using finv_plain [OF seek.prems, of t] seek(1) by (simp add: fecho_def)
  then have "finv d0 (c\<lparr>fpcs := (fpcs c)(Some t := FHoldRead), fworld := (fworld c)\<lparr>fpos := 0\<rparr>,
      ffailed := (ffailed c)(t := ffailed c t), flost := (flost c)(t := flost c t)\<rparr>)"
    by (intro finv_reader [OF seek.prems]) (use seek(1) in auto)
  then show ?case by (cases c) simp
next
  case (send c t n out w k buf m w')
  then show ?case by (intro finv_send)
next
  case (send_fails c t n out w buf w')
  then have "w' = w" by (simp add: sys_send_def split: if_splits)
  then show ?case using finv_send_fails [OF send_fails.prems send_fails(1,2)] by simp
next
  case (read_fails c t out w)
  then show ?case using finv_read_fails [OF read_fails.prems, of t FOverrun] file_read_fails_same [OF read_fails(2)]
    by (cases c) simp
next
  case (drain_fails c t out w)
  then show ?case using finv_read_fails [OF drain_fails.prems, of t FEndRead] file_read_fails_same [OF drain_fails(2)]
    by (cases c) simp
next
  case (drain c t n out w)
  then show ?case by (intro finv_read_end) simp_all
next
  case (sent_all c t out w)
  then show ?case by (intro finv_read_end) simp_all
next
  case (unlock_read c t)
  then show ?case by (intro finv_unlock) simp_all
next
  case (signal c)
  then show ?case by (simp add: finv_def)
qed

lemma finv_reachable:
  assumes "file_reachable T w c" and "file_store_inv w"
  shows "finv (fdata w) c"
  using assms(1)
proof (induction rule: rtranclp_induct)
  case base
  then show ?case using assms(2)
    by (auto simp: finv_def file_start_def file_store_inv_def fecho_def received_def fdropped_of_def split: option.splits)
next
  case (step c c')
  then show ?case by (blast intro: finv_step)
qed

section \<open>Progress\<close>

text \<open>The holder of the mutex can go on to its release by its own steps, whatever the size of the file.\<close>

lemmas file_then = converse_rtranclp_into_rtranclp [where r = file_step]

lemma unlock_read_releases:
  "fpcs c (Some t) = FEndRead \<Longrightarrow> \<exists>c'. file_step\<^sup>*\<^sup>* c c' \<and> \<not> file_mutex (fworld c') \<and> (\<forall>v. v \<noteq> Some t \<longrightarrow> fpcs c' v = fpcs c v)"
  using r_into_rtranclp [where r = file_step, OF file_step.unlock_read [of c t]]
  by (intro exI conjI) (assumption | simp add: pthread_mutex_unlock_def)+

lemma file_read_returns:
  assumes "finv d0 c"
  obtains out w where "file_read True 1024 (fworld c) = Inr (int (length out), out, w)" "length out \<le> 1024"
    "drop (fpos (fworld c)) (fdata (fworld c)) = out @ drop (fpos w) (fdata w)"
    "out = [] \<longleftrightarrow> drop (fpos (fworld c)) (fdata (fworld c)) = []"
proof -
  note fd = finv_facts(1) [OF assms]
  then obtain out w where rd: "file_read True 1024 (fworld c) = Inr (int (length out), out, w)"
    by (auto simp: file_read_def Let_def)
  note eff = file_read_effect [OF rd fd]
  from eff(3,4) have "out = [] \<longleftrightarrow> drop (fpos (fworld c)) (fdata (fworld c)) = []" by auto
  with rd eff(2,3) show ?thesis by (rule that)
qed

lemma drain_releases:
  assumes "finv d0 c" and "fpcs c (Some t) = FDrain \<or> fpcs c (Some t) = FHoldRead \<and> drop (fpos (fworld c)) (fdata (fworld c)) = []"
  shows "\<exists>c'. file_step\<^sup>*\<^sup>* c c' \<and> \<not> file_mutex (fworld c') \<and> (\<forall>v. v \<noteq> Some t \<longrightarrow> fpcs c' v = fpcs c v)"
proof -
  obtain out w where rd: "file_read True 1024 (fworld c) = Inr (int (length out), out, w)"
    "out = [] \<longleftrightarrow> drop (fpos (fworld c)) (fdata (fworld c)) = []" by (rule file_read_returns [OF assms(1)])
  have st: "file_step c (c\<lparr>fpcs := (fpcs c)(Some t := FEndRead), fworld := w\<rparr>)"
    using assms(2) file_step.drain [OF _ rd(1)] file_step.sent_all [of c t out w] rd by fastforce
  from unlock_read_releases [of "c\<lparr>fpcs := (fpcs c)(Some t := FEndRead), fworld := w\<rparr>" t] obtain c' where
    "file_step\<^sup>*\<^sup>* (c\<lparr>fpcs := (fpcs c)(Some t := FEndRead), fworld := w\<rparr>) c'" "\<not> file_mutex (fworld c')"
    "\<forall>v. v \<noteq> Some t \<longrightarrow> fpcs c' v = fpcs c v" by auto
  then show ?thesis using file_then [OF st] by blast
qed

lemma send_releases:
  "finv d0 c \<Longrightarrow> fpcs c (Some t) = FHoldRead \<Longrightarrow>
    \<exists>c'. file_step\<^sup>*\<^sup>* c c' \<and> \<not> file_mutex (fworld c') \<and> (\<forall>v. v \<noteq> Some t \<longrightarrow> fpcs c' v = fpcs c v)"
proof (induction "length (drop (fpos (fworld c)) (fdata (fworld c)))" arbitrary: c rule: less_induct)
  case less
  obtain out w where rd: "file_read True 1024 (fworld c) = Inr (int (length out), out, w)" "length out \<le> 1024"
      "drop (fpos (fworld c)) (fdata (fworld c)) = out @ drop (fpos w) (fdata w)"
      "out = [] \<longleftrightarrow> drop (fpos (fworld c)) (fdata (fworld c)) = []" by (rule file_read_returns [OF less.prems(1)])
  show ?case
  proof (cases "out = []")
    case True
    then show ?thesis using drain_releases [OF less.prems(1), of t] rd(4) less.prems(2) by blast
  next
    case False
    let ?w = "w\<lparr>sent := (sent w)(t := sent w t @ out)\<rparr>"
    have "unat (word_of_int (int (length out)) :: size_t) = length out" using rd(2) by (simp add: unat_of_nat_size_t)
    then have "sys_send (Some 1024) t (out @ drop (length out) []) (word_of_int (int (length out))) w = Inr (int (length out), ?w)"
      using rd(2) by (simp add: sys_send_def min_def)
    from file_step.send [OF less.prems(2) rd(1) _ this] False have
      st: "file_step c (c\<lparr>fworld := ?w, flost := (flost c)(t := flost c t \<or> 1024 < nat (int (length out)))\<rparr>)"
        (is "file_step c ?c1") by simp
    have "length (drop (fpos (fworld ?c1)) (fdata (fworld ?c1))) < length (drop (fpos (fworld c)) (fdata (fworld c)))"
      unfolding rd(3) using False by simp
    from less.hyps [OF this finv_step [OF st less.prems(1)]] less.prems(2) obtain c' where
      "file_step\<^sup>*\<^sup>* ?c1 c'" "\<not> file_mutex (fworld c')" "\<forall>v. v \<noteq> Some t \<longrightarrow> fpcs c' v = fpcs c v" by auto
    then show ?thesis using file_then [OF st] by blast
  qed
qed

lemma unlock_write_releases:
  "fpcs c u = FEndWrite \<Longrightarrow> \<exists>c'. file_step\<^sup>*\<^sup>* c c' \<and> \<not> file_mutex (fworld c') \<and> (\<forall>v. v \<noteq> u \<longrightarrow> fpcs c' v = fpcs c v)"
  using r_into_rtranclp [where r = file_step, OF file_step.unlock_write [of c u]]
  by (intro exI conjI) (assumption | simp add: pthread_mutex_unlock_def)+

lemma write_releases:
  assumes inv: "finv d0 c" and pc: "fpcs c u = FHoldWrite bs"
  shows "\<exists>c'. file_step\<^sup>*\<^sup>* c c' \<and> \<not> file_mutex (fworld c') \<and> (\<forall>v. v \<noteq> u \<longrightarrow> fpcs c' v = fpcs c v)"
proof -
  obtain r w where run: "file_write (Some (length bs)) bs (word_of_nat (length bs)) (fworld c) = (r, w)" "0 \<le> r"
    using finv_facts(1) [OF inv] by (auto simp: file_write_def Let_def)
  let ?c1 = "c\<lparr>fpcs := (fpcs c)(u := FEndWrite), fworld := w, fhist := fhist c @ [(u, bs, length bs)]\<rparr>"
  have st: "file_step c ?c1" by (rule file_step.do_write [OF pc run(1)]) (use run(2) in simp)
  from unlock_write_releases [of ?c1 u] obtain c' where
    "file_step\<^sup>*\<^sup>* ?c1 c'" "\<not> file_mutex (fworld c')" "\<forall>v. v \<noteq> u \<longrightarrow> fpcs c' v = fpcs c v" by auto
  then show ?thesis using file_then [OF st] by blast
qed

lemma seek_releases:
  assumes inv: "finv d0 c" and pc: "fpcs c (Some t) = FSeek"
  shows "\<exists>c'. file_step\<^sup>*\<^sup>* c c' \<and> \<not> file_mutex (fworld c') \<and> (\<forall>v. v \<noteq> Some t \<longrightarrow> fpcs c' v = fpcs c v)"
proof -
  note st = file_step.seek [OF pc]
  from send_releases [OF finv_step [OF st inv], of t] obtain c' where
    "file_step\<^sup>*\<^sup>* (c\<lparr>fpcs := (fpcs c)(Some t := FHoldRead), fworld := (fworld c)\<lparr>fpos := 0\<rparr>\<rparr>) c'" "\<not> file_mutex (fworld c')"
    "\<forall>v. v \<noteq> Some t \<longrightarrow> fpcs c' v = fpcs c v" by auto
  then show ?thesis using file_then [OF st] by blast
qed

text \<open>The timer only writes.\<close>

lemma timer_only_writes:
  assumes "file_reachable T w c"
  shows "fpcs c None = FAsleep \<or> (\<exists>bs. fpcs c None = FWantWrite bs \<or> fpcs c None = FHoldWrite bs) \<or> fpcs c None = FEndWrite"
  using assms
proof (induction rule: rtranclp_induct)
  case base
  then show ?case by (simp add: file_start_def)
next
  case (step c c')
  from step.hyps(2) step.IH show ?case by cases (auto split: option.splits)
qed

lemma holder_releases:
  assumes inv: "finv d0 c" and c: "file_reachable T w c" and hold: "fholding (fpcs c u)" "fpcs c u \<noteq> FOverrun"
  shows "\<exists>c'. file_step\<^sup>*\<^sup>* c c' \<and> \<not> file_mutex (fworld c') \<and> (\<forall>v. v \<noteq> u \<longrightarrow> fpcs c' v = fpcs c v)"
proof -
  have writes: ?thesis if "fpcs c u = FHoldWrite bs" for bs using write_releases [OF inv that] .
  have unlock: ?thesis if "fpcs c u = FEndWrite" using unlock_write_releases [OF that] .
  show ?thesis
  proof (cases u)
    case None
    then show ?thesis using timer_only_writes [OF c] hold writes unlock by auto
  next
    case (Some t)
    have reading: ?thesis if "fpcs c (Some t) = FSeek \<or> fpcs c (Some t) = FHoldRead \<or> fpcs c (Some t) = FDrain \<or> fpcs c (Some t) = FEndRead"
      unfolding Some using that send_releases [OF inv, of t] seek_releases [OF inv, of t] drain_releases [OF inv, of t]
        unlock_read_releases [of c t] by blast
    show ?thesis using hold writes unlock reading unfolding Some by (cases "fpcs c (Some t)") simp_all
  qed
qed

section \<open>The property\<close>

text \<open>After a failed write nobody gets inside any more.\<close>

lemma dropped_step:
  assumes "file_step c c'" and inv: "finv d0 c" and drop: "fdropped c \<noteq> None"
  shows "fdropped c' = fdropped c \<and> fhist c' = fhist c"
proof -
  note out = finv_facts(8) [OF inv drop]
  from assms(1) show ?thesis
  proof cases
    case (write_fails u bs w)
    then show ?thesis using out [of u] by simp
  next
    case (do_write u bs k r w)
    then show ?thesis using out [of u] by simp
  qed simp_all
qed

lemma dropped_for_good:
  assumes "file_step\<^sup>*\<^sup>* c c'" and "finv d0 c" and "fdropped c \<noteq> None"
  shows "finv d0 c' \<and> fdropped c' = fdropped c \<and> fhist c' = fhist c"
  using assms(1)
proof (induction rule: rtranclp_induct)
  case base
  then show ?case using assms by simp
next
  case (step c1 c2)
  then show ?case using dropped_step [OF step.hyps(2)] finv_step [OF step.hyps(2)] assms(3) by metis
qed

text \<open>
  C11: the regular-file configuration under concurrency. In every interleaving of any number of
  connection threads with the timer thread, with short and failing writes, failing reads, short and
  failing sends and a signal at any time: the file is what it was followed by what its writes took, in
  the order of the writes; the lines of each client and the timestamps were written in the order in
  which they came, none twice and none lost, but for the one whose write failed and the one in hand; at
  most one thread is inside the critical sections, and the mutex is locked exactly when one is or a
  write has failed; what a client has received and still gets sent is a sequence of snapshots of the
  file (less what short sends lost, or the beginning of it if a call of its thread failed), although
  all threads share one file position. As long as no write has failed, the holder of the mutex can
  always release it by steps of its own while the others wait, unless a read of the file failed in its
  sending loop, where its behaviour is undefined. Once a write has failed, nobody is ever inside again,
  the mutex stays locked and the file stays as it is.
\<close>

theorem file_threads_in_order:
  assumes "file_store_inv w" and "file_reachable T w c"
  shows "fdata (fworld c) = fdata w @ taken (fhist c) \<and>
    (\<forall>u. asked u (fhist c) @ fdropped_of u (fdropped c) @ fin_hand (fpcs c u) = came c u) \<and>
    file_mutex (fworld c) = ((\<exists>u. fholding (fpcs c u)) \<or> fdropped c \<noteq> None) \<and>
    (\<forall>u v. fholding (fpcs c u) \<longrightarrow> fholding (fpcs c v) \<longrightarrow> u = v) \<and>
    (\<forall>t. \<not> ffailed c t \<longrightarrow> received (flost c t) (sent (fworld c) t @ funsent (fworld c) (fpcs c (Some t))) (fdue c t)) \<and>
    (\<forall>t. ffailed c t \<longrightarrow> (\<exists>d. prefix d (fdue c t) \<and> received (flost c t) (sent (fworld c) t) d)) \<and>
    (\<forall>u. fholding (fpcs c u) \<longrightarrow> fpcs c u \<noteq> FOverrun \<longrightarrow>
      (\<exists>c'. file_step\<^sup>*\<^sup>* c c' \<and> \<not> file_mutex (fworld c') \<and> (\<forall>v. v \<noteq> u \<longrightarrow> fpcs c' v = fpcs c v))) \<and>
    (fdropped c \<noteq> None \<longrightarrow> (\<forall>c'. file_step\<^sup>*\<^sup>* c c' \<longrightarrow>
      file_mutex (fworld c') \<and> (\<forall>u. \<not> fholding (fpcs c' u)) \<and> fdata (fworld c') = fdata (fworld c)))"
proof (intro conjI allI impI)
  note inv = finv_reachable [OF assms(2,1)]
  show "fdata (fworld c) = fdata w @ taken (fhist c)"
    "file_mutex (fworld c) = ((\<exists>u. fholding (fpcs c u)) \<or> fdropped c \<noteq> None)" by (fact finv_facts(2,3) [OF inv])+
  show "asked u (fhist c) @ fdropped_of u (fdropped c) @ fin_hand (fpcs c u) = came c u" for u by (rule finv_facts(5) [OF inv])
  show "u = v" if "fholding (fpcs c u)" "fholding (fpcs c v)" for u v using finv_facts(4) [OF inv that] .
  show "received (flost c t) (sent (fworld c) t @ funsent (fworld c) (fpcs c (Some t))) (fdue c t)" if "\<not> ffailed c t" for t
    using finv_facts(7) [OF inv, of t] that by (simp add: fecho_def)
  show "\<exists>d. prefix d (fdue c t) \<and> received (flost c t) (sent (fworld c) t) d" if "ffailed c t" for t
    using finv_facts(7) [OF inv, of t] that by (simp add: fecho_def)
  show "\<exists>c'. file_step\<^sup>*\<^sup>* c c' \<and> \<not> file_mutex (fworld c') \<and> (\<forall>v. v \<noteq> u \<longrightarrow> fpcs c' v = fpcs c v)"
    if "fholding (fpcs c u)" "fpcs c u \<noteq> FOverrun" for u by (rule holder_releases [OF inv assms(2) that])
  fix c'
  assume drop: "fdropped c \<noteq> None" and run: "file_step\<^sup>*\<^sup>* c c'"
  note after = dropped_for_good [OF run inv drop]
  then have inv': "finv (fdata w) c'" and d: "fdropped c' \<noteq> None" using drop by simp_all
  show "file_mutex (fworld c')" using finv_facts(3) [OF inv'] d by blast
  show "\<not> fholding (fpcs c' u)" for u by (rule finv_facts(8) [OF inv' d])
  show "fdata (fworld c') = fdata (fworld c)" using finv_facts(2) [OF inv'] finv_facts(2) [OF inv] after by simp
qed

section \<open>A witness\<close>

text \<open>
  The timer has woken up and holds the mutex; then the file took one byte of its timestamp, or the
  write failed.
\<close>

definition stamp :: bytes where
  "stamp = ''tic'' @ replicate 97 nul"

definition tick_held :: file_conf where
  "tick_held = (file_start {5} start_file_world)\<lparr>
     fpcs := (fpcs (file_start {5} start_file_world))(None := FHoldWrite ''tic''), came := (\<lambda>_. [])(None := [''tic'']),
     fworld := start_file_world\<lparr>file_mutex := True\<rparr>\<rparr>"

definition ticked :: file_conf where
  "ticked = tick_held\<lparr>fpcs := (fpcs tick_held)(None := FEndWrite),
     fworld := start_file_world\<lparr>file_mutex := True, fdata := ''t'', fpos := 1\<rparr>, fhist := [(None, ''tic'', 1)]\<rparr>"

definition tick_failed :: file_conf where
  "tick_failed = tick_held\<lparr>fpcs := (fpcs tick_held)(None := FAsleep), fdropped := Some (None, ''tic'')\<rparr>"

lemma tick_held_reachable: "file_reachable {5} start_file_world tick_held"
proof -
  let ?s = "file_start {5} start_file_world"
  have stamp: "c_string stamp = ''tic''" "nul \<in> set stamp" "length stamp = 100"
    by (simp_all add: stamp_def)
  let ?c1 = "?s\<lparr>fpcs := (fpcs ?s)(None := FWantWrite ''tic''), came := (came ?s)(None := [''tic''])\<rparr>"
  have sel: "fpcs ?s None = FAsleep" "came ?s None = []" by (simp_all add: file_start_def)
  have s1: "file_step ?s ?c1" using file_step.tick [OF sel(1) stamp(2,3)] unfolding stamp(1) sel(2) by simp
  let ?c2 = "?c1\<lparr>fpcs := (fpcs ?c1)(None := FHoldWrite ''tic''), fworld := start_file_world\<lparr>file_mutex := True\<rparr>\<rparr>"
  have s2: "file_step ?c1 ?c2"
    by (rule file_step.lock_write) (use start_file_world_inv in \<open>simp_all add: file_start_def pthread_mutex_lock_def file_store_inv_def\<close>)
  have "?c2 = tick_held" by (simp add: tick_held_def file_start_def)
  with file_then [OF s1 r_into_rtranclp [where r = file_step, OF s2]] show ?thesis by simp
qed

lemma ticked_reachable:
  "file_reachable {5} start_file_world ticked" "file_reachable {5} start_file_world tick_failed"
proof -
  have fd: "filestore_fd start_file_world \<noteq> None" "fdata start_file_world = []"
    using start_file_world_inv by (simp_all add: file_store_inv_def start_file_world_def file_init_filestore_def)
  have pc: "fpcs tick_held None = FHoldWrite ''tic''" "fworld tick_held = start_file_world\<lparr>file_mutex := True\<rparr>"
    "fhist tick_held = []" by (simp_all add: tick_held_def file_start_def)
  have "file_step tick_held (tick_held\<lparr>fpcs := (fpcs tick_held)(None := FEndWrite),
      fworld := start_file_world\<lparr>file_mutex := True, fdata := ''t'', fpos := 1\<rparr>, fhist := fhist tick_held @ [(None, ''tic'', 1)]\<rparr>)"
    by (rule file_step.do_write [OF pc(1), where r = 1]) (use fd in \<open>auto simp: pc(2) file_write_def Let_def\<close>)
  then have "file_step tick_held ticked" by (simp add: ticked_def pc(3))
  with tick_held_reachable show "file_reachable {5} start_file_world ticked" by simp
  have "file_write None ''tic'' (word_of_nat (length ''tic'')) (fworld tick_held) = (- 1, fworld tick_held)"
    by (simp add: file_write_def split: option.splits)
  from file_step.write_fails [OF pc(1) this] have "file_step tick_held tick_failed" by (simp add: tick_failed_def)
  with tick_held_reachable show "file_reachable {5} start_file_world tick_failed" by simp
qed

theorem file_threads_in_order_witness:
  "fdata (fworld ticked) = ''t'' \<and> asked None (fhist ticked) = [''tic''] \<and>
   (\<exists>c'. file_step\<^sup>*\<^sup>* ticked c' \<and> \<not> file_mutex (fworld c') \<and> fpcs c' (Some 5) = FReadLine) \<and>
   file_mutex (fworld tick_failed) \<and> fdropped_of None (fdropped tick_failed) = came tick_failed None"
proof -
  note all = file_threads_in_order [OF start_file_world_inv ticked_reachable(1)]
    and failed = file_threads_in_order [OF start_file_world_inv ticked_reachable(2)]
  have at: "fpcs ticked None = FEndWrite" "fpcs ticked (Some 5) = FReadLine" "came ticked None = [''tic'']"
    "fhist ticked = [(None, ''tic'', 1)]" "fdropped ticked = None" "fdata start_file_world = []"
    by (simp_all add: ticked_def tick_held_def file_start_def start_file_world_def file_init_filestore_def)
  have "asked None (fhist ticked) @ fdropped_of None (fdropped ticked) @ fin_hand (fpcs ticked None) = came ticked None"
    "fdata (fworld ticked) = fdata start_file_world @ taken (fhist ticked)" using all by blast+
  then have written: "asked None (fhist ticked) = [''tic'']" "fdata (fworld ticked) = ''t''"
    by (simp_all add: at fdropped_of_def taken_def)
  have "fholding (fpcs ticked None)" "fpcs ticked None \<noteq> FOverrun" "Some 5 \<noteq> (None :: nat option)" by (simp_all add: at)
  then have free: "\<exists>c'. file_step\<^sup>*\<^sup>* ticked c' \<and> \<not> file_mutex (fworld c') \<and> fpcs c' (Some 5) = FReadLine"
    unfolding at(2) [symmetric] using all by blast
  have sf: "fdropped tick_failed \<noteq> None" "fhist tick_failed = []" "fpcs tick_failed None = FAsleep"
    by (simp_all add: tick_failed_def tick_held_def file_start_def)
  have "asked None (fhist tick_failed) @ fdropped_of None (fdropped tick_failed) @ fin_hand (fpcs tick_failed None) =
      came tick_failed None" "file_mutex (fworld tick_failed)" using failed sf(1) by blast+
  with sf have "file_mutex (fworld tick_failed)" "fdropped_of None (fdropped tick_failed) = came tick_failed None" by simp_all
  with written free show ?thesis by blast
qed

end
