(* ===== verification/Driver_Calls.thy ===== *)
theory Driver_Calls
  imports Driver_Properties
begin

text \<open>
  Many processes in the character driver at once. Every process has an open file on the device and
  makes reads and writes; the steps are the calls of \<open>aesd_read\<close> and \<open>aesd_write\<close> that may sleep
  or touch shared state (taking the lock, allocating, copying from and to user space, growing the
  pending entry, adding it to the ring, freeing, releasing the lock), and processes interleave
  between any two of them. Allocations and user copies may fail and waiting for the lock may be
  interrupted. An access the code must not make leads to \<open>Fault\<close>. The serial executions of
  \<open>aesd_read\<close> and \<open>aesd_write\<close> are the specification.
\<close>

section \<open>Configurations\<close>

datatype call = Read size_t | Write bytes

text \<open>Where a process is in the driver; \<open>ptr\<close> is \<open>kbuf\<close>.\<close>

datatype dpc =
    Outside
  | Waiting call
  | ReadFind size_t
  | ReadCopy size_t nat size_t
  | WriteAlloc bytes
  | WriteCopy bytes ptr
  | WriteScan bytes ptr
  | WriteGrow bytes ptr int
  | WriteAdd bytes ptr
  | ExitFree bytes int ptr
  | Exit call int bytes
  | Fault call

text \<open>\<open>dlog\<close> lists the calls that have returned, in the order of their returns from the driver.\<close>

record dconf =
  dkern :: kernel
  dpcs :: "nat \<Rightarrow> dpc"
  dfiles :: "nat \<Rightarrow> struct_file"
  dlog :: "(nat \<times> call \<times> int \<times> bytes) list"

abbreviation count_of :: "bytes \<Rightarrow> size_t" where
  "count_of bs \<equiv> word_of_nat (length bs)"

definition locked_at :: "call \<Rightarrow> dpc" where
  "locked_at cl = (case cl of Read n \<Rightarrow> ReadFind n | Write bs \<Rightarrow> WriteAlloc bs)"

definition copy_size :: "int \<Rightarrow> size_t \<Rightarrow> size_t" where
  "copy_size newline_pos count = (if newline_pos = - 1 then count else word_of_int (newline_pos + 1))"

definition dev_find :: "struct_file \<Rightarrow> kernel \<Rightarrow> (nat \<times> size_t) option" where
  "dev_find filp k =
     aesd_circular_buffer_find_entry_offset_for_fpos (Some (dev_buffer (aesd_device k))) (f_pos filp) False"

definition read_size :: "size_t \<Rightarrow> nat \<Rightarrow> size_t \<Rightarrow> kernel \<Rightarrow> size_t" where
  "read_size count index off k = min count (esize (cb_entry (dev_buffer (aesd_device k)) ! index) - off)"

definition read_copy :: "nat \<Rightarrow> size_t \<Rightarrow> nat \<Rightarrow> size_t \<Rightarrow> kernel \<Rightarrow> (nat \<times> bytes) option" where
  "read_copy uncopied count index off k =
     copy_to_user (kmem k) (buffptr (cb_entry (dev_buffer (aesd_device k)) ! index)) (unat off)
       (read_size count index off k) uncopied"

section \<open>Steps\<close>

inductive dev_step :: "nat \<Rightarrow> dconf \<Rightarrow> dconf \<Rightarrow> bool" for p :: nat where
  enter: "dpcs c p = Outside \<Longrightarrow> (\<forall>bs. cl = Write bs \<longrightarrow> length bs < 2 ^ 64) \<Longrightarrow>
    dev_step p c (c\<lparr>dpcs := (dpcs c)(p := Waiting cl)\<rparr>)"
| interrupted: "dpcs c p = Waiting cl \<Longrightarrow>
    dev_step p c (c\<lparr>dpcs := (dpcs c)(p := Outside), dlog := dlog c @ [(p, cl, - ERESTARTSYS, [])]\<rparr>)"
| lock: "dpcs c p = Waiting cl \<Longrightarrow> \<not> dev_lock (aesd_device (dkern c)) \<Longrightarrow>
    dev_step p c (c\<lparr>dkern := set_lock True (dkern c), dpcs := (dpcs c)(p := locked_at cl)\<rparr>)"
| find_none: "dpcs c p = ReadFind n \<Longrightarrow> dev_find (dfiles c p) (dkern c) = None \<Longrightarrow>
    dev_step p c (c\<lparr>dpcs := (dpcs c)(p := Exit (Read n) 0 [])\<rparr>)"
| find_some: "dpcs c p = ReadFind n \<Longrightarrow> dev_find (dfiles c p) (dkern c) = Some (i, off) \<Longrightarrow>
    dev_step p c (c\<lparr>dpcs := (dpcs c)(p := ReadCopy n i off)\<rparr>)"
| copy_out: "dpcs c p = ReadCopy n i off \<Longrightarrow> read_copy 0 n i off (dkern c) = Some (0, out) \<Longrightarrow>
    dev_step p c (c\<lparr>dpcs := (dpcs c)(p := Exit (Read n) (sint (read_size n i off (dkern c))) out),
      dfiles := (dfiles c)(p := (dfiles c p)\<lparr>f_pos := f_pos (dfiles c p) + read_size n i off (dkern c)\<rparr>)\<rparr>)"
| copy_out_fails: "dpcs c p = ReadCopy n i off \<Longrightarrow> 0 < rest \<Longrightarrow> read_copy rest n i off (dkern c) = Some (rest, out) \<Longrightarrow>
    dev_step p c (c\<lparr>dpcs := (dpcs c)(p := Exit (Read n) (- EFAULT) out)\<rparr>)"
| copy_out_fault: "dpcs c p = ReadCopy n i off \<Longrightarrow> read_copy rest n i off (dkern c) = None \<Longrightarrow>
    dev_step p c (c\<lparr>dpcs := (dpcs c)(p := Fault (Read n))\<rparr>)"
| alloc: "dpcs c p = WriteAlloc bs \<Longrightarrow> alloc_ok (kmem (dkern c)) NULL (count_of bs) rc \<Longrightarrow>
    kmalloc (kmem (dkern c)) (count_of bs) rc = (kbuf, h) \<Longrightarrow> kbuf \<noteq> NULL \<Longrightarrow>
    dev_step p c (c\<lparr>dkern := (dkern c)\<lparr>kmem := h\<rparr>, dpcs := (dpcs c)(p := WriteCopy bs kbuf)\<rparr>)"
| alloc_fails: "dpcs c p = WriteAlloc bs \<Longrightarrow> kmalloc (kmem (dkern c)) (count_of bs) None = (NULL, h) \<Longrightarrow>
    dev_step p c (c\<lparr>dkern := (dkern c)\<lparr>kmem := h\<rparr>, dpcs := (dpcs c)(p := Exit (Write bs) (- ENOMEM) [])\<rparr>)"
| copy_in: "dpcs c p = WriteCopy bs kbuf \<Longrightarrow> copy_from_user (kmem (dkern c)) kbuf bs (count_of bs) 0 = Some (0, h) \<Longrightarrow>
    dev_step p c (c\<lparr>dkern := (dkern c)\<lparr>kmem := h\<rparr>, dpcs := (dpcs c)(p := WriteScan bs kbuf)\<rparr>)"
| copy_in_fails: "dpcs c p = WriteCopy bs kbuf \<Longrightarrow> 0 < rest \<Longrightarrow> rest \<le> length bs \<Longrightarrow>
    copy_from_user (kmem (dkern c)) kbuf bs (count_of bs) rest = Some (rest, h) \<Longrightarrow>
    dev_step p c (c\<lparr>dkern := (dkern c)\<lparr>kmem := h\<rparr>, dpcs := (dpcs c)(p := ExitFree bs (- EFAULT) kbuf)\<rparr>)"
| copy_in_fault: "dpcs c p = WriteCopy bs kbuf \<Longrightarrow> rest \<le> length bs \<Longrightarrow>
    copy_from_user (kmem (dkern c)) kbuf bs (count_of bs) rest = None \<Longrightarrow>
    dev_step p c (c\<lparr>dpcs := (dpcs c)(p := Fault (Write bs))\<rparr>)"
| scan: "dpcs c p = WriteScan bs kbuf \<Longrightarrow> kload (kmem (dkern c)) kbuf 0 (unat (count_of bs)) = Some contents \<Longrightarrow>
    newline_scan contents (count_of bs) 0 = Some newline_pos \<Longrightarrow>
    dev_step p c (c\<lparr>dpcs := (dpcs c)(p := WriteGrow bs kbuf newline_pos)\<rparr>)"
| scan_fault: "dpcs c p = WriteScan bs kbuf \<Longrightarrow>
    (case kload (kmem (dkern c)) kbuf 0 (unat (count_of bs)) of
       None \<Rightarrow> True | Some contents \<Rightarrow> newline_scan contents (count_of bs) 0 = None) \<Longrightarrow>
    dev_step p c (c\<lparr>dpcs := (dpcs c)(p := Fault (Write bs))\<rparr>)"
| grow: "dpcs c p = WriteGrow bs kbuf pos \<Longrightarrow> e = dev_entry (aesd_device (dkern c)) \<Longrightarrow>
    alloc_ok (kmem (dkern c)) (buffptr e) (esize e + copy_size pos (count_of bs)) rc \<Longrightarrow>
    grow_entry rc kbuf (copy_size pos (count_of bs)) (dkern c) = Some (True, k) \<Longrightarrow>
    dev_step p c (c\<lparr>dkern := k,
      dpcs := (dpcs c)(p := if pos = - 1 then ExitFree bs (sint (count_of bs)) kbuf else WriteAdd bs kbuf)\<rparr>)"
| grow_fails: "dpcs c p = WriteGrow bs kbuf pos \<Longrightarrow> e = dev_entry (aesd_device (dkern c)) \<Longrightarrow>
    alloc_ok (kmem (dkern c)) (buffptr e) (esize e + copy_size pos (count_of bs)) rc \<Longrightarrow>
    grow_entry rc kbuf (copy_size pos (count_of bs)) (dkern c) = Some (False, k) \<Longrightarrow>
    dev_step p c (c\<lparr>dkern := k, dpcs := (dpcs c)(p := ExitFree bs (- ENOMEM) kbuf)\<rparr>)"
| grow_fault: "dpcs c p = WriteGrow bs kbuf pos \<Longrightarrow> e = dev_entry (aesd_device (dkern c)) \<Longrightarrow>
    alloc_ok (kmem (dkern c)) (buffptr e) (esize e + copy_size pos (count_of bs)) rc \<Longrightarrow>
    grow_entry rc kbuf (copy_size pos (count_of bs)) (dkern c) = None \<Longrightarrow>
    dev_step p c (c\<lparr>dpcs := (dpcs c)(p := Fault (Write bs))\<rparr>)"
| add: "dpcs c p = WriteAdd bs kbuf \<Longrightarrow>
    aesd_circular_buffer_add_entry (dev_buffer (aesd_device (dkern c))) (dev_entry (aesd_device (dkern c))) = Some b \<Longrightarrow>
    dev_step p c (c\<lparr>dkern := set_entry \<lparr>buffptr = NULL, esize = 0\<rparr> (set_buffer b (dkern c)),
      dpcs := (dpcs c)(p := ExitFree bs (sint (count_of bs)) kbuf)\<rparr>)"
| add_fault: "dpcs c p = WriteAdd bs kbuf \<Longrightarrow>
    aesd_circular_buffer_add_entry (dev_buffer (aesd_device (dkern c))) (dev_entry (aesd_device (dkern c))) = None \<Longrightarrow>
    dev_step p c (c\<lparr>dpcs := (dpcs c)(p := Fault (Write bs))\<rparr>)"
| free: "dpcs c p = ExitFree bs r kbuf \<Longrightarrow> kfree (kmem (dkern c)) kbuf = Some h \<Longrightarrow>
    dev_step p c (c\<lparr>dkern := (dkern c)\<lparr>kmem := h\<rparr>, dpcs := (dpcs c)(p := Exit (Write bs) r [])\<rparr>)"
| free_fault: "dpcs c p = ExitFree bs r kbuf \<Longrightarrow> kfree (kmem (dkern c)) kbuf = None \<Longrightarrow>
    dev_step p c (c\<lparr>dpcs := (dpcs c)(p := Fault (Write bs))\<rparr>)"
| unlock: "dpcs c p = Exit cl r out \<Longrightarrow>
    dev_step p c (c\<lparr>dkern := set_lock False (dkern c), dpcs := (dpcs c)(p := Outside), dlog := dlog c @ [(p, cl, r, out)]\<rparr>)"

inductive_cases dev_stepE: "dev_step p c c'"

definition dev_start :: "kernel \<Rightarrow> (nat \<Rightarrow> struct_file) \<Rightarrow> dconf" where
  "dev_start k F = \<lparr>dkern = k, dpcs = (\<lambda>_. Outside), dfiles = F, dlog = []\<rparr>"

inductive dev_reachable :: "kernel \<Rightarrow> (nat \<Rightarrow> struct_file) \<Rightarrow> dconf \<Rightarrow> bool" for k F where
  start: "dev_reachable k F (dev_start k F)"
| step: "dev_reachable k F c \<Longrightarrow> dev_step p c c' \<Longrightarrow> dev_reachable k F c'"

section \<open>Serial executions\<close>

text \<open>One call of the sequential driver, with lawful answers of the kernel.\<close>

definition call_run :: "nat \<Rightarrow> call \<Rightarrow> kernel \<Rightarrow> (nat \<Rightarrow> struct_file) \<Rightarrow> (int \<times> bytes \<times> kernel \<times> (nat \<Rightarrow> struct_file)) option \<Rightarrow> bool" where
  "call_run p cl k F res \<longleftrightarrow>
     (case cl of
        Read n \<Rightarrow> \<exists>env. res = map_option (\<lambda>(r, f, out, k'). (r, out, k', F(p := f))) (aesd_read env (F p) n k)
      | Write bs \<Rightarrow> \<exists>env. write_lawful env bs (count_of bs) k \<and>
          res = map_option (\<lambda>(r, k'). (r, [], k', F)) (aesd_write env (F p) bs (count_of bs) k))"

inductive serial :: "kernel \<Rightarrow> (nat \<Rightarrow> struct_file) \<Rightarrow> (nat \<times> call \<times> int \<times> bytes) list \<Rightarrow> kernel \<Rightarrow> (nat \<Rightarrow> struct_file) \<Rightarrow> bool"
  for k F where
  none: "serial k F [] k F"
| snoc: "serial k F l k1 F1 \<Longrightarrow> call_run p cl k1 F1 (Some (r, out, k2, F2)) \<Longrightarrow> serial k F (l @ [(p, cl, r, out)]) k2 F2"

section \<open>The rest of a call\<close>

text \<open>What \<open>aesd_write\<close> still does after each of its steps.\<close>

definition answers :: "alloc \<Rightarrow> nat \<Rightarrow> alloc \<Rightarrow> write_env" where
  "answers rc u rc' = \<lparr>w_lock_rc = 0, w_kmalloc = rc, w_uncopied = u, w_krealloc = rc'\<rparr>"

definition finish_grow :: "size_t \<Rightarrow> ptr \<Rightarrow> kernel \<Rightarrow> (int \<times> kernel) option" where
  "finish_grow count kbuf k =
     Option.bind (aesd_circular_buffer_add_entry (dev_buffer (aesd_device k)) (dev_entry (aesd_device k)))
       (\<lambda>b. exit_free (sint count) kbuf (set_entry \<lparr>buffptr = NULL, esize = 0\<rparr> (set_buffer b k)))"

definition finish_scan :: "alloc \<Rightarrow> size_t \<Rightarrow> ptr \<Rightarrow> int \<Rightarrow> kernel \<Rightarrow> (int \<times> kernel) option" where
  "finish_scan rc count kbuf pos k =
     Option.bind (grow_entry rc kbuf (copy_size pos count) k) (\<lambda>(ok, k').
       if \<not> ok then exit_free (- ENOMEM) kbuf k'
       else if pos = - 1 then exit_free (sint count) kbuf k'
       else finish_grow count kbuf k')"

definition finish_copy :: "alloc \<Rightarrow> size_t \<Rightarrow> ptr \<Rightarrow> kernel \<Rightarrow> (int \<times> kernel) option" where
  "finish_copy rc count kbuf k =
     Option.bind (kload (kmem k) kbuf 0 (unat count)) (\<lambda>contents.
       Option.bind (newline_scan contents count 0) (\<lambda>pos. finish_scan rc count kbuf pos k))"

definition finish_alloc :: "nat \<Rightarrow> alloc \<Rightarrow> bytes \<Rightarrow> size_t \<Rightarrow> ptr \<Rightarrow> kernel \<Rightarrow> (int \<times> kernel) option" where
  "finish_alloc u rc bs count kbuf k =
     Option.bind (copy_from_user (kmem k) kbuf bs count u) (\<lambda>(rest, h).
       if rest \<noteq> 0 then exit_free (- EFAULT) kbuf (k\<lparr>kmem := h\<rparr>)
       else finish_copy rc count kbuf (k\<lparr>kmem := h\<rparr>))"

lemma aesd_write_finish:
  assumes "private_data filp = AesdDevice" and "kmalloc (kmem k) count rc = (kbuf, h)"
  shows "aesd_write (answers rc u rc') filp bs count k =
    (if kbuf = NULL then Some (- ENOMEM, set_lock False ((set_lock True k)\<lparr>kmem := h\<rparr>))
     else finish_alloc u rc' bs count kbuf ((set_lock True k)\<lparr>kmem := h\<rparr>))"
  using assms
  by (auto simp: aesd_write_def answers_def finish_alloc_def finish_copy_def finish_scan_def finish_grow_def
      copy_size_def Let_def intro!: Option.bind_cong split: prod.splits)

text \<open>How far the holder of the lock has got in the serial call that starts in \<open>k0\<close>.\<close>

fun stage :: "nat \<Rightarrow> kernel \<Rightarrow> (nat \<Rightarrow> struct_file) \<Rightarrow> dpc \<Rightarrow> kernel \<Rightarrow> (nat \<Rightarrow> struct_file) \<Rightarrow> bool" where
  "stage p k0 F0 (ReadFind n) k F \<longleftrightarrow> k = set_lock True k0 \<and> F = F0"
| "stage p k0 F0 (ReadCopy n i off) k F \<longleftrightarrow> k = set_lock True k0 \<and> F = F0 \<and> dev_find (F0 p) k0 = Some (i, off)"
| "stage p k0 F0 (WriteAlloc bs) k F \<longleftrightarrow> k = set_lock True k0 \<and> F = F0 \<and> length bs < 2 ^ 64"
| "stage p k0 F0 (WriteCopy bs kbuf) k F \<longleftrightarrow> F = F0 \<and> length bs < 2 ^ 64 \<and> kbuf \<noteq> NULL \<and>
     (\<exists>rc h. alloc_ok (kmem k0) NULL (count_of bs) rc \<and> kmalloc (kmem k0) (count_of bs) rc = (kbuf, h) \<and>
        k = (set_lock True k0)\<lparr>kmem := h\<rparr>)"
| "stage p k0 F0 (WriteScan bs kbuf) k F \<longleftrightarrow> F = F0 \<and>
     unat (count_of bs) = length bs \<and> length bs < block_limit \<and> kload (kmem k) kbuf 0 (length bs) = Some bs \<and>
     (\<exists>rc. \<forall>rc'. aesd_write (answers rc 0 rc') (F0 p) bs (count_of bs) k0 = finish_copy rc' (count_of bs) kbuf k \<and>
        (alloc_ok (kmem k) (buffptr (dev_entry (aesd_device k))) (write_request bs k) rc' \<longrightarrow>
           write_lawful (answers rc 0 rc') bs (count_of bs) k0))"
| "stage p k0 F0 (WriteGrow bs kbuf pos) k F \<longleftrightarrow> F = F0 \<and>
     (\<exists>rc. \<forall>rc'. aesd_write (answers rc 0 rc') (F0 p) bs (count_of bs) k0 = finish_scan rc' (count_of bs) kbuf pos k \<and>
        (alloc_ok (kmem k) (buffptr (dev_entry (aesd_device k)))
           (esize (dev_entry (aesd_device k)) + copy_size pos (count_of bs)) rc' \<longrightarrow>
           write_lawful (answers rc 0 rc') bs (count_of bs) k0))"
| "stage p k0 F0 (WriteAdd bs kbuf) k F \<longleftrightarrow> F = F0 \<and>
     (\<exists>env. write_lawful env bs (count_of bs) k0 \<and>
        aesd_write env (F0 p) bs (count_of bs) k0 = finish_grow (count_of bs) kbuf k)"
| "stage p k0 F0 (ExitFree bs r kbuf) k F \<longleftrightarrow> F = F0 \<and>
     (\<exists>env. write_lawful env bs (count_of bs) k0 \<and> aesd_write env (F0 p) bs (count_of bs) k0 = exit_free r kbuf k)"
| "stage p k0 F0 (Exit cl r out) k F \<longleftrightarrow> call_run p cl k0 F0 (Some (r, out, set_lock False k, F))"
| "stage p k0 F0 (Fault cl) k F \<longleftrightarrow> call_run p cl k0 F0 None"
| "stage p k0 F0 _ k F \<longleftrightarrow> False"

fun inside :: "dpc \<Rightarrow> bool" where
  "inside Outside = False"
| "inside (Waiting _) = False"
| "inside _ = True"

section \<open>Every step continues the serial call\<close>

lemma locked_at_simps [simp]: "locked_at (Read n) = ReadFind n" "locked_at (Write bs) = WriteAlloc bs"
  by (simp_all add: locked_at_def)

lemma dev_find_lock [simp]: "dev_find f (set_lock b k) = dev_find f k"
  by (simp add: dev_find_def)

lemma read_copy_run:
  assumes dev: "private_data (F0 p) = AesdDevice" and find: "dev_find (F0 p) k0 = Some (i, off)"
  shows "aesd_read \<lparr>r_lock_rc = 0, r_uncopied = u\<rparr> (F0 p) n k0 =
    (case read_copy u n i off (set_lock True k0) of
       None \<Rightarrow> None
     | Some (rest, out) \<Rightarrow>
         if rest \<noteq> 0 then Some (- EFAULT, F0 p, out, set_lock False (set_lock True k0))
         else Some (sint (read_size n i off (set_lock True k0)),
           (F0 p)\<lparr>f_pos := f_pos (F0 p) + read_size n i off (set_lock True k0)\<rparr>, out, set_lock False (set_lock True k0)))"
  using assms by (auto simp: aesd_read_def read_copy_def read_size_def dev_find_def Let_def split: option.splits)

lemma read_none_run:
  assumes dev: "private_data (F0 p) = AesdDevice" and find: "dev_find (F0 p) k0 = None"
  shows "aesd_read \<lparr>r_lock_rc = 0, r_uncopied = 0\<rparr> (F0 p) n k0 = Some (0, F0 p, [], set_lock False (set_lock True k0))"
  using assms by (simp add: aesd_read_def dev_find_def Let_def)

lemma call_run_read:
  "aesd_read env (F p) n k = Some (r, f, out, k') \<Longrightarrow> call_run p (Read n) k F (Some (r, out, k', F(p := f)))"
  "aesd_read env (F p) n k = None \<Longrightarrow> call_run p (Read n) k F None"
  by (auto simp: call_run_def intro!: exI [of _ env])

lemma call_run_write:
  "write_lawful env bs (count_of bs) k \<Longrightarrow> aesd_write env (F p) bs (count_of bs) k = Some (r, k') \<Longrightarrow>
     call_run p (Write bs) k F (Some (r, [], k', F))"
  "write_lawful env bs (count_of bs) k \<Longrightarrow> aesd_write env (F p) bs (count_of bs) k = None \<Longrightarrow> call_run p (Write bs) k F None"
  by (auto simp: call_run_def intro!: exI [of _ env])

lemma set_lock_twice [simp]: "set_lock b (set_lock b' k) = set_lock b k"
  by simp

lemma stage_find_none:
  assumes "stage p k0 F0 (ReadFind n) k F" "dev_find (F p) k = None" "private_data (F0 p) = AesdDevice"
  shows "stage p k0 F0 (Exit (Read n) 0 []) k F"
  using assms call_run_read(1) [of "\<lparr>r_lock_rc = 0, r_uncopied = 0\<rparr>" F0 p n k0] read_none_run [of F0 p k0 n] by simp

lemma stage_copy_out:
  assumes st: "stage p k0 F0 (ReadCopy n i off) k F" and dev: "private_data (F0 p) = AesdDevice"
  shows "read_copy 0 n i off k = Some (0, out) \<Longrightarrow> stage p k0 F0 (Exit (Read n) (sint (read_size n i off k)) out) k
      (F(p := (F p)\<lparr>f_pos := f_pos (F p) + read_size n i off k\<rparr>))"
    and "0 < rest \<Longrightarrow> read_copy rest n i off k = Some (rest, out) \<Longrightarrow> stage p k0 F0 (Exit (Read n) (- EFAULT) out) k F"
    and "read_copy rest n i off k = None \<Longrightarrow> stage p k0 F0 (Fault (Read n)) k F"
proof -
  from st have k: "k = set_lock True k0" "F = F0" and find: "dev_find (F0 p) k0 = Some (i, off)" by simp_all
  note run = read_copy_run [of F0 p k0 i off _ n, OF dev find, folded k(1)]
  note found = call_run_read(1) [of "\<lparr>r_lock_rc = 0, r_uncopied = u\<rparr>" F0 p n k0 for u]
  show "stage p k0 F0 (Exit (Read n) (sint (read_size n i off k)) out) k
      (F(p := (F p)\<lparr>f_pos := f_pos (F p) + read_size n i off k\<rparr>))" if "read_copy 0 n i off k = Some (0, out)"
    using found [of 0] run [of 0] that by (simp add: k(2))
  show "stage p k0 F0 (Exit (Read n) (- EFAULT) out) k F" if "0 < rest" "read_copy rest n i off k = Some (rest, out)"
    using found [of rest] run [of rest] that by (simp add: k(2))
  show "stage p k0 F0 (Fault (Read n)) k F" if "read_copy rest n i off k = None"
    using call_run_read(2) [of "\<lparr>r_lock_rc = 0, r_uncopied = rest\<rparr>" F0 p n k0] run [of rest] that by simp
qed

lemma stage_alloc:
  assumes "stage p k0 F0 (WriteAlloc bs) k F" "alloc_ok (kmem k) NULL (count_of bs) rc"
    "kmalloc (kmem k) (count_of bs) rc = (kbuf, h)" "kbuf \<noteq> NULL"
  shows "stage p k0 F0 (WriteCopy bs kbuf) (k\<lparr>kmem := h\<rparr>) F"
  using assms by auto

text \<open>A failing call needs no answer to the allocations it does not reach.\<close>

lemma write_lawful_cut:
  "length bs < 2 ^ 64 \<Longrightarrow> u \<le> length bs \<Longrightarrow> alloc_ok (kmem k) NULL (count_of bs) rc \<Longrightarrow>
     write_lawful (answers rc u None) bs (count_of bs) k"
  by (simp add: write_lawful_def answers_def alloc_ok_def unat_of_nat_size_t)

lemma stage_alloc_fails:
  assumes "stage p k0 F0 (WriteAlloc bs) k F" "kmalloc (kmem k) (count_of bs) None = (NULL, h)"
    "private_data (F0 p) = AesdDevice"
  shows "stage p k0 F0 (Exit (Write bs) (- ENOMEM) []) (k\<lparr>kmem := h\<rparr>) F"
proof -
  have "write_lawful (answers None 0 None) bs (count_of bs) k0"
    using assms(1) write_lawful_cut [of bs 0 k0 None] by (simp add: alloc_ok_def)
  moreover have "aesd_write (answers None 0 None) (F0 p) bs (count_of bs) k0 = Some (- ENOMEM, set_lock False (k\<lparr>kmem := h\<rparr>))"
    using assms aesd_write_finish [of "F0 p" k0 "count_of bs" None NULL h 0 None bs] by simp
  ultimately show ?thesis using assms(1) call_run_write(1) by simp
qed

lemma write_copy_alloc:
  assumes "stage p k0 F0 (WriteCopy bs kbuf) k F"
  obtains rc h where "alloc_ok (kmem k0) NULL (count_of bs) rc" "kmalloc (kmem k0) (count_of bs) rc = (kbuf, h)"
    "k = (set_lock True k0)\<lparr>kmem := h\<rparr>" "rc \<noteq> None \<or> count_of bs = 0" "unat (count_of bs) = length bs"
    "length bs < block_limit"
proof -
  from assms obtain rc h where rc: "alloc_ok (kmem k0) NULL (count_of bs) rc"
    "kmalloc (kmem k0) (count_of bs) rc = (kbuf, h)" "k = (set_lock True k0)\<lparr>kmem := h\<rparr>" "kbuf \<noteq> NULL"
    and len: "unat (count_of bs) = length bs" by (auto simp: unat_of_nat_size_t)
  then have some: "rc \<noteq> None \<or> count_of bs = 0" by (auto simp: kmalloc_def split: if_splits option.splits)
  moreover have "length bs < block_limit"
    using some rc(1) len by (auto simp: alloc_ok_def block_limit_def)
  ultimately show thesis using rc len that by blast
qed

lemma stage_copy_in:
  assumes st: "stage p k0 F0 (WriteCopy bs kbuf) k F" and dev: "private_data (F0 p) = AesdDevice"
    and copy: "copy_from_user (kmem k) kbuf bs (count_of bs) 0 = Some (0, h)"
  shows "stage p k0 F0 (WriteScan bs kbuf) (k\<lparr>kmem := h\<rparr>) F"
proof -
  from st obtain rc h1 where rc: "alloc_ok (kmem k0) NULL (count_of bs) rc" "kmalloc (kmem k0) (count_of bs) rc = (kbuf, h1)"
    "k = (set_lock True k0)\<lparr>kmem := h1\<rparr>" "rc \<noteq> None \<or> count_of bs = 0"
    and len: "unat (count_of bs) = length bs" "length bs < block_limit"
    by (rule write_copy_alloc)
  from kbuf_phase [OF rc(1,4), of bs 0] len rc(2,3) copy
  have load: "kload h kbuf 0 (length bs) = Some bs" and dom: "\<And>a. h a = None \<longleftrightarrow> h1 a = None" by auto
  have run: "aesd_write (answers rc 0 rc') (F0 p) bs (count_of bs) k0 = finish_copy rc' (count_of bs) kbuf (k\<lparr>kmem := h\<rparr>)" for rc'
    using aesd_write_finish [OF dev rc(2)] st copy rc(3) by (simp add: finish_alloc_def)
  have "write_lawful (answers rc 0 rc') bs (count_of bs) k0"
    if "alloc_ok h (buffptr (dev_entry (aesd_device k0))) (write_request bs k0) rc'" for rc'
    using that rc(1,2) len alloc_ok_same_dom [OF dom] by (simp add: write_lawful_def answers_def)
  then show ?thesis using st load run len rc(3) by (auto simp: write_request_def)
qed

lemma stage_copy_in_fails:
  assumes st: "stage p k0 F0 (WriteCopy bs kbuf) k F" and dev: "private_data (F0 p) = AesdDevice" and rest: "rest \<le> length bs"
  shows "0 < rest \<Longrightarrow> copy_from_user (kmem k) kbuf bs (count_of bs) rest = Some (rest, h) \<Longrightarrow>
      stage p k0 F0 (ExitFree bs (- EFAULT) kbuf) (k\<lparr>kmem := h\<rparr>) F"
    and "copy_from_user (kmem k) kbuf bs (count_of bs) rest = None \<Longrightarrow> stage p k0 F0 (Fault (Write bs)) k F"
proof -
  from st obtain rc h1 where rc: "alloc_ok (kmem k0) NULL (count_of bs) rc" "kmalloc (kmem k0) (count_of bs) rc = (kbuf, h1)"
    "k = (set_lock True k0)\<lparr>kmem := h1\<rparr>"
    by (rule write_copy_alloc)
  have law: "write_lawful (answers rc rest None) bs (count_of bs) k0"
    using st by (intro write_lawful_cut rest rc(1)) simp
  have run: "aesd_write (answers rc rest None) (F0 p) bs (count_of bs) k0 = finish_alloc rest None bs (count_of bs) kbuf k"
    using aesd_write_finish [OF dev rc(2)] st rc(3) by simp
  show "stage p k0 F0 (ExitFree bs (- EFAULT) kbuf) (k\<lparr>kmem := h\<rparr>) F"
    if "0 < rest" "copy_from_user (kmem k) kbuf bs (count_of bs) rest = Some (rest, h)"
    using st law run that by (auto simp: finish_alloc_def)
  show "stage p k0 F0 (Fault (Write bs)) k F" if "copy_from_user (kmem k) kbuf bs (count_of bs) rest = None"
    using call_run_write(2) [OF law] run that by (simp add: finish_alloc_def)
qed

lemma copy_size_upto:
  assumes "unat (count_of bs) = length bs" "length bs < block_limit" "newline_scan bs (count_of bs) 0 = Some pos"
  shows "copy_size pos (count_of bs) = word_of_nat (length (upto_newline bs))"
  using assms newline_scan_found [of bs "count_of bs"] upto_newline_word(3,4) [of bs "count_of bs"]
  by (auto simp: copy_size_def split: if_splits)

lemma stage_scan:
  assumes st: "stage p k0 F0 (WriteScan bs kbuf) k F"
  shows "kload (kmem k) kbuf 0 (unat (count_of bs)) = Some contents \<Longrightarrow>
      newline_scan contents (count_of bs) 0 = Some pos \<Longrightarrow> stage p k0 F0 (WriteGrow bs kbuf pos) k F"
    and "(case kload (kmem k) kbuf 0 (unat (count_of bs)) of
       None \<Rightarrow> True | Some contents \<Rightarrow> newline_scan contents (count_of bs) 0 = None) \<Longrightarrow> stage p k0 F0 (Fault (Write bs)) k F"
proof -
  from st obtain rc where load: "kload (kmem k) kbuf 0 (unat (count_of bs)) = Some bs"
    and len: "unat (count_of bs) = length bs" "length bs < block_limit"
    and run: "\<And>rc'. aesd_write (answers rc 0 rc') (F0 p) bs (count_of bs) k0 = finish_copy rc' (count_of bs) kbuf k"
    and law: "\<And>rc'. alloc_ok (kmem k) (buffptr (dev_entry (aesd_device k))) (write_request bs k) rc' \<Longrightarrow>
      write_lawful (answers rc 0 rc') bs (count_of bs) k0" by auto
  show "stage p k0 F0 (WriteGrow bs kbuf pos) k F" if "kload (kmem k) kbuf 0 (unat (count_of bs)) = Some contents"
    "newline_scan contents (count_of bs) 0 = Some pos"
    using st that load run law copy_size_upto [OF len, of pos]
    by (auto simp: finish_copy_def write_request_def intro!: exI [of _ rc])
  show "stage p k0 F0 (Fault (Write bs)) k F" if "case kload (kmem k) kbuf 0 (unat (count_of bs)) of
       None \<Rightarrow> True | Some contents \<Rightarrow> newline_scan contents (count_of bs) 0 = None"
    using call_run_write(2) [OF law [of None]] run [of None] that load by (simp add: finish_copy_def alloc_ok_def)
qed

lemma stage_grow:
  assumes st: "stage p k0 F0 (WriteGrow bs kbuf pos) k F" and
    al: "alloc_ok (kmem k) (buffptr (dev_entry (aesd_device k))) (esize (dev_entry (aesd_device k)) + copy_size pos (count_of bs)) rc'"
  shows "grow_entry rc' kbuf (copy_size pos (count_of bs)) k = Some (True, k') \<Longrightarrow> pos = - 1 \<Longrightarrow>
      stage p k0 F0 (ExitFree bs (sint (count_of bs)) kbuf) k' F"
    and "grow_entry rc' kbuf (copy_size pos (count_of bs)) k = Some (True, k') \<Longrightarrow> pos \<noteq> - 1 \<Longrightarrow> stage p k0 F0 (WriteAdd bs kbuf) k' F"
    and "grow_entry rc' kbuf (copy_size pos (count_of bs)) k = Some (False, k') \<Longrightarrow> stage p k0 F0 (ExitFree bs (- ENOMEM) kbuf) k' F"
    and "grow_entry rc' kbuf (copy_size pos (count_of bs)) k = None \<Longrightarrow> stage p k0 F0 (Fault (Write bs)) k F"
proof -
  from st al obtain rc where run: "aesd_write (answers rc 0 rc') (F0 p) bs (count_of bs) k0 = finish_scan rc' (count_of bs) kbuf pos k"
    and law: "write_lawful (answers rc 0 rc') bs (count_of bs) k0" by auto
  show "stage p k0 F0 (ExitFree bs (sint (count_of bs)) kbuf) k' F"
    if "grow_entry rc' kbuf (copy_size pos (count_of bs)) k = Some (True, k')" "pos = - 1"
    using st law run that by (auto simp: finish_scan_def)
  show "stage p k0 F0 (WriteAdd bs kbuf) k' F"
    if "grow_entry rc' kbuf (copy_size pos (count_of bs)) k = Some (True, k')" "pos \<noteq> - 1"
    using st law run that by (auto simp: finish_scan_def)
  show "stage p k0 F0 (ExitFree bs (- ENOMEM) kbuf) k' F"
    if "grow_entry rc' kbuf (copy_size pos (count_of bs)) k = Some (False, k')"
    using st law run that by (auto simp: finish_scan_def)
  show "stage p k0 F0 (Fault (Write bs)) k F" if "grow_entry rc' kbuf (copy_size pos (count_of bs)) k = None"
    using call_run_write(2) [OF law] run that by (simp add: finish_scan_def)
qed

lemma stage_add:
  assumes "stage p k0 F0 (WriteAdd bs kbuf) k F"
  shows "aesd_circular_buffer_add_entry (dev_buffer (aesd_device k)) (dev_entry (aesd_device k)) = Some b \<Longrightarrow>
      stage p k0 F0 (ExitFree bs (sint (count_of bs)) kbuf) (set_entry \<lparr>buffptr = NULL, esize = 0\<rparr> (set_buffer b k)) F"
    and "aesd_circular_buffer_add_entry (dev_buffer (aesd_device k)) (dev_entry (aesd_device k)) = None \<Longrightarrow>
      stage p k0 F0 (Fault (Write bs)) k F"
  using assms call_run_write(2) by (auto simp: finish_grow_def)

lemma stage_free:
  assumes "stage p k0 F0 (ExitFree bs r kbuf) k F"
  shows "kfree (kmem k) kbuf = Some h \<Longrightarrow> stage p k0 F0 (Exit (Write bs) r []) (k\<lparr>kmem := h\<rparr>) F"
    and "kfree (kmem k) kbuf = None \<Longrightarrow> stage p k0 F0 (Fault (Write bs)) k F"
  using assms call_run_write by (auto simp: exit_free_def)

lemma grow_entry_lock: "grow_entry rc kbuf n k = Some (ok, k') \<Longrightarrow> dev_lock (aesd_device k') = dev_lock (aesd_device k)"
  by (auto simp: grow_entry_def Let_def split: option.splits if_splits bind_splits)

text \<open>The holder either goes on with its serial call or returns from it and releases the lock.\<close>

definition continues :: "nat \<Rightarrow> kernel \<Rightarrow> (nat \<Rightarrow> struct_file) \<Rightarrow> dconf \<Rightarrow> dconf \<Rightarrow> bool" where
  "continues p k0 F0 c c' \<longleftrightarrow>
     (\<forall>q. q \<noteq> p \<longrightarrow> dpcs c' q = dpcs c q) \<and>
     (if inside (dpcs c' p)
      then dlog c' = dlog c \<and> dev_lock (aesd_device (dkern c')) \<and> stage p k0 F0 (dpcs c' p) (dkern c') (dfiles c')
      else \<exists>cl r out. dpcs c' p = Outside \<and> dlog c' = dlog c @ [(p, cl, r, out)] \<and>
        \<not> dev_lock (aesd_device (dkern c')) \<and> call_run p cl k0 F0 (Some (r, out, dkern c', dfiles c')))"

lemma continues_inside:
  "inside pc \<Longrightarrow> stage p k0 F0 pc (dkern c') (dfiles c') \<Longrightarrow> dev_lock (aesd_device (dkern c')) \<Longrightarrow> dlog c' = dlog c \<Longrightarrow>
     dpcs c' = (dpcs c)(p := pc) \<Longrightarrow> continues p k0 F0 c c'"
  by (simp add: continues_def)

lemma continues_waiting: "continues p k0 F0 c c' \<Longrightarrow> dpcs c' q = Waiting cl \<Longrightarrow> dpcs c q = Waiting cl"
  by (cases "q = p") (auto simp: continues_def split: if_splits)

lemma stage_find_some:
  "stage p k0 F0 (ReadFind n) k F \<Longrightarrow> dev_find (F p) k = Some (i, off) \<Longrightarrow> stage p k0 F0 (ReadCopy n i off) k F"
  by simp

lemmas stage_next = stage_find_none stage_find_some stage_copy_out stage_alloc stage_alloc_fails stage_copy_in
  stage_copy_in_fails stage_scan stage_grow stage_add stage_free

lemma stage_step:
  assumes "dev_step p c c'" and "inside (dpcs c p)" and "stage p k0 F0 (dpcs c p) (dkern c) (dfiles c)"
    and "dev_lock (aesd_device (dkern c))" and "private_data (F0 p) = AesdDevice"
  shows "continues p k0 F0 c c'"
  using assms(1)
proof cases
  case (unlock cl r out)
  then show ?thesis using assms(3) by (auto simp: continues_def)
next
  case (copy_out n i off out)
  show ?thesis
    by (rule continues_inside [where pc = "Exit (Read n) (sint (read_size n i off (dkern c))) out"])
      (use copy_out assms(3-) stage_copy_out(1) in \<open>simp_all del: stage.simps\<close>)
next
  case (add bs kbuf b)
  then show ?thesis using assms(3,4) stage_add(1) [of p k0 F0 bs kbuf "dkern c" "dfiles c" b] by (simp add: continues_def del: stage.simps)
qed (use assms(2-) in \<open>auto simp: continues_def grow_entry_lock simp del: stage.simps intro: stage_next\<close>)

section \<open>Reachable configurations\<close>

definition dev_files :: "(nat \<Rightarrow> struct_file) \<Rightarrow> bool" where
  "dev_files F \<longleftrightarrow> (\<forall>p. private_data (F p) = AesdDevice)"

text \<open>
  The calls that have returned are a serial execution, and the device is where that execution left it
  or in the middle of one more call, whose process holds the lock.
\<close>

definition idle_at :: "dconf \<Rightarrow> kernel \<Rightarrow> (nat \<Rightarrow> struct_file) \<Rightarrow> bool" where
  "idle_at c k0 F0 \<longleftrightarrow> (\<forall>q. \<not> inside (dpcs c q)) \<and> dkern c = k0 \<and> dfiles c = F0"

definition held_by :: "nat \<Rightarrow> dconf \<Rightarrow> kernel \<Rightarrow> (nat \<Rightarrow> struct_file) \<Rightarrow> bool" where
  "held_by p c k0 F0 \<longleftrightarrow> inside (dpcs c p) \<and> (\<forall>q. inside (dpcs c q) \<longrightarrow> q = p) \<and>
     dev_lock (aesd_device (dkern c)) \<and> stage p k0 F0 (dpcs c p) (dkern c) (dfiles c)"

definition serial_at :: "kernel \<Rightarrow> (nat \<Rightarrow> struct_file) \<Rightarrow> dconf \<Rightarrow> kernel \<Rightarrow> (nat \<Rightarrow> struct_file) \<Rightarrow> bool" where
  "serial_at k F c k0 F0 \<longleftrightarrow> serial k F (dlog c) k0 F0 \<and> dev_files F0 \<and> \<not> dev_lock (aesd_device k0) \<and>
     (\<forall>q bs. dpcs c q = Waiting (Write bs) \<longrightarrow> length bs < 2 ^ 64)"

lemma aesd_read_file: "aesd_read env f n k = Some (r, f', out, k') \<Longrightarrow> private_data f' = private_data f"
  by (auto simp: aesd_read_def Let_def split: option.splits if_splits)

lemma call_run_files: "dev_files F \<Longrightarrow> call_run p cl k F (Some (r, out, k', F')) \<Longrightarrow> dev_files F'"
  by (cases cl) (auto simp: call_run_def dev_files_def dest: aesd_read_file dest!: sym [of "Some _"])

lemma call_run_interrupted:
  assumes "dev_files F" and "\<forall>bs. cl = Write bs \<longrightarrow> length bs < 2 ^ 64"
  shows "call_run p cl k F (Some (- ERESTARTSYS, [], k, F))"
proof (cases cl)
  case (Read n)
  then show ?thesis using assms(1)
    by (auto simp: call_run_def aesd_read_def dev_files_def intro!: exI [of _ "\<lparr>r_lock_rc = 1, r_uncopied = 0\<rparr>"])
next
  case (Write bs)
  then show ?thesis using assms
    by (auto simp: call_run_def aesd_write_def dev_files_def write_lawful_def alloc_ok_def unat_of_nat_size_t
        intro!: exI [of _ "\<lparr>w_lock_rc = 1, w_kmalloc = None, w_uncopied = 0, w_krealloc = None\<rparr>"])
qed

lemma held_step:
  assumes at: "serial_at k F c k0 F0" and held: "held_by p c k0 F0" and step: "dev_step p c c'"
  shows "\<exists>k1 F1. serial_at k F c' k1 F1 \<and> (idle_at c' k1 F1 \<or> held_by p c' k1 F1)"
proof -
  have cont: "continues p k0 F0 c c'"
    using at held by (intro stage_step step) (simp_all add: held_by_def serial_at_def dev_files_def)
  then have others: "\<And>q. q \<noteq> p \<Longrightarrow> dpcs c' q = dpcs c q" by (simp add: continues_def)
  have wait: "\<forall>q bs. dpcs c' q = Waiting (Write bs) \<longrightarrow> length bs < 2 ^ 64"
    using at continues_waiting [OF cont] unfolding serial_at_def by blast
  show ?thesis
  proof (cases "inside (dpcs c' p)")
    case True
    moreover have "dev_lock (aesd_device (dkern c')) \<and> stage p k0 F0 (dpcs c' p) (dkern c') (dfiles c')"
      using cont True by (simp add: continues_def)
    moreover have "\<forall>q. inside (dpcs c' q) \<longrightarrow> q = p" using held others unfolding held_by_def by metis
    ultimately have "held_by p c' k0 F0" unfolding held_by_def by blast
    moreover have "serial_at k F c' k0 F0" using at cont True wait by (simp add: serial_at_def continues_def)
    ultimately show ?thesis by blast
  next
    case False
    with cont obtain cl r out where out: "dlog c' = dlog c @ [(p, cl, r, out)]" "\<not> dev_lock (aesd_device (dkern c'))"
      "call_run p cl k0 F0 (Some (r, out, dkern c', dfiles c'))" by (auto simp: continues_def)
    then have "serial_at k F c' (dkern c') (dfiles c')"
      using at wait serial.snoc call_run_files by (auto simp: serial_at_def)
    moreover have "idle_at c' (dkern c') (dfiles c')"
      using False held others unfolding idle_at_def held_by_def by metis
    ultimately show ?thesis by blast
  qed
qed

lemma outside_same:
  assumes "dpcs c' = (dpcs c)(p := pc)" "\<not> inside pc" "\<not> inside (dpcs c p)" "dkern c' = dkern c" "dfiles c' = dfiles c"
  shows "idle_at c' k0 F0 = idle_at c k0 F0" and "held_by q c' k0 F0 = held_by q c k0 F0"
proof -
  have ins: "inside (dpcs c' r) = inside (dpcs c r)" for r using assms(1-3) by simp
  have "dpcs c' q = dpcs c q" if "inside (dpcs c q)" using assms(1,3) that by auto
  then show "idle_at c' k0 F0 = idle_at c k0 F0" "held_by q c' k0 F0 = held_by q c k0 F0"
    using assms(4,5) unfolding idle_at_def held_by_def ins by (metis, metis)
qed

lemma outside_step:
  assumes at: "serial_at k F c k0 F0" and st: "idle_at c k0 F0 \<or> held_by q c k0 F0" and step: "dev_step p c c'"
    and out: "\<not> inside (dpcs c p)"
  shows "serial_at k F c' k0 F0 \<and> (idle_at c' k0 F0 \<or> held_by q c' k0 F0 \<or> held_by p c' k0 F0)"
  using step
proof cases
  case (enter cl)
  moreover have "idle_at c' k0 F0 \<or> held_by q c' k0 F0"
    using st outside_same [of c' c p "Waiting cl"] enter out by simp
  moreover have "serial_at k F c' k0 F0" using enter at by (auto simp: serial_at_def)
  ultimately show ?thesis by blast
next
  case (interrupted cl)
  have "call_run p cl k0 F0 (Some (- ERESTARTSYS, [], k0, F0))"
    using at interrupted(2) by (intro call_run_interrupted) (auto simp: serial_at_def)
  then have "serial_at k F c' k0 F0" using interrupted at by (auto simp: serial_at_def intro: serial.snoc)
  moreover have "idle_at c' k0 F0 \<or> held_by q c' k0 F0"
    using st outside_same [of c' c p Outside] interrupted out by simp
  ultimately show ?thesis by blast
next
  case (lock cl)
  then have "idle_at c k0 F0" using st lock(3) unfolding held_by_def by blast
  then have "held_by p c' k0 F0" using lock at
    by (cases cl) (auto simp: idle_at_def held_by_def locked_at_def serial_at_def split: if_splits)
  moreover have "serial_at k F c' k0 F0" using lock at by (cases cl) (auto simp: serial_at_def locked_at_def)
  ultimately show ?thesis by blast
qed (use out in simp_all)

lemma reachable_serial:
  assumes "dev_reachable k F c" and "dev_files F" and "\<not> dev_lock (aesd_device k)"
  shows "\<exists>k0 F0. serial_at k F c k0 F0 \<and> (idle_at c k0 F0 \<or> (\<exists>p. held_by p c k0 F0))"
  using assms(1)
proof induction
  case start
  show ?case using assms(2,3) by (intro exI) (auto simp: serial_at_def idle_at_def dev_start_def intro: serial.none)
next
  case (step c p c')
  then obtain k0 F0 where at: "serial_at k F c k0 F0" and st: "idle_at c k0 F0 \<or> (\<exists>q. held_by q c k0 F0)" by blast
  show ?case
  proof (cases "inside (dpcs c p)")
    case True
    with st have "held_by p c k0 F0" by (auto simp: idle_at_def held_by_def)
    from held_step [OF at this step.hyps(2)] show ?thesis by blast
  next
    case False
    with outside_step [OF at _ step.hyps(2)] st show ?thesis by blast
  qed
qed

section \<open>The abstract device\<close>

text \<open>
  What a returned call means for the abstract device: the view (stored lines and pending bytes) and
  the position of every process. \<open>None\<close> is a result the device may not give.
\<close>

type_synonym spec_state = "(bytes list \<times> bytes) \<times> (nat \<Rightarrow> nat)"

definition spec_call :: "spec_state \<Rightarrow> nat \<times> call \<times> int \<times> bytes \<Rightarrow> spec_state option" where
  "spec_call = (\<lambda>(v, pos) (p, cl, r, out).
     if r = - ERESTARTSYS \<or> r = - EFAULT then Some (v, pos)
     else case cl of
       Write bs \<Rightarrow> if r = int (length bs) then Some (write_spec v bs, pos) else None
     | Read count \<Rightarrow>
         let n = read_length (fst v) (pos p) (unat count) in
         if r = int n \<and> out = take n (drop (pos p) (concat (fst v))) then Some (v, pos(p := pos p + n)) else None)"

abbreviation positions :: "(nat \<Rightarrow> struct_file) \<Rightarrow> nat \<Rightarrow> nat" where
  "positions F \<equiv> \<lambda>q. unat (f_pos (F q))"

text \<open>What a call leaves behind, unless it ran out of memory.\<close>

definition call_ok :: "nat \<Rightarrow> call \<Rightarrow> kernel \<Rightarrow> (nat \<Rightarrow> struct_file) \<Rightarrow> (int \<times> bytes \<times> kernel \<times> (nat \<Rightarrow> struct_file)) option \<Rightarrow> bool" where
  "call_ok p cl k F res \<longleftrightarrow>
     (case res of
        None \<Rightarrow> False
      | Some (r, out, k', F') \<Rightarrow> r \<noteq> - ENOMEM \<longrightarrow> dev_inv k' \<and>
          spec_call (dev_view k, positions F) (p, cl, r, out) = Some (dev_view k', positions F'))"

lemma write_call_ok:
  assumes "dev_inv k" "private_data (F p) = AesdDevice" "write_lawful env bs (count_of bs) k"
  shows "call_ok p (Write bs) k F (map_option (\<lambda>(r, k'). (r, [], k', F)) (aesd_write env (F p) bs (count_of bs) k))"
proof (cases "write_succeeds env bs (count_of bs) k")
  case True
  have "int (unat (count_of bs)) = int (length bs)" using assms(3) by (simp add: write_lawful_def)
  with aesd_write_refines [OF assms True] show ?thesis by (auto simp: call_ok_def spec_call_def)
next
  case False
  with aesd_write_fails [OF assms False] assms(1) show ?thesis by (auto simp: call_ok_def spec_call_def)
qed

lemma read_call_ok:
  assumes inv: "dev_inv k" and dev: "private_data (F p) = AesdDevice"
  shows "call_ok p (Read n) k F (map_option (\<lambda>(r, f, out, k'). (r, out, k', F(p := f))) (aesd_read env (F p) n k))"
proof -
  let ?C = "concat (dev_lines k)" and ?pos = "unat (f_pos (F p))"
  let ?n = "read_length (dev_lines k) ?pos (unat n)"
  consider "r_lock_rc env \<noteq> 0" | "r_lock_rc env = 0" "r_uncopied env \<noteq> 0" "?pos < length ?C"
    | "r_lock_rc env = 0" "r_uncopied env = 0 \<or> length ?C \<le> ?pos" by linarith
  then show ?thesis
  proof cases
    case 1
    then show ?thesis using assms by (simp add: aesd_read_def call_ok_def spec_call_def)
  next
    case 2
    then show ?thesis using aesd_read_copy_fault [OF assms 2, of n] inv by (auto simp: call_ok_def spec_call_def)
  next
    case 3
    from aesd_read_granted [OF assms 3, of n] obtain out f where
      rd: "aesd_read env (F p) n k = Some (int (length out), f, out, k)" "unat (f_pos f) = ?pos + length out"
      "out = [] \<longleftrightarrow> n = 0 \<or> length ?C \<le> ?pos" "drop ?pos ?C = out @ drop (unat (f_pos f)) ?C" by blast
    have len: "length out = ?n"
    proof (cases "r_uncopied env = 0")
      case True
      from trans [OF rd(1) [symmetric] aesd_read_refines [OF assms 3(1) True, of n, unfolded Let_def]]
      show ?thesis unfolding option.inject prod.inject of_nat_eq_iff by (rule conjunct1)
    next
      case False
      with 3(2) rd(3) read_length_bounds [OF refl, of "dev_lines k" ?pos "unat n"] show ?thesis by simp
    qed
    have "out = take ?n (drop ?pos ?C)" using rd(4) len by (metis append_eq_conv_conj)
    then show ?thesis using rd(1,2) len inv by (auto simp: call_ok_def spec_call_def Let_def fun_eq_iff)
  qed
qed

lemma call_run_ok: "dev_inv k \<Longrightarrow> dev_files F \<Longrightarrow> call_run p cl k F res \<Longrightarrow> call_ok p cl k F res"
  by (cases cl) (auto simp: call_run_def dev_files_def intro: write_call_ok read_call_ok)

definition memory_lasts :: "(nat \<times> call \<times> int \<times> bytes) list \<Rightarrow> bool" where
  "memory_lasts l \<longleftrightarrow> (\<forall>(p, cl, r, out) \<in> set l. r \<noteq> - ENOMEM)"

lemma serial_spec:
  assumes "serial k F l k' F'" "dev_inv k" "dev_files F" "memory_lasts l"
  shows "dev_inv k' \<and> dev_files F' \<and> ofold spec_call (dev_view k, positions F) l = Some (dev_view k', positions F')"
  using assms(1,4)
proof induction
  case none
  then show ?case using assms(2,3) by simp
next
  case (snoc l k1 F1 p cl r out k2 F2)
  then have IH: "dev_inv k1" "dev_files F1" "ofold spec_call (dev_view k, positions F) l = Some (dev_view k1, positions F1)"
    and r: "r \<noteq> - ENOMEM" by (simp_all add: memory_lasts_def)
  then show ?case
    using call_run_ok [OF IH(1,2) snoc.hyps(2)] call_run_files [OF IH(2) snoc.hyps(2)]
    by (simp add: ofold_append call_ok_def)
qed

section \<open>The holder of the lock returns\<close>

text \<open>
  An upper bound of the steps a process inside still takes until the step that releases the lock; a
  process at a fault never gets there, so it is further away than any other.
\<close>

fun steps_left :: "dpc \<Rightarrow> nat" where
  "steps_left (WriteAlloc _) = 7"
| "steps_left (WriteCopy _ _) = 6"
| "steps_left (WriteScan _ _) = 5"
| "steps_left (WriteGrow _ _ _) = 4"
| "steps_left (WriteAdd _ _) = 3"
| "steps_left (ExitFree _ _ _) = 2"
| "steps_left (ReadFind _) = 3"
| "steps_left (ReadCopy _ _ _) = 2"
| "steps_left (Exit _ _ _) = 1"
| "steps_left (Fault _) = 8"
| "steps_left _ = 0"

lemma steps_left_bound: "\<forall>cl. pc \<noteq> Fault cl \<Longrightarrow> steps_left pc \<le> 7"
  by (cases pc) simp_all

lemma inside_step_decreases:
  assumes "dev_step p c c'" "inside (dpcs c p)" "\<forall>cl. dpcs c' p \<noteq> Fault cl"
  shows "steps_left (dpcs c' p) < steps_left (dpcs c p)"
  using assms by cases simp_all

lemma read_step_exists:
  "dpcs c p = ReadFind n \<Longrightarrow> \<exists>c'. dev_step p c c'" "dpcs c p = ReadCopy n i off \<Longrightarrow> \<exists>c'. dev_step p c c'"
proof -
  show "\<exists>c'. dev_step p c c'" if "dpcs c p = ReadFind n"
    using dev_step.find_none [OF that] dev_step.find_some [OF that] by (cases "dev_find (dfiles c p) (dkern c)") auto
  show "\<exists>c'. dev_step p c c'" if pc: "dpcs c p = ReadCopy n i off"
  proof (cases "read_copy 0 n i off (dkern c)")
    case None
    then show ?thesis using dev_step.copy_out_fault [OF pc] by blast
  next
    case (Some ro)
    then have "fst ro = 0" by (auto simp: read_copy_def copy_to_user_def)
    with Some show ?thesis using dev_step.copy_out [OF pc] by (cases ro) auto
  qed
qed

lemma write_step_exists:
  "dpcs c p = WriteAlloc bs \<Longrightarrow> \<exists>c'. dev_step p c c'" "dpcs c p = WriteCopy bs kbuf \<Longrightarrow> \<exists>c'. dev_step p c c'"
proof -
  show "\<exists>c'. dev_step p c c'" if pc: "dpcs c p = WriteAlloc bs"
  proof (cases "count_of bs = 0")
    case True
    then have "kmalloc (kmem (dkern c)) (count_of bs) None = (ZERO_SIZE_PTR, kmem (dkern c))" by (simp add: kmalloc_def)
    then show ?thesis using dev_step.alloc [OF pc, of None] by (auto simp: alloc_ok_def)
  next
    case False
    then have "kmalloc (kmem (dkern c)) (count_of bs) None = (NULL, kmem (dkern c))" by (simp add: kmalloc_def)
    then show ?thesis using dev_step.alloc_fails [OF pc] by blast
  qed
  show "\<exists>c'. dev_step p c c'" if pc: "dpcs c p = WriteCopy bs kbuf"
  proof (cases "copy_from_user (kmem (dkern c)) kbuf bs (count_of bs) 0")
    case None
    then show ?thesis using dev_step.copy_in_fault [OF pc, of 0] by auto
  next
    case (Some rh)
    then have "fst rh = 0" by (auto simp: copy_from_user_def)
    with Some show ?thesis using dev_step.copy_in [OF pc] by (cases rh) auto
  qed
qed

lemma grow_step_exists: "dpcs c p = WriteGrow bs kbuf pos \<Longrightarrow> \<exists>c'. dev_step p c c'"
proof -
  assume pc: "dpcs c p = WriteGrow bs kbuf pos"
  have "alloc_ok h q n None" for h q n by (simp add: alloc_ok_def)
  note steps = dev_step.grow [OF pc refl this] dev_step.grow_fails [OF pc refl this] dev_step.grow_fault [OF pc refl this]
  show ?thesis
  proof (cases "grow_entry None kbuf (copy_size pos (count_of bs)) (dkern c)")
    case None
    then show ?thesis using steps(3) by blast
  next
    case (Some ok_k)
    then show ?thesis using steps(1,2) by (cases ok_k; cases "fst ok_k") auto
  qed
qed

lemma inside_step_exists:
  assumes "inside (dpcs c p)" "\<forall>cl. dpcs c p \<noteq> Fault cl"
  shows "\<exists>c'. dev_step p c c'"
proof (cases "dpcs c p")
  case (WriteScan bs kbuf)
  then show ?thesis using dev_step.scan [OF WriteScan] dev_step.scan_fault [OF WriteScan]
    by (fastforce split: option.splits)
next
  case (WriteAdd bs kbuf)
  then show ?thesis using dev_step.add [OF WriteAdd] dev_step.add_fault [OF WriteAdd] by fastforce
next
  case (ExitFree bs r kbuf)
  then show ?thesis using dev_step.free [OF ExitFree] dev_step.free_fault [OF ExitFree] by fastforce
next
  case (Exit cl r out)
  then show ?thesis using dev_step.unlock by blast
qed (use assms in \<open>simp_all, (blast intro: read_step_exists write_step_exists grow_step_exists)+\<close>)

text \<open>While the serial call has a result, the holder is never at a fault.\<close>

lemma holder_no_fault:
  assumes "held_by p c k0 F0" "dev_inv k0" "dev_files F0"
  shows "dpcs c p \<noteq> Fault cl"
proof
  assume "dpcs c p = Fault cl"
  then have "call_run p cl k0 F0 None" using assms(1) by (simp add: held_by_def)
  from call_run_ok [OF assms(2,3) this] show False by (simp add: call_ok_def)
qed

text \<open>
  A step of the holder keeps it inside, with the lock held and nearer to its return, or ends its call
  with the lock free; a step of another process touches neither.
\<close>

definition returning_step :: "nat \<Rightarrow> dconf \<Rightarrow> dconf \<Rightarrow> bool" where
  "returning_step p c c' \<longleftrightarrow>
     (if inside (dpcs c' p)
      then (\<forall>cl. dpcs c' p \<noteq> Fault cl) \<and> dev_lock (aesd_device (dkern c')) \<and> dlog c' = dlog c \<and>
        steps_left (dpcs c' p) < steps_left (dpcs c p)
      else dpcs c' p = Outside \<and> \<not> dev_lock (aesd_device (dkern c')) \<and> (\<exists>cl r out. dlog c' = dlog c @ [(p, cl, r, out)]))"

lemma holder_goes_on:
  assumes held: "held_by p c k0 F0" and files: "dev_files F0" and step: "dev_step p c c'"
  shows "continues p k0 F0 c c'" and "inside (dpcs c' p) \<Longrightarrow> held_by p c' k0 F0"
proof -
  show cont: "continues p k0 F0 c c'"
    using held files by (intro stage_step step) (simp_all add: held_by_def dev_files_def)
  then show "held_by p c' k0 F0" if "inside (dpcs c' p)"
    using that held unfolding held_by_def continues_def by metis
qed

lemma holder_step:
  assumes held: "held_by p c k0 F0" and k0: "dev_inv k0" "dev_files F0" and step: "dev_step p c c'"
  shows "returning_step p c c'"
proof (cases "inside (dpcs c' p)")
  case True
  note cont = holder_goes_on [OF held k0(2) step]
  have safe: "\<forall>cl. dpcs c' p \<noteq> Fault cl" by (intro allI holder_no_fault [OF cont(2) [OF True] k0])
  have "steps_left (dpcs c' p) < steps_left (dpcs c p)"
    using inside_step_decreases [OF step _ safe] held by (simp add: held_by_def)
  then show ?thesis using cont(1) True safe by (simp add: returning_step_def continues_def)
next
  case False
  then show ?thesis using holder_goes_on(1) [OF held k0(2) step] by (auto simp: returning_step_def continues_def)
qed

lemma bystander_step:
  assumes "held_by p c k0 F0" and "dev_step q c c'" and "q \<noteq> p"
  shows "dpcs c' p = dpcs c p \<and> dkern c' = dkern c"
proof -
  have "\<not> inside (dpcs c q)" "dev_lock (aesd_device (dkern c))" using assms(1,3) by (auto simp: held_by_def)
  with assms(2,3) show ?thesis by cases simp_all
qed

lemma holder_returns:
  assumes "held_by p c k0 F0" "dev_inv k0" "dev_files F0"
  shows "\<exists>n c'. n \<le> steps_left (dpcs c p) \<and> (dev_step p ^^ n) c c' \<and> dpcs c' p = Outside \<and> \<not> dev_lock (aesd_device (dkern c'))"
  using assms(1)
proof (induction "steps_left (dpcs c p)" arbitrary: c rule: less_induct)
  case less
  have ins: "inside (dpcs c p)" using less.prems by (simp add: held_by_def)
  then have "0 < steps_left (dpcs c p)" by (cases "dpcs c p") simp_all
  obtain c1 where step: "dev_step p c c1"
    using inside_step_exists [OF ins] holder_no_fault [OF less.prems assms(2,3)] by blast
  note next_step = holder_step [OF less.prems assms(2,3) step]
  show ?case
  proof (cases "inside (dpcs c1 p)")
    case True
    then have dec: "steps_left (dpcs c1 p) < steps_left (dpcs c p)" using next_step by (simp add: returning_step_def)
    from less.hyps [OF dec holder_goes_on(2) [OF less.prems assms(3) step True]] obtain n c' where
      "n \<le> steps_left (dpcs c1 p)" "(dev_step p ^^ n) c1 c'" "dpcs c' p = Outside" "\<not> dev_lock (aesd_device (dkern c'))" by blast
    moreover from step this(2) have "(dev_step p ^^ Suc n) c c'" by (rule relpowp_Suc_I2)
    ultimately show ?thesis using dec by (intro exI [of _ "Suc n"] exI [of _ c']) (simp del: relpowp.simps)
  next
    case False
    then show ?thesis using next_step step \<open>0 < steps_left (dpcs c p)\<close>
      by (intro exI [of _ "Suc 0"] exI [of _ c1]) (auto simp: returning_step_def)
  qed
qed

section \<open>A concrete run\<close>

text \<open>Process 0 writes a newline to the freshly loaded module while process 1 waits to read.\<close>

definition race_start :: dconf where
  "race_start = dev_start loaded_kernel (\<lambda>_. open_file)"

definition race_conf :: "kernel \<Rightarrow> dpc \<Rightarrow> dconf" where
  "race_conf k pc = race_start\<lparr>dkern := k, dpcs := (\<lambda>_. Outside)(0 := pc, 1 := Waiting (Read 16))\<rparr>"

abbreviation race_heap :: "kheap \<Rightarrow> kernel" where
  "race_heap h \<equiv> (set_lock True loaded_kernel)\<lparr>kmem := h\<rparr>"

lemma race_conf_simps [simp]:
  "dkern (race_conf k pc) = k" "dpcs (race_conf k pc) 0 = pc" "dpcs (race_conf k pc) (Suc 0) = Waiting (Read 16)"
  "dfiles (race_conf k pc) p = open_file" "dlog (race_conf k pc) = []"
  by (simp_all add: race_conf_def race_start_def dev_start_def)

lemma race_conf_update [simp]:
  "(race_conf k pc)\<lparr>dpcs := (dpcs (race_conf k pc))(0 := pc')\<rparr> = race_conf k pc'"
  "(race_conf k pc)\<lparr>dkern := k', dpcs := (dpcs (race_conf k pc))(0 := pc')\<rparr> = race_conf k' pc'"
  by (auto simp: race_conf_def race_start_def dev_start_def fun_eq_iff)

abbreviation race_reaches :: "dconf \<Rightarrow> bool" where
  "race_reaches \<equiv> dev_reachable loaded_kernel (\<lambda>_. open_file)"

lemma race_next: "race_reaches c \<Longrightarrow> dev_step p c c1 \<Longrightarrow> c1 = c' \<Longrightarrow> race_reaches c'"
  using dev_reachable.step by blast

lemma race_locked: "race_reaches (race_conf (set_lock True loaded_kernel) (WriteAlloc [newline]))"
proof -
  have 1: "race_reaches (race_start\<lparr>dpcs := (dpcs race_start)(1 := Waiting (Read 16))\<rparr>)"
    unfolding race_start_def by (rule dev_reachable.step [OF dev_reachable.start], rule dev_step.enter) (simp_all add: dev_start_def)
  have 2: "race_reaches (race_conf loaded_kernel (Waiting (Write [newline])))"
    by (rule race_next [OF 1], rule dev_step.enter [where p = 0 and cl = "Write [newline]"])
      (auto simp: race_start_def dev_start_def race_conf_def fun_eq_iff)
  show ?thesis
    by (rule race_next [OF 2], rule dev_step.lock [where p = 0]) simp+
qed

text \<open>The write, with block 0 for \<open>kbuf\<close> and block 1 for the entry.\<close>

definition race_line :: kernel where
  "race_line = set_entry zero_entry (set_buffer (aesd_circular_buffer_init
      \<lparr>cb_entry := (replicate 10 zero_entry)[0 := \<lparr>buffptr = Ptr 1, esize = 1\<rparr>], cb_in_offs := 1\<rparr>)
    (race_heap [0 \<mapsto> [newline], 1 \<mapsto> [newline]]))"

lemma race_written: "race_reaches (race_conf (race_heap [0 \<mapsto> [newline]]) (WriteGrow [newline] (Ptr 0) 0))"
proof -
  have 1: "race_reaches (race_conf (race_heap [0 \<mapsto> [nul]]) (WriteCopy [newline] (Ptr 0)))"
    by (rule race_next [OF race_locked], rule dev_step.alloc [where p = 0 and rc = "Some (0, [nul])"])
      (simp add: alloc_ok_def kmalloc_def block_limit_def)+
  have 2: "race_reaches (race_conf (race_heap [0 \<mapsto> [newline]]) (WriteScan [newline] (Ptr 0)))"
    by (rule race_next [OF 1], rule dev_step.copy_in [where p = 0])
      (simp add: copy_from_user_def kstore_def)+
  show ?thesis
    by (rule race_next [OF 2], rule dev_step.scan [where p = 0])
      (simp add: kload_def newline_scan.simps)+
qed

lemma race_done: "\<exists>c. race_reaches c \<and> dlog c = [(0, Write [newline], 1, [])] \<and> \<not> dev_lock (aesd_device (dkern c))"
proof -
  let ?e = "\<lparr>buffptr = Ptr 1, esize = 1\<rparr>"
  have 1: "race_reaches (race_conf ((set_entry ?e (set_lock True loaded_kernel))\<lparr>kmem := [0 \<mapsto> [newline], 1 \<mapsto> [newline]]\<rparr>) (WriteAdd [newline] (Ptr 0)))"
    by (rule race_next [OF race_written], rule dev_step.grow [where p = 0 and rc = "Some (1, [nul])"])
      (simp add: alloc_ok_def grow_entry_def copy_size_def c_defs zero_entry_def block_limit_def Let_def)+
  have 2: "race_reaches (race_conf race_line (ExitFree [newline] 1 (Ptr 0)))"
    by (rule race_next [OF 1], rule dev_step.add [where p = 0])
      (simp add: race_line_def aesd_circular_buffer_add_entry_def aesd_circular_buffer_init_def zero_entry_def)+
  have 3: "race_reaches (race_conf (race_line\<lparr>kmem := [1 \<mapsto> [newline]]\<rparr>) (Exit (Write [newline]) 1 []))"
    by (rule race_next [OF 2], rule dev_step.free [where p = 0]) (simp add: race_line_def kfree_def)+
  show ?thesis
    by (rule exI, intro conjI, rule dev_reachable.step [OF 3], rule dev_step.unlock [where p = 0]) simp+
qed

section \<open>Properties\<close>

text \<open>
  C3: linearizability of the driver. However reads and writes of any number of processes interleave
  inside \<open>aesd_read\<close> and \<open>aesd_write\<close>, as long as no call has reported \<open>-ENOMEM\<close> the calls that
  have returned, taken in the order of their returns, are a run of the abstract device: each
  successful write changed the stored lines as \<open>write_spec\<close> says, each successful read delivered
  the stored bytes at its process's position and moved it, and failed or interrupted calls changed
  nothing; whenever the lock is free, the device and all positions are in the state of that run. At
  most one process is inside, exactly then the lock is held, and no process makes an access it must
  not make.
\<close>

theorem driver_calls_serialise:
  assumes "dev_inv k" and "dev_files F" and "dev_reachable k F c" and "memory_lasts (dlog c)"
  shows "(\<exists>v pos. ofold spec_call (dev_view k, positions F) (dlog c) = Some (v, pos) \<and>
      (\<not> dev_lock (aesd_device (dkern c)) \<longrightarrow>
         dev_inv (dkern c) \<and> dev_view (dkern c) = v \<and> positions (dfiles c) = pos)) \<and>
    (dev_lock (aesd_device (dkern c)) \<longleftrightarrow> (\<exists>p. inside (dpcs c p))) \<and>
    (inside (dpcs c p) \<longrightarrow> inside (dpcs c q) \<longrightarrow> p = q) \<and> dpcs c p \<noteq> Fault cl"
proof -
  have "\<not> dev_lock (aesd_device k)" using assms(1) by (simp add: dev_inv_def)
  from reachable_serial [OF assms(3,2) this] obtain k0 F0 where at: "serial_at k F c k0 F0"
    and st: "idle_at c k0 F0 \<or> (\<exists>p. held_by p c k0 F0)" by blast
  have spec: "dev_inv k0" "dev_files F0"
    "ofold spec_call (dev_view k, positions F) (dlog c) = Some (dev_view k0, positions F0)"
    using serial_spec [OF _ assms(1,2,4)] at by (auto simp: serial_at_def)
  from st show ?thesis
  proof
    assume idle: "idle_at c k0 F0"
    then have "\<not> dev_lock (aesd_device (dkern c))" "\<And>q. \<not> inside (dpcs c q)"
      using at by (simp_all add: idle_at_def serial_at_def)
    moreover have "dpcs c p \<noteq> Fault cl" using calculation(2) [of p] by auto
    ultimately show ?thesis using idle spec by (auto simp: idle_at_def)
  next
    assume "\<exists>h. held_by h c k0 F0"
    then obtain h where h: "held_by h c k0 F0" by blast
    then have ins: "inside (dpcs c h)" "dev_lock (aesd_device (dkern c))" "\<And>q. inside (dpcs c q) \<Longrightarrow> q = h"
      unfolding held_by_def by blast+
    have "dpcs c p \<noteq> Fault cl"
    proof
      assume fault: "dpcs c p = Fault cl"
      then have "p = h" using ins(3) [of p] by simp
      then show False using holder_no_fault [OF h spec(1,2)] fault by blast
    qed
    then show ?thesis using ins spec(3) by blast
  qed
qed

theorem driver_calls_serialise_witness:
  "\<exists>c. dev_reachable loaded_kernel (\<lambda>_. open_file) c \<and> dlog c = [(0, Write [newline], 1, [])] \<and>
    dev_inv (dkern c) \<and> dev_view (dkern c) = ([[newline]], [])"
proof -
  from race_done obtain c where c: "race_reaches c" "dlog c = [(0, Write [newline], 1, [])]"
    "\<not> dev_lock (aesd_device (dkern c))" by blast
  have "dev_files (\<lambda>_. open_file)" "memory_lasts (dlog c)" by (simp_all add: dev_files_def memory_lasts_def c(2))
  from driver_calls_serialise [OF loaded_kernel_inv this(1) c(1) this(2)] c show ?thesis
    by (intro exI [of _ c]) (auto simp: spec_call_def loaded_kernel_view write_spec_def upto_newline_def last_n_def)
qed

text \<open>
  C16: the lock of the driver is released. In every reachable configuration in which no call has
  reported \<open>-ENOMEM\<close>, the process inside the driver has a step, and every step it can take, on the
  error paths too, either keeps it inside without a fault, with the lock held and strictly nearer to
  its return, or ends its call: then the lock is free and the call is logged. Meanwhile the steps of
  the other processes change neither its place nor the kernel. So it returns after at most seven steps
  of its own, in whatever schedule, and leaves the lock free.
\<close>

theorem driver_lock_released:
  assumes "dev_inv k" and "dev_files F" and "dev_reachable k F c" and "memory_lasts (dlog c)"
    and "inside (dpcs c p)"
  shows "(\<exists>c'. dev_step p c c') \<and> steps_left (dpcs c p) \<le> 7 \<and>
    (\<forall>c'. dev_step p c c' \<longrightarrow>
      inside (dpcs c' p) \<and> (\<forall>cl. dpcs c' p \<noteq> Fault cl) \<and> dev_lock (aesd_device (dkern c')) \<and>
        steps_left (dpcs c' p) < steps_left (dpcs c p) \<or>
      dpcs c' p = Outside \<and> \<not> dev_lock (aesd_device (dkern c')) \<and> (\<exists>cl r out. dlog c' = dlog c @ [(p, cl, r, out)])) \<and>
    (\<forall>q c'. q \<noteq> p \<longrightarrow> dev_step q c c' \<longrightarrow> dpcs c' p = dpcs c p \<and> dkern c' = dkern c) \<and>
    (\<exists>n c'. n \<le> 7 \<and> (dev_step p ^^ n) c c' \<and> dpcs c' p = Outside \<and> \<not> dev_lock (aesd_device (dkern c')))"
proof -
  have "\<not> dev_lock (aesd_device k)" using assms(1) by (simp add: dev_inv_def)
  from reachable_serial [OF assms(3,2) this] obtain k0 F0 where at: "serial_at k F c k0 F0" and held: "held_by p c k0 F0"
    using assms(5) by (auto simp: idle_at_def held_by_def)
  have k0: "dev_inv k0" "dev_files F0" using serial_spec [OF _ assms(1,2,4)] at by (auto simp: serial_at_def)
  note safe = holder_no_fault [OF held k0]
  have some: "\<exists>c'. dev_step p c c'" using inside_step_exists [OF assms(5)] safe by blast
  have bound: "steps_left (dpcs c p) \<le> 7" using safe by (intro steps_left_bound) blast
  have "inside (dpcs c' p) \<and> (\<forall>cl. dpcs c' p \<noteq> Fault cl) \<and> dev_lock (aesd_device (dkern c')) \<and>
        steps_left (dpcs c' p) < steps_left (dpcs c p) \<or>
      dpcs c' p = Outside \<and> \<not> dev_lock (aesd_device (dkern c')) \<and> (\<exists>cl r out. dlog c' = dlog c @ [(p, cl, r, out)])"
    if "dev_step p c c'" for c' using holder_step [OF held k0 that] by (auto simp: returning_step_def split: if_splits)
  then show ?thesis
    using some bound bystander_step [OF held] holder_returns [OF held k0] by (meson order_trans)
qed

theorem driver_lock_released_witness:
  "\<exists>c n c'. dev_reachable loaded_kernel (\<lambda>_. open_file) c \<and> dpcs c 0 = WriteAlloc [newline] \<and> dpcs c 1 = Waiting (Read 16) \<and>
    n \<le> 7 \<and> (dev_step 0 ^^ n) c c' \<and> dpcs c' 0 = Outside \<and> \<not> dev_lock (aesd_device (dkern c'))"
proof -
  let ?c = "race_conf (set_lock True loaded_kernel) (WriteAlloc [newline])"
  have "dev_files (\<lambda>_. open_file)" "memory_lasts (dlog ?c)" "inside (dpcs ?c 0)" by (simp_all add: dev_files_def memory_lasts_def)
  note all = driver_lock_released [OF loaded_kernel_inv this(1) race_locked this(2,3)]
  then have "\<exists>n c'. n \<le> 7 \<and> (dev_step 0 ^^ n) ?c c' \<and> dpcs c' 0 = Outside \<and> \<not> dev_lock (aesd_device (dkern c'))" by blast
  with race_locked show ?thesis by (intro exI [of _ ?c]) (simp del: relpowp.simps)
qed

end
