(* ===== verification/Queue_Properties.thy ===== *)
theory Queue_Properties
  imports Queue_List
begin

text \<open>
  The properties of the \<open>LIST\<close> family, stated on the list of elements a head represents, with
  witnesses on a store with two heads.
\<close>

section \<open>A concrete store\<close>

text \<open>Head 0 holds the elements 1 and 2, head 1 holds element 3, head 2 is empty, and element 4 is in no list.\<close>

definition two_lists :: list_store where
  "two_lists = \<lparr>lh_first = (\<lambda>h. None)(0 := Some 1, 1 := Some 3),
     list_nodes = [1 \<mapsto> \<lparr>le_next = Some 2, le_prev = FirstOf 0\<rparr>, 2 \<mapsto> \<lparr>le_next = None, le_prev = NextOf 1\<rparr>,
       3 \<mapsto> \<lparr>le_next = None, le_prev = FirstOf 1\<rparr>, 4 \<mapsto> \<lparr>le_next = None, le_prev = FirstOf 9\<rparr>]\<rparr>"

lemma two_lists_reps:
  "list_rep 0 two_lists [1, 2]" "list_rep (Suc 0) two_lists [3]" "list_rep 2 two_lists []" "list_live two_lists = {1, 2, 3, 4}"
  by (simp_all add: two_lists_def list_rep_def get_slot_def get_prev_def LIST_NEXT_def list_live_def insert_commute)

section \<open>Properties\<close>

text \<open>
  C9: on any represented list, empty or not, inserting an element that is in no list puts it at the
  head, after or before the given element, and removing an element takes exactly it out; all these
  operations leave every other list as it was. Concatenating two disjoint lists, either of which may
  be empty, ends, moves the elements of the second list behind those of the first in order and
  empties the second; swapping exchanges them and initialising empties the list. All operations
  succeed and keep the elements allocated. \<open>LIST_FOREACH\<close> ends and visits the elements in
  order, from the first or a given element on; \<open>LIST_NEXT\<close> and \<open>LIST_PREV\<close> of an
  element are its neighbours, and \<open>LIST_EMPTY\<close> tells whether there is none.
\<close>

theorem list_operations_refine:
  assumes rep: "list_rep h s xs" and other: "list_rep h' s ws" "h' \<noteq> h"
    and dj: "set ws \<inter> set xs = {}" and x: "x \<in> list_live s" "x \<notin> set xs" "x \<notin> set ws"
  shows "op_yields list_rep list_live s (Some (LIST_INIT s h)) h [] h' ws \<and>
    op_yields list_rep list_live s (LIST_INSERT_HEAD s h x) h (x # xs) h' ws \<and>
    op_yields list_rep list_live s (ended (LIST_CONCAT s h h')) h (xs @ ws) h' [] \<and>
    op_yields list_rep list_live s (LIST_SWAP s h h') h ws h' xs \<and>
    LIST_FOREACH fst collect h (s, []) = Some (Some (s, xs)) \<and>
    LIST_FIRST s h = head_of xs \<and> (LIST_EMPTY s h \<longleftrightarrow> xs = []) \<and>
    (\<forall>ys y zs. xs = ys @ y # zs \<longrightarrow>
      op_yields list_rep list_live s (LIST_INSERT_AFTER s y x) h (ys @ y # x # zs) h' ws \<and>
      op_yields list_rep list_live s (LIST_INSERT_BEFORE s y x) h (ys @ x # y # zs) h' ws \<and>
      op_yields list_rep list_live s (LIST_REMOVE s y) h (ys @ zs) h' ws \<and>
      LIST_FOREACH_FROM fst collect (Some y) h (s, []) = Some (Some (s, y # zs)) \<and>
      LIST_NEXT s y = Some (head_of zs) \<and> LIST_PREV s y h = Some (if ys = [] then None else Some (last ys)))"
proof (intro conjI allI impI)
  note frame = other dj x
  show "op_yields list_rep list_live s (Some (LIST_INIT s h)) h [] h' ws"
    by (rule op_yieldsI [where A = "{}"]) (use LIST_INIT_rep frame in auto)
  show "op_yields list_rep list_live s (LIST_INSERT_HEAD s h x) h (x # xs) h' ws"
    by (rule op_yieldsI [OF LIST_INSERT_HEAD_rep [OF rep x(1,2)]]) (use frame in auto)
  have d: "set xs \<inter> set ws = {}" using dj by blast
  show "op_yields list_rep list_live s (ended (LIST_CONCAT s h h')) h (xs @ ws) h' []"
    "op_yields list_rep list_live s (LIST_SWAP s h h') h ws h' xs"
    using LIST_CONCAT_rep [OF rep other(1) other(2) [symmetric] d] LIST_SWAP_rep [OF rep other(1) other(2) [symmetric] d]
    by (auto simp: op_yields_def)
  show "LIST_FOREACH fst collect h (s, []) = Some (Some (s, xs))"
    using dlist.visit [OF rep] by (simp add: LIST_FOREACH_def)
  show "LIST_FIRST s h = head_of xs" by (rule list_rep_first [OF rep])
  then show "LIST_EMPTY s h \<longleftrightarrow> xs = []" by (cases xs) (simp_all add: LIST_EMPTY_def LIST_FIRST_def)
  fix ys y zs
  assume xs: "xs = ys @ y # zs"
  note rep' = rep [unfolded xs] and x' = x(1) x(2) [unfolded xs] and frame' = frame [unfolded xs]
  show "op_yields list_rep list_live s (LIST_INSERT_AFTER s y x) h (ys @ y # x # zs) h' ws"
    by (rule op_yieldsI [OF LIST_INSERT_AFTER_rep [OF rep' x']]) (use frame' in auto)
  show "op_yields list_rep list_live s (LIST_INSERT_BEFORE s y x) h (ys @ x # y # zs) h' ws"
    by (rule op_yieldsI [OF LIST_INSERT_BEFORE_rep [OF rep' x']]) (use frame' in auto)
  show "op_yields list_rep list_live s (LIST_REMOVE s y) h (ys @ zs) h' ws"
    by (rule op_yieldsI [OF LIST_REMOVE_rep [OF rep']]) (use frame' in auto)
  show "LIST_FOREACH_FROM fst collect (Some y) h (s, []) = Some (Some (s, y # zs))"
    using dlist.visit_from [OF rep', of "[]"] by (simp add: LIST_FOREACH_FROM_def del: FOREACH_FROM_simps)
  show "LIST_NEXT s y = Some (head_of zs)" by (rule dlist.rep_next [OF rep'])
  show "LIST_PREV s y h = Some (if ys = [] then None else Some (last ys))" by (rule LIST_PREV_rep [OF rep'])
qed

theorem list_operations_refine_witness:
  "\<exists>s1 s2 s3 s4 s5 s6. LIST_INSERT_HEAD two_lists 0 4 = Some s1 \<and> list_rep 0 s1 [4, 1, 2] \<and>
     LIST_INSERT_BEFORE two_lists 2 4 = Some s2 \<and> list_rep 0 s2 [1, 4, 2] \<and>
     LIST_REMOVE two_lists 2 = Some s3 \<and> list_rep 0 s3 [1] \<and> list_rep 1 s3 [3] \<and>
     LIST_SWAP two_lists 0 1 = Some s4 \<and> list_rep 0 s4 [3] \<and> list_rep 1 s4 [1, 2] \<and>
     LIST_INSERT_HEAD two_lists 2 4 = Some s5 \<and> list_rep 2 s5 [4] \<and>
     LIST_CONCAT two_lists 2 1 = Some (Some s6) \<and> list_rep 2 s6 [3] \<and> list_rep 1 s6 []"
proof -
  have "Suc 0 \<noteq> 0" "set [3] \<inter> set [1, 2] = ({} :: nat set)" "4 \<in> list_live two_lists" "4 \<notin> set [1, 2 :: nat]"
    "4 \<notin> set [3 :: nat]" by (simp_all add: two_lists_reps(4))
  note full = list_operations_refine [OF two_lists_reps(1,2) this]
  have at: "[1, 2] = [1] @ 2 # ([] :: nat list)" by simp
  have "op_yields list_rep list_live two_lists (LIST_INSERT_HEAD two_lists 0 4) 0 [4, 1, 2] (Suc 0) [3]"
    "op_yields list_rep list_live two_lists (LIST_SWAP two_lists 0 (Suc 0)) 0 [3] (Suc 0) [1, 2]"
    "op_yields list_rep list_live two_lists (LIST_INSERT_BEFORE two_lists 2 4) 0 ([1] @ 4 # 2 # []) (Suc 0) [3]"
    "op_yields list_rep list_live two_lists (LIST_REMOVE two_lists 2) 0 ([1] @ []) (Suc 0) [3]"
    using full at by blast+
  moreover have "op_yields list_rep list_live two_lists (LIST_INSERT_HEAD two_lists 2 4) 2 [4] (Suc 0) [3]"
    "op_yields list_rep list_live two_lists (ended (LIST_CONCAT two_lists 2 (Suc 0))) 2 ([] @ [3]) (Suc 0) []"
    using list_operations_refine [of 2 two_lists "[]" "Suc 0" "[3]" 4, OF two_lists_reps(3,2)] two_lists_reps(4) by simp_all
  ultimately show ?thesis by (simp add: op_yields_def bind_eq_Some_conv) blast
qed

text \<open>
  C27: the consistency checks that the macros make in the \<open>INVARIANTS\<close> configuration
  characterise the lists: from a head, the next pointers lead along \<open>xs\<close> to NULL and every
  check of the head and of the elements passes exactly when \<open>xs\<close> is the represented list. The
  check of an element against its predecessor then passes as well, so no macro ever panics on a
  represented list.
\<close>

theorem list_checks_characterise:
  "(list_rep h s xs \<longleftrightarrow> chain (get_slot s) (FirstOf h) xs \<and> QMD_LIST_CHECK_HEAD s h = Some True \<and>
      (\<forall>x \<in> set xs. QMD_LIST_CHECK_NEXT s x = Some True)) \<and>
   (list_rep h s xs \<longrightarrow> (\<forall>x \<in> set xs. QMD_LIST_CHECK_PREV s x = Some True))"
proof (intro conjI impI ballI)
  show "list_rep h s xs \<longleftrightarrow> chain (get_slot s) (FirstOf h) xs \<and> QMD_LIST_CHECK_HEAD s h = Some True \<and>
      (\<forall>x \<in> set xs. QMD_LIST_CHECK_NEXT s x = Some True)" by (rule list_rep_checks)
  show "QMD_LIST_CHECK_PREV s x = Some True" if "list_rep h s xs" "x \<in> set xs" for x
    using that list_rep_check_prev by (auto simp: in_set_conv_decomp)
qed

theorem list_checks_characterise_witness:
  "QMD_LIST_CHECK_HEAD two_lists 0 = Some True \<and> QMD_LIST_CHECK_NEXT two_lists 1 = Some True \<and>
   QMD_LIST_CHECK_PREV two_lists 2 = Some True"
  using list_checks_characterise [of 0 two_lists "[1, 2]"] two_lists_reps(1) by simp

text \<open>
  Inserting allocated, pairwise different elements one after the other at the head of an
  emptied list succeeds; \<open>LIST_FOREACH\<close> over the result ends and visits exactly these elements,
  the last inserted first; \<open>LIST_EMPTY\<close> tells whether there are any, and \<open>LIST_PREV\<close> and
  \<open>LIST_NEXT\<close> of every element are its neighbours in that order.
\<close>

lemma list_build_and_visit:
  assumes "set es \<subseteq> list_live s" and "distinct es"
  shows "\<exists>s'. ofold (\<lambda>s. LIST_INSERT_HEAD s h) (LIST_INIT s h) es = Some s' \<and>
      LIST_FOREACH fst collect h (s', []) =
        Some (Some (s', rev es)) \<and>
      LIST_EMPTY s' h = (es = []) \<and>
      (\<forall>ys y x zs. rev es = ys @ y # x # zs \<longrightarrow>
        LIST_NEXT s' y = Some (Some x) \<and> LIST_PREV s' x h = Some (Some y))"
proof -
  from dlist.build [OF assms] obtain s' where
    s': "ofold (\<lambda>s. LIST_INSERT_HEAD s h) (LIST_INIT s h) es = Some s'" "list_rep h s' (rev es)" by blast
  have "LIST_EMPTY s' h = (es = [])"
    using dlist.rep_first [OF s'(2)] by (simp add: LIST_EMPTY_def LIST_FIRST_def split: list.splits)
  moreover have "LIST_NEXT s' y = Some (Some x) \<and> LIST_PREV s' x h = Some (Some y)"
    if "rev es = ys @ y # x # zs" for ys y x zs
    using dlist.rep_next [of h s' ys y "x # zs"] LIST_PREV_rep [of h s' "ys @ [y]" x zs] s'(2) that by simp
  ultimately show ?thesis using s'(1) dlist.visit [OF s'(2)] by (auto simp: LIST_FOREACH_def)
qed

end
