(* ===== verification/Queue_Slist.thy ===== *)
theory Queue_Slist
  imports Intrusive_Lists
begin

text \<open>
  The singly linked \<open>SLIST\<close> family of \<open>server/queue.h\<close>. An element holds the address of
  the next element only, so removing an element that is not the first walks along the list to its
  predecessor. The macros are translated statement by statement; the link trashing of the
  debug configuration is in \<open>Queue_Debug\<close>.
\<close>

section \<open>Declarations\<close>

record slist_head =
  slh_first :: "nat option"

record slist_entry =
  sle_next :: "nat option"

record slist_store =
  slist_heads :: "nat \<Rightarrow> slist_head"
  slist_nodes :: "nat \<rightharpoonup> slist_entry"

definition SLIST_HEAD_INITIALIZER :: slist_head where
  "SLIST_HEAD_INITIALIZER = \<lparr>slh_first = None\<rparr>"

section \<open>Macros\<close>

definition SLIST_FIRST :: "slist_store \<Rightarrow> nat \<Rightarrow> nat option" where
  "SLIST_FIRST s head = slh_first (slist_heads s head)"

definition SLIST_EMPTY :: "slist_store \<Rightarrow> nat \<Rightarrow> bool" where
  "SLIST_EMPTY s head \<longleftrightarrow> slh_first (slist_heads s head) = None"

definition SLIST_NEXT :: "slist_store \<Rightarrow> nat \<Rightarrow> nat option option" where
  "SLIST_NEXT s elm = map_option sle_next (slist_nodes s elm)"

text \<open>Assignments to \<open>SLIST_FIRST(head)\<close> and to \<open>SLIST_NEXT(elm)\<close>.\<close>

definition slist_put_first :: "slist_store \<Rightarrow> nat \<Rightarrow> nat option \<Rightarrow> slist_store" where
  "slist_put_first s h v = s\<lparr>slist_heads := (slist_heads s)(h := (slist_heads s h)\<lparr>slh_first := v\<rparr>)\<rparr>"

definition slist_put_next :: "slist_store \<Rightarrow> nat \<Rightarrow> nat option \<Rightarrow> slist_store option" where
  "slist_put_next s x v =
     (case slist_nodes s x of
        None \<Rightarrow> None
      | Some e \<Rightarrow> Some (s\<lparr>slist_nodes := (slist_nodes s)(x \<mapsto> e\<lparr>sle_next := v\<rparr>)\<rparr>))"

definition SLIST_INIT :: "slist_store \<Rightarrow> nat \<Rightarrow> slist_store" where
  "SLIST_INIT s head = slist_put_first s head None"

definition SLIST_INSERT_AFTER :: "slist_store \<Rightarrow> nat \<Rightarrow> nat \<Rightarrow> slist_store option" where
  "SLIST_INSERT_AFTER s slistelm elm = do {
     n \<leftarrow> SLIST_NEXT s slistelm;
     s1 \<leftarrow> slist_put_next s elm n;
     slist_put_next s1 slistelm (Some elm)
   }"

definition SLIST_INSERT_HEAD :: "slist_store \<Rightarrow> nat \<Rightarrow> nat \<Rightarrow> slist_store option" where
  "SLIST_INSERT_HEAD s head elm = do {
     s1 \<leftarrow> slist_put_next s elm (SLIST_FIRST s head);
     Some (slist_put_first s1 head (Some elm))
   }"

definition SLIST_REMOVE_AFTER :: "slist_store \<Rightarrow> nat \<Rightarrow> slist_store option" where
  "SLIST_REMOVE_AFTER s elm = do {
     n \<leftarrow> SLIST_NEXT s elm;
     x \<leftarrow> n;
     n2 \<leftarrow> SLIST_NEXT s x;
     slist_put_next s elm n2
   }"

definition SLIST_REMOVE_HEAD :: "slist_store \<Rightarrow> nat \<Rightarrow> slist_store option" where
  "SLIST_REMOVE_HEAD s head = do {
     f \<leftarrow> SLIST_FIRST s head;
     n \<leftarrow> SLIST_NEXT s f;
     Some (slist_put_first s head n)
   }"

definition slist_find_prev :: "slist_store \<Rightarrow> nat option \<Rightarrow> nat \<Rightarrow> nat option option" where
  "slist_find_prev s curelm elm = find_prev (SLIST_NEXT s) curelm elm"

definition SLIST_REMOVE :: "slist_store \<Rightarrow> nat \<Rightarrow> nat \<Rightarrow> slist_store option option" where
  "SLIST_REMOVE s head elm =
     (if SLIST_FIRST s head = Some elm then Some (SLIST_REMOVE_HEAD s head)
      else
        (case slist_find_prev s (SLIST_FIRST s head) elm of
           None \<Rightarrow> None
         | Some None \<Rightarrow> Some None
         | Some (Some curelm) \<Rightarrow> Some (SLIST_REMOVE_AFTER s curelm)))"

definition SLIST_SWAP :: "slist_store \<Rightarrow> nat \<Rightarrow> nat \<Rightarrow> slist_store" where
  "SLIST_SWAP s head1 head2 =
     (let swap_first = SLIST_FIRST s head1;
          s1 = slist_put_first s head1 (SLIST_FIRST s head2)
      in slist_put_first s1 head2 swap_first)"

definition slist_last_from :: "slist_store \<Rightarrow> nat \<Rightarrow> nat option option" where
  "slist_last_from s curelm = last_from (SLIST_NEXT s) curelm"

definition SLIST_CONCAT :: "slist_store \<Rightarrow> nat \<Rightarrow> nat \<Rightarrow> slist_store option option" where
  "SLIST_CONCAT s head1 head2 =
     (case SLIST_FIRST s head1 of
        None \<Rightarrow>
          (let s1 = slist_put_first s head1 (SLIST_FIRST s head2) in
           Some (Some (if SLIST_FIRST s1 head1 \<noteq> None then SLIST_INIT s1 head2 else s1)))
      | Some curelm \<Rightarrow>
          (case SLIST_FIRST s head2 of
             None \<Rightarrow> Some (Some s)
           | Some f \<Rightarrow>
               (case slist_last_from s curelm of
                  None \<Rightarrow> None
                | Some None \<Rightarrow> Some None
                | Some (Some l) \<Rightarrow> Some (map_option (\<lambda>s1. SLIST_INIT s1 head2) (slist_put_next s l (Some f))))))"

text \<open>The iteration macros; \<open>st\<close> is the store as the state of the surrounding code holds it.\<close>

definition SLIST_FOREACH ::
    "('c \<Rightarrow> slist_store) \<Rightarrow> (nat \<Rightarrow> 'c \<Rightarrow> 'c option) \<Rightarrow> nat \<Rightarrow> 'c \<Rightarrow> 'c option option" where
  "SLIST_FOREACH st body head c = FOREACH_FROM (\<lambda>c. SLIST_NEXT (st c)) body (SLIST_FIRST (st c) head) c"

definition SLIST_FOREACH_FROM ::
    "('c \<Rightarrow> slist_store) \<Rightarrow> (nat \<Rightarrow> 'c \<Rightarrow> 'c option) \<Rightarrow> nat option \<Rightarrow> nat \<Rightarrow> 'c \<Rightarrow> 'c option option" where
  "SLIST_FOREACH_FROM st body var head c =
     FOREACH_FROM (\<lambda>c. SLIST_NEXT (st c)) body (foreach_start var (SLIST_FIRST (st c) head)) c"

definition SLIST_FOREACH_SAFE ::
    "('c \<Rightarrow> slist_store) \<Rightarrow> (nat \<Rightarrow> 'c \<Rightarrow> 'c option) \<Rightarrow> nat \<Rightarrow> 'c \<Rightarrow> 'c option option" where
  "SLIST_FOREACH_SAFE st body head c = FOREACH_FROM_SAFE (\<lambda>c. SLIST_NEXT (st c)) body (SLIST_FIRST (st c) head) c"

definition SLIST_FOREACH_FROM_SAFE ::
    "('c \<Rightarrow> slist_store) \<Rightarrow> (nat \<Rightarrow> 'c \<Rightarrow> 'c option) \<Rightarrow> nat option \<Rightarrow> nat \<Rightarrow> 'c \<Rightarrow> 'c option option" where
  "SLIST_FOREACH_FROM_SAFE st body var head c =
     FOREACH_FROM_SAFE (\<lambda>c. SLIST_NEXT (st c)) body (foreach_start var (SLIST_FIRST (st c) head)) c"

text \<open>The contents of a pointer slot, \<open>*(varp)\<close>, and the iteration over the slots.\<close>

definition slist_slot :: "slist_store \<Rightarrow> slot \<Rightarrow> nat option option" where
  "slist_slot s p = (case p of FirstOf h \<Rightarrow> Some (SLIST_FIRST s h) | NextOf x \<Rightarrow> SLIST_NEXT s x)"

partial_function (option) slist_prevptr_loop ::
    "('c \<Rightarrow> slist_store) \<Rightarrow> (nat \<Rightarrow> slot \<Rightarrow> 'c \<Rightarrow> 'c option) \<Rightarrow> slot \<Rightarrow> 'c \<Rightarrow> 'c option option" where
  "slist_prevptr_loop st body varp c =
     (case slist_slot (st c) varp of
        None \<Rightarrow> Some None
      | Some None \<Rightarrow> Some (Some c)
      | Some (Some var) \<Rightarrow>
          (case body var varp c of
             None \<Rightarrow> Some None
           | Some c' \<Rightarrow> slist_prevptr_loop st body (NextOf var) c'))"

definition SLIST_FOREACH_PREVPTR ::
    "('c \<Rightarrow> slist_store) \<Rightarrow> (nat \<Rightarrow> slot \<Rightarrow> 'c \<Rightarrow> 'c option) \<Rightarrow> nat \<Rightarrow> 'c \<Rightarrow> 'c option option" where
  "SLIST_FOREACH_PREVPTR st body head c = slist_prevptr_loop st body (FirstOf head) c"

section \<open>Reading and writing links\<close>

definition slist_live :: "slist_store \<Rightarrow> nat set" where
  "slist_live s = dom (slist_nodes s)"

definition slist_set_next :: "slist_store \<Rightarrow> nat \<Rightarrow> nat option \<Rightarrow> slist_store" where
  "slist_set_next s x v =
     s\<lparr>slist_nodes := (slist_nodes s)(x := map_option (\<lambda>e. e\<lparr>sle_next := v\<rparr>) (slist_nodes s x))\<rparr>"

lemmas slist_store_defs = slist_slot_def SLIST_FIRST_def SLIST_NEXT_def slist_live_def slist_set_next_def
  slist_put_first_def slist_put_next_def

lemma SLIST_NEXT_slot: "SLIST_NEXT s x = slist_slot s (NextOf x)"
  and SLIST_FIRST_slot: "slist_slot s (FirstOf h) = Some (SLIST_FIRST s h)"
  by (simp_all add: slist_slot_def)

lemma slist_live_iff: "x \<in> slist_live s \<longleftrightarrow> slist_slot s (NextOf x) \<noteq> None"
  by (auto simp: slist_store_defs)

lemma slist_put_live [simp]: "x \<in> slist_live s \<Longrightarrow> slist_put_next s x v = Some (slist_set_next s x v)"
  by (auto simp: slist_store_defs)

lemma slist_live_set [simp]:
  "slist_live (slist_set_next s x v) = slist_live s" "slist_live (slist_put_first s h v) = slist_live s"
  by (auto simp: slist_store_defs split: if_splits)

lemma slist_slot_set [simp]:
  "x \<in> slist_live s \<Longrightarrow> slist_slot (slist_set_next s x v) = (slist_slot s)(NextOf x := Some v)"
  "slist_slot (slist_put_first s h v) = (slist_slot s)(FirstOf h := Some v)"
  by (auto simp: slist_store_defs fun_eq_iff split: slot.splits)

lemma SLIST_FIRST_put [simp]: "SLIST_FIRST (slist_put_first s h v) h' = (if h' = h then v else SLIST_FIRST s h')"
  by (simp add: slist_store_defs)

section \<open>The represented list\<close>

definition slist_rep :: "nat \<Rightarrow> slist_store \<Rightarrow> nat list \<Rightarrow> bool" where
  "slist_rep h s xs \<longleftrightarrow> chain (slist_slot s) (FirstOf h) xs"

lemma slist_rep_first: "slist_rep h s xs \<Longrightarrow> SLIST_FIRST s h = head_of xs"
  using chain_head [of "slist_slot s" "FirstOf h" xs] by (simp add: slist_rep_def SLIST_FIRST_slot)

lemma slist_rep_next: "slist_rep h s (ys @ x # zs) \<Longrightarrow> SLIST_NEXT s x = Some (head_of zs)"
  using chain_next [of "slist_slot s" "FirstOf h" ys x zs] by (simp add: slist_rep_def SLIST_NEXT_slot)

lemma slist_rep_live: "slist_rep h s xs \<Longrightarrow> set xs \<subseteq> slist_live s"
  by (auto simp: slist_rep_def slist_live_iff dest: chain_alloc)

lemma slist_rep_distinct: "slist_rep h s xs \<Longrightarrow> distinct xs"
  by (auto simp: slist_rep_def dest: chain_distinct)

lemma slist_rep_other:
  assumes "slist_rep h' s ws" and "h' \<noteq> h" and "set ws \<inter> A = {}"
    and "\<And>q. q \<noteq> FirstOf h \<Longrightarrow> q \<notin> NextOf ` A \<Longrightarrow> slist_slot s' q = slist_slot s q"
  shows "slist_rep h' s' ws"
proof -
  have "chain (slist_slot s') (FirstOf h') ws = chain (slist_slot s) (FirstOf h') ws"
    by (rule chain_frame) (use assms(2-4) in auto)
  then show ?thesis using assms(1) by (simp add: slist_rep_def)
qed

lemma SLIST_INIT_rep:
  "slist_rep h (SLIST_INIT s h) [] \<and> slist_live (SLIST_INIT s h) = slist_live s \<and>
    (\<forall>h' ws. h' \<noteq> h \<longrightarrow> slist_rep h' s ws \<longrightarrow> slist_rep h' (SLIST_INIT s h) ws)"
proof (intro conjI allI impI)
  show "slist_rep h (SLIST_INIT s h) []" "slist_live (SLIST_INIT s h) = slist_live s"
    by (simp_all add: slist_rep_def SLIST_INIT_def)
  fix h' ws
  assume h: "h' \<noteq> h" and ws: "slist_rep h' s ws"
  show "slist_rep h' (SLIST_INIT s h) ws"
    by (rule slist_rep_other [OF ws h, where A = "{}"]) (use h in \<open>auto simp: SLIST_INIT_def\<close>)
qed

section \<open>Inserting and removing elements\<close>

lemma slist_splice_in:
  assumes rep: "slist_rep h s (ys @ zs)" and x: "x \<notin> set (ys @ zs)"
    and sl: "slist_slot s' = (slist_slot s)(NextOf x := Some (head_of zs), end_slot (FirstOf h) ys := Some (Some x))"
  shows "slist_rep h s' (ys @ x # zs) \<and>
    (\<forall>h' ws. h' \<noteq> h \<longrightarrow> set ws \<inter> set (ys @ x # zs) = {} \<longrightarrow> slist_rep h' s ws \<longrightarrow> slist_rep h' s' ws)"
proof -
  have "end_slot (FirstOf h) ys \<noteq> NextOf x" using x end_slot_next [of x ys h] by simp
  then have "chain (slist_slot s') (FirstOf h) (ys @ x # zs)"
    by (intro chain_splice_in [of "slist_slot s"]) (use rep x in \<open>auto simp: slist_rep_def sl\<close>)
  moreover have "slist_rep h' s' ws"
    if "h' \<noteq> h" "set ws \<inter> set (ys @ x # zs) = {}" "slist_rep h' s ws" for h' ws
    by (rule slist_rep_other [OF that(3,1,2)])
      (use end_slot_cases [of "FirstOf h" ys] in \<open>auto simp: sl\<close>)
  ultimately show ?thesis by (simp add: slist_rep_def)
qed

lemma slist_splice_out:
  assumes rep: "slist_rep h s (ys @ x # zs)"
    and sl: "slist_slot s' = (slist_slot s)(end_slot (FirstOf h) ys := Some (head_of zs))"
  shows "slist_rep h s' (ys @ zs) \<and>
    (\<forall>h' ws. h' \<noteq> h \<longrightarrow> set ws \<inter> set (ys @ x # zs) = {} \<longrightarrow> slist_rep h' s ws \<longrightarrow> slist_rep h' s' ws)"
proof -
  have "chain (slist_slot s') (FirstOf h) (ys @ zs)"
    by (rule chain_splice_out) (use rep in \<open>auto simp: slist_rep_def sl\<close>)
  moreover have "slist_rep h' s' ws"
    if "h' \<noteq> h" "set ws \<inter> set (ys @ x # zs) = {}" "slist_rep h' s ws" for h' ws
    by (rule slist_rep_other [OF that(3,1,2)])
      (use end_slot_cases [of "FirstOf h" ys] in \<open>auto simp: sl\<close>)
  ultimately show ?thesis by (simp add: slist_rep_def)
qed

lemma SLIST_INSERT_HEAD_rep:
  assumes rep: "slist_rep h s xs" and x: "x \<in> slist_live s" "x \<notin> set xs"
  shows "\<exists>s'. SLIST_INSERT_HEAD s h x = Some s' \<and> slist_rep h s' (x # xs) \<and> slist_live s' = slist_live s \<and>
    (\<forall>h' ws. h' \<noteq> h \<longrightarrow> set ws \<inter> set (x # xs) = {} \<longrightarrow> slist_rep h' s ws \<longrightarrow> slist_rep h' s' ws)"
  using slist_splice_in [of h s "[]" xs x "slist_put_first (slist_set_next s x (head_of xs)) h (Some x)"]
    slist_rep_first [OF rep] rep x
  by (simp add: SLIST_INSERT_HEAD_def)

lemma SLIST_INSERT_AFTER_rep:
  assumes rep: "slist_rep h s (ys @ y # zs)" and x: "x \<in> slist_live s" "x \<notin> set (ys @ y # zs)"
  shows "\<exists>s'. SLIST_INSERT_AFTER s y x = Some s' \<and> slist_rep h s' (ys @ y # x # zs) \<and> slist_live s' = slist_live s \<and>
    (\<forall>h' ws. h' \<noteq> h \<longrightarrow> set ws \<inter> set (ys @ y # x # zs) = {} \<longrightarrow> slist_rep h' s ws \<longrightarrow> slist_rep h' s' ws)"
  using slist_splice_in [of h s "ys @ [y]" zs x "slist_set_next (slist_set_next s x (head_of zs)) y (Some x)"]
    slist_rep_next [OF rep] slist_rep_live [OF rep] rep x
  by (simp add: SLIST_INSERT_AFTER_def)

lemma SLIST_REMOVE_HEAD_rep:
  assumes rep: "slist_rep h s (x # zs)"
  shows "\<exists>s'. SLIST_REMOVE_HEAD s h = Some s' \<and> slist_rep h s' zs \<and> slist_live s' = slist_live s \<and>
    (\<forall>h' ws. h' \<noteq> h \<longrightarrow> set ws \<inter> set (x # zs) = {} \<longrightarrow> slist_rep h' s ws \<longrightarrow> slist_rep h' s' ws)"
  using slist_splice_out [of h s "[]" x zs "slist_put_first s h (head_of zs)"]
    slist_rep_first [OF rep] slist_rep_next [of h s "[]" x zs] rep
  by (simp add: SLIST_REMOVE_HEAD_def)

lemma SLIST_REMOVE_AFTER_rep:
  assumes rep: "slist_rep h s (ys @ y # x # zs)"
  shows "\<exists>s'. SLIST_REMOVE_AFTER s y = Some s' \<and> slist_rep h s' (ys @ y # zs) \<and> slist_live s' = slist_live s \<and>
    (\<forall>h' ws. h' \<noteq> h \<longrightarrow> set ws \<inter> set (ys @ y # x # zs) = {} \<longrightarrow> slist_rep h' s ws \<longrightarrow> slist_rep h' s' ws)"
  using slist_splice_out [of h s "ys @ [y]" x zs "slist_set_next s y (head_of zs)"]
    slist_rep_next [OF rep] slist_rep_next [of h s "ys @ [y]" x zs] slist_rep_live [OF rep] rep
  by (simp add: SLIST_REMOVE_AFTER_def)

text \<open>The walk finds the predecessor of a later element, and runs off the end for an absent one.\<close>

lemma slist_find_prev_present:
  "chain (slist_slot s) (NextOf c) (us @ x # vs) \<Longrightarrow> x \<notin> set us \<Longrightarrow>
    slist_find_prev s (Some c) x = Some (Some (last (c # us)))"
  using find_prev_present [of "slist_slot s" c us x vs] by (simp add: slist_find_prev_def SLIST_NEXT_slot [abs_def])

lemma slist_find_prev_absent:
  "chain (slist_slot s) p us \<Longrightarrow> x \<notin> set us \<Longrightarrow> slist_find_prev s (head_of us) x = Some None"
  using find_prev_absent [of "slist_slot s" p us x] by (simp add: slist_find_prev_def SLIST_NEXT_slot [abs_def])

lemma SLIST_REMOVE_rep:
  assumes rep: "slist_rep h s (ys @ x # zs)"
  shows "\<exists>s'. SLIST_REMOVE s h x = Some (Some s') \<and> slist_rep h s' (ys @ zs) \<and> slist_live s' = slist_live s \<and>
    (\<forall>h' ws. h' \<noteq> h \<longrightarrow> set ws \<inter> set (ys @ x # zs) = {} \<longrightarrow> slist_rep h' s ws \<longrightarrow> slist_rep h' s' ws)"
proof (cases ys)
  case Nil
  then show ?thesis
    using SLIST_REMOVE_HEAD_rep [of h s x zs] slist_rep_first [OF rep] rep by (simp add: SLIST_REMOVE_def)
next
  case (Cons c us)
  have d: "distinct (c # us @ x # zs)" using slist_rep_distinct [OF rep] Cons by simp
  have "slist_find_prev s (Some c) x = Some (Some (last ys))"
    using slist_find_prev_present [of s c us x zs] rep d Cons by (simp add: slist_rep_def)
  moreover have "SLIST_FIRST s h = Some c" "c \<noteq> x" using slist_rep_first [OF rep] Cons d by auto
  ultimately have run: "SLIST_REMOVE s h x = Some (SLIST_REMOVE_AFTER s (last ys))"
    by (simp add: SLIST_REMOVE_def)
  have ys: "ys = butlast ys @ [last ys]" using Cons by simp
  have "slist_rep h s (butlast ys @ last ys # x # zs)" using rep ys by (metis append.assoc append_Cons append_Nil)
  from SLIST_REMOVE_AFTER_rep [OF this]
  have "\<exists>s'. SLIST_REMOVE_AFTER s (last ys) = Some s' \<and> slist_rep h s' ((butlast ys @ [last ys]) @ zs) \<and>
      slist_live s' = slist_live s \<and> (\<forall>h' ws. h' \<noteq> h \<longrightarrow> set ws \<inter> set ((butlast ys @ [last ys]) @ x # zs) = {} \<longrightarrow>
        slist_rep h' s ws \<longrightarrow> slist_rep h' s' ws)"
    by simp
  then show ?thesis unfolding run ys [symmetric] by auto
qed

lemma SLIST_REMOVE_absent:
  assumes "slist_rep h s xs" and "x \<notin> set xs"
  shows "SLIST_REMOVE s h x = Some None"
proof -
  have "slist_find_prev s (head_of xs) x = Some None"
    using slist_find_prev_absent assms unfolding slist_rep_def by blast
  moreover have "head_of xs \<noteq> Some x" using assms(2) by (auto dest: head_of_in)
  ultimately show ?thesis using slist_rep_first [OF assms(1)] by (simp add: SLIST_REMOVE_def)
qed

section \<open>Moving whole lists\<close>

lemma SLIST_SWAP_rep:
  assumes r1: "slist_rep h1 s xs" and r2: "slist_rep h2 s ys" and h: "h1 \<noteq> h2"
  shows "slist_rep h1 (SLIST_SWAP s h1 h2) ys \<and> slist_rep h2 (SLIST_SWAP s h1 h2) xs \<and>
    slist_live (SLIST_SWAP s h1 h2) = slist_live s"
proof -
  let ?s' = "SLIST_SWAP s h1 h2"
  have sl: "slist_slot ?s' = (slist_slot s)(FirstOf h1 := Some (head_of ys), FirstOf h2 := Some (head_of xs))"
    using slist_rep_first [OF r1] slist_rep_first [OF r2] by (simp add: SLIST_SWAP_def)
  have "chain (slist_slot ?s') (FirstOf h1) ys" "chain (slist_slot ?s') (FirstOf h2) xs"
    using r1 r2 h by (auto simp: sl slist_rep_def elim!: chain_rehead)
  then show ?thesis by (simp add: slist_rep_def SLIST_SWAP_def Let_def)
qed

lemma slist_last_from_chain:
  "chain (slist_slot s) (NextOf x) xs \<Longrightarrow> slist_last_from s x = Some (Some (last (x # xs)))"
  using last_from_chain [of "slist_slot s" x xs] by (simp add: slist_last_from_def SLIST_NEXT_slot [abs_def])

lemma SLIST_CONCAT_rep:
  assumes r1: "slist_rep h1 s xs" and r2: "slist_rep h2 s ys" and h: "h1 \<noteq> h2" and dj: "set xs \<inter> set ys = {}"
  shows "\<exists>s'. SLIST_CONCAT s h1 h2 = Some (Some s') \<and> slist_rep h1 s' (xs @ ys) \<and> slist_rep h2 s' [] \<and>
    slist_live s' = slist_live s"
proof -
  let ?q = "end_slot (FirstOf h1) xs"
  have first: "SLIST_FIRST s h1 = head_of xs" "SLIST_FIRST s h2 = head_of ys"
    using slist_rep_first [OF r1] slist_rep_first [OF r2] .
  have graft: ?thesis if "SLIST_CONCAT s h1 h2 = Some (Some s')" and lv: "slist_live s' = slist_live s"
    and sl: "slist_slot s' = (slist_slot s)(?q := Some (head_of ys), FirstOf h2 := Some None)" for s'
  proof -
    have "?q \<noteq> FirstOf h2" using h by (auto simp: end_slot_first)
    then have "chain (slist_slot s') (FirstOf h1) (xs @ ys)"
      by (intro chain_graft [of "slist_slot s" _ _ "FirstOf h2"]) (use r1 r2 dj h in \<open>auto simp: slist_rep_def sl\<close>)
    then show ?thesis using that by (simp add: slist_rep_def)
  qed
  show ?thesis
  proof (cases xs)
    case Nil
    have "(slist_slot s)(FirstOf h2 := Some None) = slist_slot s" if "ys = []"
      using chain_head [of "slist_slot s" "FirstOf h2" ys] r2 that by (auto simp: slist_rep_def fun_eq_iff)
    then show ?thesis
      by (intro graft [of "if ys = [] then slist_put_first s h1 None
          else SLIST_INIT (slist_put_first s h1 (head_of ys)) h2"])
        (use first Nil h in \<open>auto simp: SLIST_CONCAT_def SLIST_INIT_def fun_upd_twist split: list.splits\<close>)
  next
    case xs: (Cons x xs')
    show ?thesis
    proof (cases ys)
      case Nil
      then show ?thesis using first xs r1 r2 by (simp add: SLIST_CONCAT_def)
    next
      case (Cons f ys')
      have "slist_last_from s x = Some (Some (last xs))"
        using slist_last_from_chain [of s x xs'] r1 xs by (simp add: slist_rep_def)
      moreover have "?q = NextOf (last xs)" using xs by (simp add: end_slot_def)
      moreover have "last xs \<in> slist_live s" using slist_rep_live [OF r1] xs by auto
      ultimately show ?thesis
        by (intro graft [of "SLIST_INIT (slist_set_next s (last xs) (Some f)) h2"])
          (use first xs Cons in \<open>simp_all add: SLIST_CONCAT_def SLIST_INIT_def\<close>)
    qed
  qed
qed

section \<open>Iterating over the slots\<close>

lemma slist_prevptr_visit:
  "chain (slist_slot s) p xs \<Longrightarrow>
    slist_prevptr_loop fst (\<lambda>x q (s, acc). Some (s, acc @ [(x, q)])) p (s, acc) =
      Some (Some (s, acc @ zip xs (p # map NextOf xs)))"
proof (induction xs arbitrary: p acc)
  case Nil
  then show ?case by (subst slist_prevptr_loop.simps) simp
next
  case (Cons x xs)
  then show ?case by (subst slist_prevptr_loop.simps) simp
qed

section \<open>The family meets the contract\<close>

interpretation slist: intrusive_list "slist_rep h" SLIST_NEXT slist_live "\<lambda>s. SLIST_INIT s h" "\<lambda>s. SLIST_FIRST s h"
  "\<lambda>s. SLIST_INSERT_HEAD s h" SLIST_INSERT_AFTER "\<lambda>s x. Option.bind (SLIST_REMOVE s h x) (\<lambda>r. r)" for h
proof unfold_locales
  fix s :: slist_store and xs ys zs :: "nat list" and x y :: nat
  show "slist_rep h (SLIST_INIT s h) [] \<and> slist_live (SLIST_INIT s h) = slist_live s"
    using SLIST_INIT_rep by blast
  show "SLIST_FIRST s h = head_of xs" if "slist_rep h s xs" using that by (rule slist_rep_first)
  show "SLIST_NEXT s x = Some (head_of zs)" if "slist_rep h s (ys @ x # zs)" using that by (rule slist_rep_next)
  show "set xs \<subseteq> slist_live s \<and> distinct xs" if "slist_rep h s xs"
    using that slist_rep_live slist_rep_distinct by blast
  show "\<exists>s'. SLIST_INSERT_HEAD s h x = Some s' \<and> slist_rep h s' (x # xs) \<and> slist_live s' = slist_live s"
    if "slist_rep h s xs" "x \<in> slist_live s" "x \<notin> set xs"
    using SLIST_INSERT_HEAD_rep [OF that] by blast
  show "\<exists>s'. SLIST_INSERT_AFTER s y x = Some s' \<and> slist_rep h s' (ys @ y # x # zs) \<and> slist_live s' = slist_live s"
    if "slist_rep h s (ys @ y # zs)" "x \<in> slist_live s" "x \<notin> set (ys @ y # zs)"
    using SLIST_INSERT_AFTER_rep [OF that] by blast
  show "\<exists>s'. Option.bind (SLIST_REMOVE s h x) (\<lambda>r. r) = Some s' \<and> slist_rep h s' (ys @ zs) \<and>
      slist_live s' = slist_live s" if "slist_rep h s (ys @ x # zs)"
    using SLIST_REMOVE_rep [OF that] by auto
qed

end
