(* ===== verification/Queue_Stailq.thy ===== *)
theory Queue_Stailq
  imports Intrusive_Lists
begin

text \<open>
  The singly linked tail queues (\<open>STAILQ\<close>) of \<open>server/queue.h\<close>. The head holds the
  first element and the address of the last next pointer, which is the head's own first pointer when
  the queue is empty. The macros are translated statement by statement; the link trashing of
  the debug configuration is in \<open>Queue_Debug\<close>.
\<close>

section \<open>Declarations\<close>

record stailq_head =
  stqh_first :: "nat option"
  stqh_last :: slot

record stailq_entry =
  stqe_next :: "nat option"

record stailq_store =
  stailq_heads :: "nat \<Rightarrow> stailq_head"
  stailq_nodes :: "nat \<rightharpoonup> stailq_entry"

definition STAILQ_HEAD_INITIALIZER :: "nat \<Rightarrow> stailq_head" where
  "STAILQ_HEAD_INITIALIZER head = \<lparr>stqh_first = None, stqh_last = FirstOf head\<rparr>"

section \<open>Macros\<close>

definition STAILQ_FIRST :: "stailq_store \<Rightarrow> nat \<Rightarrow> nat option" where
  "STAILQ_FIRST s head = stqh_first (stailq_heads s head)"

definition STAILQ_EMPTY :: "stailq_store \<Rightarrow> nat \<Rightarrow> bool" where
  "STAILQ_EMPTY s head \<longleftrightarrow> stqh_first (stailq_heads s head) = None"

definition STAILQ_NEXT :: "stailq_store \<Rightarrow> nat \<Rightarrow> nat option option" where
  "STAILQ_NEXT s elm = map_option stqe_next (stailq_nodes s elm)"

text \<open>Reading \<open>stqh_last\<close> and the assignments the macros make.\<close>

definition stailq_last :: "stailq_store \<Rightarrow> nat \<Rightarrow> slot" where
  "stailq_last s h = stqh_last (stailq_heads s h)"

definition stailq_put_first :: "stailq_store \<Rightarrow> nat \<Rightarrow> nat option \<Rightarrow> stailq_store" where
  "stailq_put_first s h v = s\<lparr>stailq_heads := (stailq_heads s)(h := (stailq_heads s h)\<lparr>stqh_first := v\<rparr>)\<rparr>"

definition stailq_put_last :: "stailq_store \<Rightarrow> nat \<Rightarrow> slot \<Rightarrow> stailq_store" where
  "stailq_put_last s h p = s\<lparr>stailq_heads := (stailq_heads s)(h := (stailq_heads s h)\<lparr>stqh_last := p\<rparr>)\<rparr>"

definition stailq_put_next :: "stailq_store \<Rightarrow> nat \<Rightarrow> nat option \<Rightarrow> stailq_store option" where
  "stailq_put_next s x v =
     (case stailq_nodes s x of
        None \<Rightarrow> None
      | Some e \<Rightarrow> Some (s\<lparr>stailq_nodes := (stailq_nodes s)(x \<mapsto> e\<lparr>stqe_next := v\<rparr>)\<rparr>))"

definition stailq_put_slot :: "stailq_store \<Rightarrow> slot \<Rightarrow> nat option \<Rightarrow> stailq_store option" where
  "stailq_put_slot s p v = (case p of FirstOf h \<Rightarrow> Some (stailq_put_first s h v) | NextOf x \<Rightarrow> stailq_put_next s x v)"

definition STAILQ_INIT :: "stailq_store \<Rightarrow> nat \<Rightarrow> stailq_store" where
  "STAILQ_INIT s head = stailq_put_last (stailq_put_first s head None) head (FirstOf head)"

definition STAILQ_CONCAT :: "stailq_store \<Rightarrow> nat \<Rightarrow> nat \<Rightarrow> stailq_store option" where
  "STAILQ_CONCAT s head1 head2 =
     (if \<not> STAILQ_EMPTY s head2 then do {
        s1 \<leftarrow> stailq_put_slot s (stailq_last s head1) (STAILQ_FIRST s head2);
        let s2 = stailq_put_last s1 head1 (stailq_last s1 head2);
        Some (STAILQ_INIT s2 head2)
      } else Some s)"

definition STAILQ_INSERT_AFTER :: "stailq_store \<Rightarrow> nat \<Rightarrow> nat \<Rightarrow> nat \<Rightarrow> stailq_store option" where
  "STAILQ_INSERT_AFTER s head tqelm elm = do {
     n \<leftarrow> STAILQ_NEXT s tqelm;
     s1 \<leftarrow> stailq_put_next s elm n;
     let s2 = (if n = None then stailq_put_last s1 head (NextOf elm) else s1);
     stailq_put_next s2 tqelm (Some elm)
   }"

definition STAILQ_INSERT_HEAD :: "stailq_store \<Rightarrow> nat \<Rightarrow> nat \<Rightarrow> stailq_store option" where
  "STAILQ_INSERT_HEAD s head elm = do {
     let f = STAILQ_FIRST s head;
     s1 \<leftarrow> stailq_put_next s elm f;
     let s2 = (if f = None then stailq_put_last s1 head (NextOf elm) else s1);
     Some (stailq_put_first s2 head (Some elm))
   }"

definition STAILQ_INSERT_TAIL :: "stailq_store \<Rightarrow> nat \<Rightarrow> nat \<Rightarrow> stailq_store option" where
  "STAILQ_INSERT_TAIL s head elm = do {
     s1 \<leftarrow> stailq_put_next s elm None;
     s2 \<leftarrow> stailq_put_slot s1 (stailq_last s1 head) (Some elm);
     Some (stailq_put_last s2 head (NextOf elm))
   }"

text \<open>The element that contains the next pointer \<open>stqh_last\<close> points to.\<close>

definition STAILQ_LAST :: "stailq_store \<Rightarrow> nat \<Rightarrow> nat option option" where
  "STAILQ_LAST s head =
     (if STAILQ_EMPTY s head then Some None
      else case stailq_last s head of NextOf x \<Rightarrow> Some (Some x) | FirstOf _ \<Rightarrow> None)"

definition STAILQ_REMOVE_AFTER :: "stailq_store \<Rightarrow> nat \<Rightarrow> nat \<Rightarrow> stailq_store option" where
  "STAILQ_REMOVE_AFTER s head elm = do {
     n \<leftarrow> STAILQ_NEXT s elm;
     x \<leftarrow> n;
     n2 \<leftarrow> STAILQ_NEXT s x;
     s1 \<leftarrow> stailq_put_next s elm n2;
     Some (if n2 = None then stailq_put_last s1 head (NextOf elm) else s1)
   }"

definition STAILQ_REMOVE_HEAD :: "stailq_store \<Rightarrow> nat \<Rightarrow> stailq_store option" where
  "STAILQ_REMOVE_HEAD s head = do {
     f \<leftarrow> STAILQ_FIRST s head;
     n \<leftarrow> STAILQ_NEXT s f;
     let s1 = stailq_put_first s head n;
     Some (if n = None then stailq_put_last s1 head (FirstOf head) else s1)
   }"

definition stailq_find_prev :: "stailq_store \<Rightarrow> nat option \<Rightarrow> nat \<Rightarrow> nat option option" where
  "stailq_find_prev s curelm elm = find_prev (STAILQ_NEXT s) curelm elm"

definition STAILQ_REMOVE :: "stailq_store \<Rightarrow> nat \<Rightarrow> nat \<Rightarrow> stailq_store option option" where
  "STAILQ_REMOVE s head elm =
     (if STAILQ_FIRST s head = Some elm then Some (STAILQ_REMOVE_HEAD s head)
      else
        (case stailq_find_prev s (STAILQ_FIRST s head) elm of
           None \<Rightarrow> None
         | Some None \<Rightarrow> Some None
         | Some (Some curelm) \<Rightarrow> Some (STAILQ_REMOVE_AFTER s head curelm)))"

definition STAILQ_SWAP :: "stailq_store \<Rightarrow> nat \<Rightarrow> nat \<Rightarrow> stailq_store" where
  "STAILQ_SWAP s head1 head2 =
     (let swap_first = STAILQ_FIRST s head1;
          swap_last = stailq_last s head1;
          s1 = stailq_put_first s head1 (STAILQ_FIRST s head2);
          s2 = stailq_put_last s1 head1 (stailq_last s1 head2);
          s3 = stailq_put_first s2 head2 swap_first;
          s4 = stailq_put_last s3 head2 swap_last;
          s5 = (if STAILQ_EMPTY s4 head1 then stailq_put_last s4 head1 (FirstOf head1) else s4)
      in if STAILQ_EMPTY s5 head2 then stailq_put_last s5 head2 (FirstOf head2) else s5)"

text \<open>The iteration macros; \<open>st\<close> is the store as the state of the surrounding code holds it.\<close>

definition STAILQ_FOREACH ::
    "('c \<Rightarrow> stailq_store) \<Rightarrow> (nat \<Rightarrow> 'c \<Rightarrow> 'c option) \<Rightarrow> nat \<Rightarrow> 'c \<Rightarrow> 'c option option" where
  "STAILQ_FOREACH st body head c = FOREACH_FROM (\<lambda>c. STAILQ_NEXT (st c)) body (STAILQ_FIRST (st c) head) c"

definition STAILQ_FOREACH_FROM ::
    "('c \<Rightarrow> stailq_store) \<Rightarrow> (nat \<Rightarrow> 'c \<Rightarrow> 'c option) \<Rightarrow> nat option \<Rightarrow> nat \<Rightarrow> 'c \<Rightarrow> 'c option option" where
  "STAILQ_FOREACH_FROM st body var head c =
     FOREACH_FROM (\<lambda>c. STAILQ_NEXT (st c)) body (foreach_start var (STAILQ_FIRST (st c) head)) c"

definition STAILQ_FOREACH_SAFE ::
    "('c \<Rightarrow> stailq_store) \<Rightarrow> (nat \<Rightarrow> 'c \<Rightarrow> 'c option) \<Rightarrow> nat \<Rightarrow> 'c \<Rightarrow> 'c option option" where
  "STAILQ_FOREACH_SAFE st body head c =
     FOREACH_FROM_SAFE (\<lambda>c. STAILQ_NEXT (st c)) body (STAILQ_FIRST (st c) head) c"

definition STAILQ_FOREACH_FROM_SAFE ::
    "('c \<Rightarrow> stailq_store) \<Rightarrow> (nat \<Rightarrow> 'c \<Rightarrow> 'c option) \<Rightarrow> nat option \<Rightarrow> nat \<Rightarrow> 'c \<Rightarrow> 'c option option" where
  "STAILQ_FOREACH_FROM_SAFE st body var head c =
     FOREACH_FROM_SAFE (\<lambda>c. STAILQ_NEXT (st c)) body (foreach_start var (STAILQ_FIRST (st c) head)) c"

section \<open>Reading and writing links\<close>

definition stailq_slot :: "stailq_store \<Rightarrow> slot \<Rightarrow> nat option option" where
  "stailq_slot s p = (case p of FirstOf h \<Rightarrow> Some (STAILQ_FIRST s h) | NextOf x \<Rightarrow> STAILQ_NEXT s x)"

definition stailq_live :: "stailq_store \<Rightarrow> nat set" where
  "stailq_live s = dom (stailq_nodes s)"

definition stailq_set_next :: "stailq_store \<Rightarrow> nat \<Rightarrow> nat option \<Rightarrow> stailq_store" where
  "stailq_set_next s x v =
     s\<lparr>stailq_nodes := (stailq_nodes s)(x := map_option (\<lambda>e. e\<lparr>stqe_next := v\<rparr>) (stailq_nodes s x))\<rparr>"

definition stailq_set_slot :: "stailq_store \<Rightarrow> slot \<Rightarrow> nat option \<Rightarrow> stailq_store" where
  "stailq_set_slot s p v = (case p of FirstOf h \<Rightarrow> stailq_put_first s h v | NextOf x \<Rightarrow> stailq_set_next s x v)"

lemmas stailq_store_defs = stailq_slot_def STAILQ_FIRST_def STAILQ_NEXT_def stailq_last_def stailq_live_def
  stailq_set_next_def stailq_set_slot_def stailq_put_first_def stailq_put_last_def stailq_put_next_def stailq_put_slot_def

lemma STAILQ_NEXT_slot: "STAILQ_NEXT s x = stailq_slot s (NextOf x)"
  and STAILQ_FIRST_slot: "stailq_slot s (FirstOf h) = Some (STAILQ_FIRST s h)"
  by (simp_all add: stailq_slot_def)

lemma stailq_live_iff: "x \<in> stailq_live s \<longleftrightarrow> stailq_slot s (NextOf x) \<noteq> None"
  by (auto simp: stailq_store_defs)

lemma stailq_put_live [simp]:
  "x \<in> stailq_live s \<Longrightarrow> stailq_put_next s x v = Some (stailq_set_next s x v)"
  "stailq_slot s p \<noteq> None \<Longrightarrow> stailq_put_slot s p v = Some (stailq_set_slot s p v)"
  by (auto simp: stailq_store_defs split: slot.splits)

lemma stailq_live_set [simp]:
  "stailq_live (stailq_set_next s x v) = stailq_live s" "stailq_live (stailq_set_slot s q v) = stailq_live s"
  "stailq_live (stailq_put_first s h v) = stailq_live s" "stailq_live (stailq_put_last s h p) = stailq_live s"
  by (auto simp: stailq_store_defs split: if_splits slot.splits)

lemma stailq_slot_set [simp]:
  "x \<in> stailq_live s \<Longrightarrow> stailq_slot (stailq_set_next s x v) = (stailq_slot s)(NextOf x := Some v)"
  "stailq_slot s q \<noteq> None \<Longrightarrow> stailq_slot (stailq_set_slot s q v) = (stailq_slot s)(q := Some v)"
  "stailq_slot (stailq_put_first s h v) = (stailq_slot s)(FirstOf h := Some v)"
  "stailq_slot (stailq_put_last s h p) = stailq_slot s"
  by (auto simp: stailq_store_defs fun_eq_iff split: slot.splits)

lemma stailq_last_set [simp]:
  "stailq_last (stailq_set_next s x v) = stailq_last s" "stailq_last (stailq_set_slot s q v) = stailq_last s"
  "stailq_last (stailq_put_first s h v) = stailq_last s"
  "stailq_last (stailq_put_last s h p) = (stailq_last s)(h := p)"
  by (auto simp: stailq_store_defs fun_eq_iff split: slot.splits)

lemma STAILQ_FIRST_put [simp]:
  "STAILQ_FIRST (stailq_put_first s h v) h' = (if h' = h then v else STAILQ_FIRST s h')"
  "STAILQ_FIRST (stailq_put_last s h p) h' = STAILQ_FIRST s h'"
  "STAILQ_FIRST (stailq_set_next s x v) h' = STAILQ_FIRST s h'"
  by (simp_all add: stailq_store_defs)

lemma STAILQ_EMPTY_first: "STAILQ_EMPTY s h \<longleftrightarrow> STAILQ_FIRST s h = None"
  by (simp add: STAILQ_EMPTY_def STAILQ_FIRST_def)

section \<open>The represented queue\<close>

definition stailq_rep :: "nat \<Rightarrow> stailq_store \<Rightarrow> nat list \<Rightarrow> bool" where
  "stailq_rep h s xs \<longleftrightarrow> chain (stailq_slot s) (FirstOf h) xs \<and> stailq_last s h = end_slot (FirstOf h) xs"

lemma stailq_rep_first: "stailq_rep h s xs \<Longrightarrow> STAILQ_FIRST s h = head_of xs"
  using chain_head [of "stailq_slot s" "FirstOf h" xs] by (simp add: stailq_rep_def STAILQ_FIRST_slot)

lemma stailq_rep_next: "stailq_rep h s (ys @ x # zs) \<Longrightarrow> STAILQ_NEXT s x = Some (head_of zs)"
  using chain_next [of "stailq_slot s" "FirstOf h" ys x zs] by (simp add: stailq_rep_def STAILQ_NEXT_slot)

lemma stailq_rep_live: "stailq_rep h s xs \<Longrightarrow> set xs \<subseteq> stailq_live s"
  by (auto simp: stailq_rep_def stailq_live_iff dest: chain_alloc)

lemma stailq_rep_distinct: "stailq_rep h s xs \<Longrightarrow> distinct xs"
  by (auto simp: stailq_rep_def dest: chain_distinct)

lemma stailq_rep_end: "stailq_rep h s xs \<Longrightarrow> stailq_slot s (stailq_last s h) = Some None"
  using chain_slot [of "stailq_slot s" "FirstOf h" xs "[]"] by (simp add: stailq_rep_def)

lemma stailq_rep_other:
  assumes "stailq_rep h' s ws" and "h' \<noteq> h" and "set ws \<inter> A = {}"
    and "\<And>q. q \<noteq> FirstOf h \<Longrightarrow> q \<notin> NextOf ` A \<Longrightarrow> stailq_slot s' q = stailq_slot s q"
    and "stailq_last s' h' = stailq_last s h'"
  shows "stailq_rep h' s' ws"
proof -
  have "chain (stailq_slot s') (FirstOf h') ws = chain (stailq_slot s) (FirstOf h') ws"
    by (rule chain_frame) (use assms(2-4) in auto)
  then show ?thesis using assms(1,5) by (simp add: stailq_rep_def)
qed

lemma STAILQ_INIT_rep:
  "stailq_rep h (STAILQ_INIT s h) [] \<and> stailq_live (STAILQ_INIT s h) = stailq_live s \<and>
    (\<forall>h' ws. h' \<noteq> h \<longrightarrow> stailq_rep h' s ws \<longrightarrow> stailq_rep h' (STAILQ_INIT s h) ws)"
proof (intro conjI allI impI)
  show "stailq_rep h (STAILQ_INIT s h) []" "stailq_live (STAILQ_INIT s h) = stailq_live s"
    by (simp_all add: stailq_rep_def STAILQ_INIT_def)
  fix h' ws
  assume h: "h' \<noteq> h" and ws: "stailq_rep h' s ws"
  show "stailq_rep h' (STAILQ_INIT s h) ws"
    by (rule stailq_rep_other [OF ws h, where A = "{}"]) (use h in \<open>auto simp: STAILQ_INIT_def\<close>)
qed

section \<open>Inserting and removing elements\<close>

lemma stailq_splice_in:
  assumes rep: "stailq_rep h s (ys @ zs)" and x: "x \<notin> set (ys @ zs)"
    and sl: "stailq_slot s' = (stailq_slot s)(NextOf x := Some (head_of zs), end_slot (FirstOf h) ys := Some (Some x))"
    and la: "stailq_last s' = (if zs = [] then (stailq_last s)(h := NextOf x) else stailq_last s)"
  shows "stailq_rep h s' (ys @ x # zs) \<and>
    (\<forall>h' ws. h' \<noteq> h \<longrightarrow> set ws \<inter> set (ys @ x # zs) = {} \<longrightarrow> stailq_rep h' s ws \<longrightarrow> stailq_rep h' s' ws)"
proof -
  have "end_slot (FirstOf h) ys \<noteq> NextOf x" using x end_slot_next [of x ys h] by simp
  then have "chain (stailq_slot s') (FirstOf h) (ys @ x # zs)"
    by (intro chain_splice_in [of "stailq_slot s"]) (use rep x in \<open>auto simp: stailq_rep_def sl\<close>)
  moreover have "stailq_last s' h = end_slot (FirstOf h) (ys @ x # zs)"
    using rep la by (auto simp: stailq_rep_def end_slot_def)
  moreover have "stailq_rep h' s' ws"
    if "h' \<noteq> h" "set ws \<inter> set (ys @ x # zs) = {}" "stailq_rep h' s ws" for h' ws
    by (rule stailq_rep_other [OF that(3,1,2)])
      (use that end_slot_cases [of "FirstOf h" ys] in \<open>auto simp: sl la\<close>)
  ultimately show ?thesis by (simp add: stailq_rep_def)
qed

lemma stailq_splice_out:
  assumes rep: "stailq_rep h s (ys @ x # zs)"
    and sl: "stailq_slot s' = (stailq_slot s)(end_slot (FirstOf h) ys := Some (head_of zs))"
    and la: "stailq_last s' = (if zs = [] then (stailq_last s)(h := end_slot (FirstOf h) ys) else stailq_last s)"
  shows "stailq_rep h s' (ys @ zs) \<and>
    (\<forall>h' ws. h' \<noteq> h \<longrightarrow> set ws \<inter> set (ys @ x # zs) = {} \<longrightarrow> stailq_rep h' s ws \<longrightarrow> stailq_rep h' s' ws)"
proof -
  have "chain (stailq_slot s') (FirstOf h) (ys @ zs)"
    by (rule chain_splice_out) (use rep in \<open>auto simp: stailq_rep_def sl\<close>)
  moreover have "stailq_last s' h = end_slot (FirstOf h) (ys @ zs)"
    using rep la by (auto simp: stailq_rep_def end_slot_def)
  moreover have "stailq_rep h' s' ws"
    if "h' \<noteq> h" "set ws \<inter> set (ys @ x # zs) = {}" "stailq_rep h' s ws" for h' ws
    by (rule stailq_rep_other [OF that(3,1,2)])
      (use that end_slot_cases [of "FirstOf h" ys] in \<open>auto simp: sl la\<close>)
  ultimately show ?thesis by (simp add: stailq_rep_def)
qed

lemma STAILQ_INSERT_HEAD_rep:
  assumes rep: "stailq_rep h s xs" and x: "x \<in> stailq_live s" "x \<notin> set xs"
  shows "\<exists>s'. STAILQ_INSERT_HEAD s h x = Some s' \<and> stailq_rep h s' (x # xs) \<and> stailq_live s' = stailq_live s \<and>
    (\<forall>h' ws. h' \<noteq> h \<longrightarrow> set ws \<inter> set (x # xs) = {} \<longrightarrow> stailq_rep h' s ws \<longrightarrow> stailq_rep h' s' ws)"
proof -
  define s1 where "s1 = stailq_set_next s x (head_of xs)"
  define s' where "s' = stailq_put_first (if xs = [] then stailq_put_last s1 h (NextOf x) else s1) h (Some x)"
  have "STAILQ_INSERT_HEAD s h x = Some s'"
    using stailq_rep_first [OF rep] x by (simp add: STAILQ_INSERT_HEAD_def s'_def s1_def)
  moreover have "stailq_live s' = stailq_live s" by (simp add: s'_def s1_def)
  moreover have "stailq_rep h s' ([] @ x # xs) \<and> (\<forall>h' ws. h' \<noteq> h \<longrightarrow> set ws \<inter> set ([] @ x # xs) = {} \<longrightarrow>
      stailq_rep h' s ws \<longrightarrow> stailq_rep h' s' ws)"
    by (rule stailq_splice_in) (use rep x in \<open>simp_all add: s'_def s1_def\<close>)
  ultimately show ?thesis by simp
qed

lemma STAILQ_INSERT_AFTER_rep:
  assumes rep: "stailq_rep h s (ys @ y # zs)" and x: "x \<in> stailq_live s" "x \<notin> set (ys @ y # zs)"
  shows "\<exists>s'. STAILQ_INSERT_AFTER s h y x = Some s' \<and> stailq_rep h s' (ys @ y # x # zs) \<and> stailq_live s' = stailq_live s \<and>
    (\<forall>h' ws. h' \<noteq> h \<longrightarrow> set ws \<inter> set (ys @ y # x # zs) = {} \<longrightarrow> stailq_rep h' s ws \<longrightarrow> stailq_rep h' s' ws)"
proof -
  define s1 where "s1 = stailq_set_next s x (head_of zs)"
  define s' where "s' = stailq_set_next (if zs = [] then stailq_put_last s1 h (NextOf x) else s1) y (Some x)"
  have y: "y \<in> stailq_live s" using stailq_rep_live [OF rep] by simp
  then have "STAILQ_INSERT_AFTER s h y x = Some s'"
    using stailq_rep_next [OF rep] x by (simp add: STAILQ_INSERT_AFTER_def s'_def s1_def)
  moreover have "stailq_live s' = stailq_live s" by (simp add: s'_def s1_def)
  moreover have "stailq_rep h s' ((ys @ [y]) @ x # zs) \<and> (\<forall>h' ws. h' \<noteq> h \<longrightarrow> set ws \<inter> set ((ys @ [y]) @ x # zs) = {} \<longrightarrow>
      stailq_rep h' s ws \<longrightarrow> stailq_rep h' s' ws)"
    by (rule stailq_splice_in) (use rep x y in \<open>simp_all add: s'_def s1_def\<close>)
  ultimately show ?thesis by simp
qed

lemma STAILQ_INSERT_TAIL_rep:
  assumes rep: "stailq_rep h s xs" and x: "x \<in> stailq_live s" "x \<notin> set xs"
  shows "\<exists>s'. STAILQ_INSERT_TAIL s h x = Some s' \<and> stailq_rep h s' (xs @ [x]) \<and> stailq_live s' = stailq_live s \<and>
    (\<forall>h' ws. h' \<noteq> h \<longrightarrow> set ws \<inter> set (xs @ [x]) = {} \<longrightarrow> stailq_rep h' s ws \<longrightarrow> stailq_rep h' s' ws)"
proof -
  let ?q = "end_slot (FirstOf h) xs"
  define s1 where "s1 = stailq_set_next s x None"
  define s' where "s' = stailq_put_last (stailq_set_slot s1 ?q (Some x)) h (NextOf x)"
  have q: "stailq_last s h = ?q" "stailq_slot s ?q = Some None" "?q \<noteq> NextOf x"
    using stailq_rep_end [OF rep] rep x(2) end_slot_next [of x xs h] by (simp_all add: stailq_rep_def)
  then have "STAILQ_INSERT_TAIL s h x = Some s'" using x by (simp add: STAILQ_INSERT_TAIL_def s'_def s1_def)
  moreover have "stailq_live s' = stailq_live s" by (simp add: s'_def s1_def)
  moreover have "stailq_rep h s' (xs @ x # []) \<and> (\<forall>h' ws. h' \<noteq> h \<longrightarrow> set ws \<inter> set (xs @ x # []) = {} \<longrightarrow>
      stailq_rep h' s ws \<longrightarrow> stailq_rep h' s' ws)"
    by (rule stailq_splice_in) (use rep x q in \<open>simp_all add: s'_def s1_def\<close>)
  ultimately show ?thesis by simp
qed

lemma STAILQ_REMOVE_HEAD_rep:
  assumes rep: "stailq_rep h s (x # zs)"
  shows "\<exists>s'. STAILQ_REMOVE_HEAD s h = Some s' \<and> stailq_rep h s' zs \<and> stailq_live s' = stailq_live s \<and>
    (\<forall>h' ws. h' \<noteq> h \<longrightarrow> set ws \<inter> set (x # zs) = {} \<longrightarrow> stailq_rep h' s ws \<longrightarrow> stailq_rep h' s' ws)"
proof -
  define s1 where "s1 = stailq_put_first s h (head_of zs)"
  define s' where "s' = (if zs = [] then stailq_put_last s1 h (FirstOf h) else s1)"
  have "STAILQ_REMOVE_HEAD s h = Some s'"
    using stailq_rep_first [OF rep] stailq_rep_next [of h s "[]" x zs] rep
    by (simp add: STAILQ_REMOVE_HEAD_def s'_def s1_def)
  moreover have "stailq_live s' = stailq_live s" by (simp add: s'_def s1_def)
  moreover have "stailq_rep h s' ([] @ zs) \<and> (\<forall>h' ws. h' \<noteq> h \<longrightarrow> set ws \<inter> set ([] @ x # zs) = {} \<longrightarrow>
      stailq_rep h' s ws \<longrightarrow> stailq_rep h' s' ws)"
    by (rule stailq_splice_out) (use rep in \<open>simp_all add: s'_def s1_def\<close>)
  ultimately show ?thesis by simp
qed

lemma STAILQ_REMOVE_AFTER_rep:
  assumes rep: "stailq_rep h s ((ys @ [y]) @ x # zs)"
  shows "\<exists>s'. STAILQ_REMOVE_AFTER s h y = Some s' \<and> stailq_rep h s' ((ys @ [y]) @ zs) \<and> stailq_live s' = stailq_live s \<and>
    (\<forall>h' ws. h' \<noteq> h \<longrightarrow> set ws \<inter> set ((ys @ [y]) @ x # zs) = {} \<longrightarrow> stailq_rep h' s ws \<longrightarrow> stailq_rep h' s' ws)"
proof -
  define s1 where "s1 = stailq_set_next s y (head_of zs)"
  define s' where "s' = (if zs = [] then stailq_put_last s1 h (NextOf y) else s1)"
  have y: "y \<in> stailq_live s" using stailq_rep_live [OF rep] by simp
  then have "STAILQ_REMOVE_AFTER s h y = Some s'"
    using stailq_rep_next [of h s ys y "x # zs"] stailq_rep_next [OF rep] rep
    by (simp add: STAILQ_REMOVE_AFTER_def s'_def s1_def)
  moreover have "stailq_live s' = stailq_live s" by (simp add: s'_def s1_def)
  moreover have "stailq_rep h s' ((ys @ [y]) @ zs) \<and> (\<forall>h' ws. h' \<noteq> h \<longrightarrow> set ws \<inter> set ((ys @ [y]) @ x # zs) = {} \<longrightarrow>
      stailq_rep h' s ws \<longrightarrow> stailq_rep h' s' ws)"
    by (rule stailq_splice_out) (use rep y in \<open>simp_all add: s'_def s1_def\<close>)
  ultimately show ?thesis by simp
qed

text \<open>The walk finds the predecessor of a later element, and runs off the end for an absent one.\<close>

lemma stailq_find_prev_present:
  "chain (stailq_slot s) (NextOf c) (us @ x # vs) \<Longrightarrow> x \<notin> set us \<Longrightarrow>
    stailq_find_prev s (Some c) x = Some (Some (last (c # us)))"
  using find_prev_present [of "stailq_slot s" c us x vs] by (simp add: stailq_find_prev_def STAILQ_NEXT_slot [abs_def])

lemma stailq_find_prev_absent:
  "chain (stailq_slot s) p us \<Longrightarrow> x \<notin> set us \<Longrightarrow> stailq_find_prev s (head_of us) x = Some None"
  using find_prev_absent [of "stailq_slot s" p us x] by (simp add: stailq_find_prev_def STAILQ_NEXT_slot [abs_def])

lemma STAILQ_REMOVE_rep:
  assumes rep: "stailq_rep h s (ys @ x # zs)"
  shows "\<exists>s'. STAILQ_REMOVE s h x = Some (Some s') \<and> stailq_rep h s' (ys @ zs) \<and> stailq_live s' = stailq_live s \<and>
    (\<forall>h' ws. h' \<noteq> h \<longrightarrow> set ws \<inter> set (ys @ x # zs) = {} \<longrightarrow> stailq_rep h' s ws \<longrightarrow> stailq_rep h' s' ws)"
proof (cases ys)
  case Nil
  then show ?thesis
    using STAILQ_REMOVE_HEAD_rep [of h s x zs] stailq_rep_first [OF rep] rep by (simp add: STAILQ_REMOVE_def)
next
  case (Cons c us)
  have d: "distinct (c # us @ x # zs)" using stailq_rep_distinct [OF rep] Cons by simp
  have "stailq_find_prev s (Some c) x = Some (Some (last ys))"
    using stailq_find_prev_present [of s c us x zs] rep d Cons by (simp add: stailq_rep_def)
  moreover have "STAILQ_FIRST s h = Some c" "c \<noteq> x" using stailq_rep_first [OF rep] Cons d by auto
  ultimately have run: "STAILQ_REMOVE s h x = Some (STAILQ_REMOVE_AFTER s h (last ys))"
    by (simp add: STAILQ_REMOVE_def)
  have ys: "butlast ys @ [last ys] = ys" using Cons by simp
  have "stailq_rep h s ((butlast ys @ [last ys]) @ x # zs)" unfolding ys by (rule rep)
  from STAILQ_REMOVE_AFTER_rep [OF this] show ?thesis unfolding run ys by auto
qed

lemma STAILQ_REMOVE_absent:
  assumes "stailq_rep h s xs" and "x \<notin> set xs"
  shows "STAILQ_REMOVE s h x = Some None"
proof -
  have "stailq_find_prev s (head_of xs) x = Some None"
    using stailq_find_prev_absent assms unfolding stailq_rep_def by blast
  moreover have "head_of xs \<noteq> Some x" using assms(2) by (auto dest: head_of_in)
  ultimately show ?thesis using stailq_rep_first [OF assms(1)] by (simp add: STAILQ_REMOVE_def)
qed

lemma STAILQ_LAST_rep:
  assumes "stailq_rep h s xs"
  shows "STAILQ_LAST s h = Some (if xs = [] then None else Some (last xs))"
  using stailq_rep_first [OF assms] assms
  by (simp add: STAILQ_LAST_def STAILQ_EMPTY_first stailq_rep_def end_slot_def)

section \<open>Moving whole queues\<close>

lemma STAILQ_CONCAT_rep:
  assumes r1: "stailq_rep h1 s xs" and r2: "stailq_rep h2 s ys" and h: "h1 \<noteq> h2" and dj: "set xs \<inter> set ys = {}"
  shows "\<exists>s'. STAILQ_CONCAT s h1 h2 = Some s' \<and> stailq_rep h1 s' (xs @ ys) \<and> stailq_rep h2 s' [] \<and>
    stailq_live s' = stailq_live s"
proof (cases "ys = []")
  case True
  then show ?thesis
    using r1 r2 stailq_rep_first [OF r2] by (simp add: STAILQ_CONCAT_def STAILQ_EMPTY_first)
next
  case False
  let ?q = "end_slot (FirstOf h1) xs"
  define s' where "s' = STAILQ_INIT (stailq_put_last (stailq_set_slot s ?q (head_of ys)) h1 (end_slot (FirstOf h2) ys)) h2"
  have q: "stailq_last s h1 = ?q" "stailq_slot s ?q = Some None" "?q \<noteq> FirstOf h2"
    using stailq_rep_end [OF r1] r1 h by (auto simp: stailq_rep_def end_slot_first)
  have run: "STAILQ_CONCAT s h1 h2 = Some s'"
    using q stailq_rep_first [OF r2] r2 False
    by (simp add: STAILQ_CONCAT_def STAILQ_EMPTY_first s'_def stailq_rep_def)
  have sl: "stailq_slot s' = (stailq_slot s)(?q := Some (head_of ys), FirstOf h2 := Some None)"
    and la: "stailq_last s' = (stailq_last s)(h1 := end_slot (FirstOf h2) ys, h2 := FirstOf h2)"
    and lv: "stailq_live s' = stailq_live s"
    using q by (simp_all add: s'_def STAILQ_INIT_def)
  have "chain (stailq_slot s') (FirstOf h1) (xs @ ys)"
    by (rule chain_graft [of "stailq_slot s" _ _ "FirstOf h2"])
      (use r1 r2 dj h q in \<open>auto simp: stailq_rep_def sl\<close>)
  moreover have "end_slot (FirstOf h2) ys = end_slot (FirstOf h1) (xs @ ys)" using False by (simp add: end_slot_def)
  ultimately show ?thesis using run lv h by (simp add: stailq_rep_def sl la)
qed

lemma STAILQ_SWAP_rep:
  assumes r1: "stailq_rep h1 s xs" and r2: "stailq_rep h2 s ys" and h: "h1 \<noteq> h2"
  shows "stailq_rep h1 (STAILQ_SWAP s h1 h2) ys \<and> stailq_rep h2 (STAILQ_SWAP s h1 h2) xs \<and>
    stailq_live (STAILQ_SWAP s h1 h2) = stailq_live s"
proof -
  let ?s' = "STAILQ_SWAP s h1 h2"
  have first: "STAILQ_FIRST s h1 = head_of xs" "STAILQ_FIRST s h2 = head_of ys"
    using stailq_rep_first [OF r1] stailq_rep_first [OF r2] .
  have last: "stailq_last s h1 = end_slot (FirstOf h1) xs" "stailq_last s h2 = end_slot (FirstOf h2) ys"
    using r1 r2 by (simp_all add: stailq_rep_def)
  have sl: "stailq_slot ?s' = (stailq_slot s)(FirstOf h1 := Some (head_of ys), FirstOf h2 := Some (head_of xs))"
    and lv: "stailq_live ?s' = stailq_live s"
    using first h by (simp_all add: STAILQ_SWAP_def Let_def STAILQ_EMPTY_first)
  have la: "stailq_last ?s' h1 = end_slot (FirstOf h1) ys" "stailq_last ?s' h2 = end_slot (FirstOf h2) xs"
    using first last h by (auto simp: STAILQ_SWAP_def Let_def STAILQ_EMPTY_first end_slot_def)
  have "chain (stailq_slot ?s') (FirstOf h1) ys" "chain (stailq_slot ?s') (FirstOf h2) xs"
    using r1 r2 h by (auto simp: sl stailq_rep_def elim!: chain_rehead)
  then show ?thesis using la lv by (simp add: stailq_rep_def)
qed

section \<open>The family meets the contracts\<close>

interpretation stailq: tail_queue "stailq_rep h" STAILQ_NEXT stailq_live "\<lambda>s. STAILQ_INIT s h"
  "\<lambda>s. STAILQ_FIRST s h" "\<lambda>s. STAILQ_INSERT_HEAD s h" "\<lambda>s. STAILQ_INSERT_AFTER s h"
  "\<lambda>s x. Option.bind (STAILQ_REMOVE s h x) (\<lambda>r. r)"
  "\<lambda>s. STAILQ_INSERT_TAIL s h" "\<lambda>s. STAILQ_LAST s h" "\<lambda>s. STAILQ_REMOVE_HEAD s h" for h
proof unfold_locales
  fix s :: stailq_store and xs ys zs :: "nat list" and x y :: nat
  show "stailq_rep h (STAILQ_INIT s h) [] \<and> stailq_live (STAILQ_INIT s h) = stailq_live s"
    using STAILQ_INIT_rep by blast
  show "STAILQ_FIRST s h = head_of xs" if "stailq_rep h s xs" using that by (rule stailq_rep_first)
  show "STAILQ_NEXT s x = Some (head_of zs)" if "stailq_rep h s (ys @ x # zs)" using that by (rule stailq_rep_next)
  show "set xs \<subseteq> stailq_live s \<and> distinct xs" if "stailq_rep h s xs"
    using that stailq_rep_live stailq_rep_distinct by blast
  show "\<exists>s'. STAILQ_INSERT_HEAD s h x = Some s' \<and> stailq_rep h s' (x # xs) \<and> stailq_live s' = stailq_live s"
    if "stailq_rep h s xs" "x \<in> stailq_live s" "x \<notin> set xs"
    using STAILQ_INSERT_HEAD_rep [OF that] by blast
  show "\<exists>s'. STAILQ_INSERT_AFTER s h y x = Some s' \<and> stailq_rep h s' (ys @ y # x # zs) \<and> stailq_live s' = stailq_live s"
    if "stailq_rep h s (ys @ y # zs)" "x \<in> stailq_live s" "x \<notin> set (ys @ y # zs)"
    using STAILQ_INSERT_AFTER_rep [OF that] by blast
  show "\<exists>s'. Option.bind (STAILQ_REMOVE s h x) (\<lambda>r. r) = Some s' \<and> stailq_rep h s' (ys @ zs) \<and>
      stailq_live s' = stailq_live s" if "stailq_rep h s (ys @ x # zs)"
    using STAILQ_REMOVE_rep [OF that] by auto
  show "\<exists>s'. STAILQ_INSERT_TAIL s h x = Some s' \<and> stailq_rep h s' (xs @ [x]) \<and> stailq_live s' = stailq_live s"
    if "stailq_rep h s xs" "x \<in> stailq_live s" "x \<notin> set xs"
    using STAILQ_INSERT_TAIL_rep [OF that] by blast
  show "STAILQ_LAST s h = Some (if xs = [] then None else Some (last xs))" if "stailq_rep h s xs"
    using that by (rule STAILQ_LAST_rep)
  show "\<exists>s'. STAILQ_REMOVE_HEAD s h = Some s' \<and> stailq_rep h s' xs \<and> stailq_live s' = stailq_live s"
    if "stailq_rep h s (x # xs)"
    using STAILQ_REMOVE_HEAD_rep [OF that] by blast
qed

end
