(* ===== verification/Queue_Tailq.thy ===== *)
theory Queue_Tailq
  imports Intrusive_Lists
begin

text \<open>
  The doubly linked tail queues (\<open>TAILQ\<close>) of \<open>server/queue.h\<close>. The head holds the first
  element and the address of the last next pointer; an element holds the next element and the
  address of the pointer that points to it. Head and entry have the same layout, a pointer to an
  element followed by a pointer to such a pointer, and \<open>TAILQ_LAST\<close> and \<open>TAILQ_PREV\<close>
  read an entry as a head: the second field of the pair that starts at a given slot. The macros are
  translated statement by statement; the traces and the link trashing of the debug
  configuration are in \<open>Queue_Debug\<close>.
\<close>

section \<open>Declarations\<close>

record tailq_head =
  tqh_first :: "nat option"
  tqh_last :: slot

record tailq_entry =
  tqe_next :: "nat option"
  tqe_prev :: slot

record tailq_store =
  tailq_heads :: "nat \<Rightarrow> tailq_head"
  tailq_nodes :: "nat \<rightharpoonup> tailq_entry"

definition TAILQ_HEAD_INITIALIZER :: "nat \<Rightarrow> tailq_head" where
  "TAILQ_HEAD_INITIALIZER head = \<lparr>tqh_first = None, tqh_last = FirstOf head\<rparr>"

section \<open>Macros\<close>

definition TAILQ_FIRST :: "tailq_store \<Rightarrow> nat \<Rightarrow> nat option" where
  "TAILQ_FIRST s head = tqh_first (tailq_heads s head)"

definition TAILQ_EMPTY :: "tailq_store \<Rightarrow> nat \<Rightarrow> bool" where
  "TAILQ_EMPTY s head \<longleftrightarrow> tqh_first (tailq_heads s head) = None"

definition TAILQ_NEXT :: "tailq_store \<Rightarrow> nat \<Rightarrow> nat option option" where
  "TAILQ_NEXT s elm = map_option tqe_next (tailq_nodes s elm)"

text \<open>Reading the other fields, the pointer in a slot, and the assignments the macros make.\<close>

definition tailq_last :: "tailq_store \<Rightarrow> nat \<Rightarrow> slot" where
  "tailq_last s h = tqh_last (tailq_heads s h)"

definition tailq_prev :: "tailq_store \<Rightarrow> nat \<Rightarrow> slot option" where
  "tailq_prev s elm = map_option tqe_prev (tailq_nodes s elm)"

definition tailq_slot :: "tailq_store \<Rightarrow> slot \<Rightarrow> nat option option" where
  "tailq_slot s p = (case p of FirstOf h \<Rightarrow> Some (TAILQ_FIRST s h) | NextOf x \<Rightarrow> TAILQ_NEXT s x)"

definition tailq_put_first :: "tailq_store \<Rightarrow> nat \<Rightarrow> nat option \<Rightarrow> tailq_store" where
  "tailq_put_first s h v = s\<lparr>tailq_heads := (tailq_heads s)(h := (tailq_heads s h)\<lparr>tqh_first := v\<rparr>)\<rparr>"

definition tailq_put_last :: "tailq_store \<Rightarrow> nat \<Rightarrow> slot \<Rightarrow> tailq_store" where
  "tailq_put_last s h p = s\<lparr>tailq_heads := (tailq_heads s)(h := (tailq_heads s h)\<lparr>tqh_last := p\<rparr>)\<rparr>"

definition tailq_put_next :: "tailq_store \<Rightarrow> nat \<Rightarrow> nat option \<Rightarrow> tailq_store option" where
  "tailq_put_next s x v =
     (case tailq_nodes s x of
        None \<Rightarrow> None
      | Some e \<Rightarrow> Some (s\<lparr>tailq_nodes := (tailq_nodes s)(x \<mapsto> e\<lparr>tqe_next := v\<rparr>)\<rparr>))"

definition tailq_put_prev :: "tailq_store \<Rightarrow> nat \<Rightarrow> slot \<Rightarrow> tailq_store option" where
  "tailq_put_prev s x p =
     (case tailq_nodes s x of
        None \<Rightarrow> None
      | Some e \<Rightarrow> Some (s\<lparr>tailq_nodes := (tailq_nodes s)(x \<mapsto> e\<lparr>tqe_prev := p\<rparr>)\<rparr>))"

definition tailq_put_slot :: "tailq_store \<Rightarrow> slot \<Rightarrow> nat option \<Rightarrow> tailq_store option" where
  "tailq_put_slot s p v = (case p of FirstOf h \<Rightarrow> Some (tailq_put_first s h v) | NextOf x \<Rightarrow> tailq_put_next s x v)"

text \<open>The second field of the head or entry whose first field is the given slot.\<close>

definition tailq_second :: "tailq_store \<Rightarrow> slot \<Rightarrow> slot option" where
  "tailq_second s p = (case p of FirstOf h \<Rightarrow> Some (tailq_last s h) | NextOf x \<Rightarrow> tailq_prev s x)"

definition TAILQ_LAST :: "tailq_store \<Rightarrow> nat \<Rightarrow> nat option option" where
  "TAILQ_LAST s head = do {
     p \<leftarrow> tailq_second s (tailq_last s head);
     tailq_slot s p
   }"

definition TAILQ_PREV :: "tailq_store \<Rightarrow> nat \<Rightarrow> nat option option" where
  "TAILQ_PREV s elm = do {
     q \<leftarrow> tailq_prev s elm;
     p \<leftarrow> tailq_second s q;
     tailq_slot s p
   }"

definition TAILQ_INIT :: "tailq_store \<Rightarrow> nat \<Rightarrow> tailq_store" where
  "TAILQ_INIT s head = tailq_put_last (tailq_put_first s head None) head (FirstOf head)"

definition TAILQ_CONCAT :: "tailq_store \<Rightarrow> nat \<Rightarrow> nat \<Rightarrow> tailq_store option" where
  "TAILQ_CONCAT s head1 head2 =
     (if \<not> TAILQ_EMPTY s head2 then do {
        s1 \<leftarrow> tailq_put_slot s (tailq_last s head1) (TAILQ_FIRST s head2);
        f \<leftarrow> TAILQ_FIRST s1 head2;
        s2 \<leftarrow> tailq_put_prev s1 f (tailq_last s1 head1);
        let s3 = tailq_put_last s2 head1 (tailq_last s2 head2);
        Some (TAILQ_INIT s3 head2)
      } else Some s)"

definition TAILQ_INSERT_AFTER :: "tailq_store \<Rightarrow> nat \<Rightarrow> nat \<Rightarrow> nat \<Rightarrow> tailq_store option" where
  "TAILQ_INSERT_AFTER s head listelm elm = do {
     n \<leftarrow> TAILQ_NEXT s listelm;
     s1 \<leftarrow> tailq_put_next s elm n;
     s2 \<leftarrow> (case n of
              Some f \<Rightarrow> tailq_put_prev s1 f (NextOf elm)
            | None \<Rightarrow> Some (tailq_put_last s1 head (NextOf elm)));
     s3 \<leftarrow> tailq_put_next s2 listelm (Some elm);
     tailq_put_prev s3 elm (NextOf listelm)
   }"

definition TAILQ_INSERT_BEFORE :: "tailq_store \<Rightarrow> nat \<Rightarrow> nat \<Rightarrow> tailq_store option" where
  "TAILQ_INSERT_BEFORE s listelm elm = do {
     p \<leftarrow> tailq_prev s listelm;
     s1 \<leftarrow> tailq_put_prev s elm p;
     s2 \<leftarrow> tailq_put_next s1 elm (Some listelm);
     p2 \<leftarrow> tailq_prev s2 listelm;
     s3 \<leftarrow> tailq_put_slot s2 p2 (Some elm);
     tailq_put_prev s3 listelm (NextOf elm)
   }"

definition TAILQ_INSERT_HEAD :: "tailq_store \<Rightarrow> nat \<Rightarrow> nat \<Rightarrow> tailq_store option" where
  "TAILQ_INSERT_HEAD s head elm = do {
     let n = TAILQ_FIRST s head;
     s1 \<leftarrow> tailq_put_next s elm n;
     s2 \<leftarrow> (case n of
              Some f \<Rightarrow> tailq_put_prev s1 f (NextOf elm)
            | None \<Rightarrow> Some (tailq_put_last s1 head (NextOf elm)));
     let s3 = tailq_put_first s2 head (Some elm);
     tailq_put_prev s3 elm (FirstOf head)
   }"

definition TAILQ_INSERT_TAIL :: "tailq_store \<Rightarrow> nat \<Rightarrow> nat \<Rightarrow> tailq_store option" where
  "TAILQ_INSERT_TAIL s head elm = do {
     s1 \<leftarrow> tailq_put_next s elm None;
     s2 \<leftarrow> tailq_put_prev s1 elm (tailq_last s1 head);
     s3 \<leftarrow> tailq_put_slot s2 (tailq_last s2 head) (Some elm);
     Some (tailq_put_last s3 head (NextOf elm))
   }"

definition TAILQ_REMOVE :: "tailq_store \<Rightarrow> nat \<Rightarrow> nat \<Rightarrow> tailq_store option" where
  "TAILQ_REMOVE s head elm = do {
     n \<leftarrow> TAILQ_NEXT s elm;
     p \<leftarrow> tailq_prev s elm;
     s1 \<leftarrow> (case n of
              Some f \<Rightarrow> tailq_put_prev s f p
            | None \<Rightarrow> Some (tailq_put_last s head p));
     p1 \<leftarrow> tailq_prev s1 elm;
     n1 \<leftarrow> TAILQ_NEXT s1 elm;
     tailq_put_slot s1 p1 n1
   }"

definition TAILQ_SWAP :: "tailq_store \<Rightarrow> nat \<Rightarrow> nat \<Rightarrow> tailq_store option" where
  "TAILQ_SWAP s head1 head2 =
     (let swap_first = TAILQ_FIRST s head1;
          swap_last = tailq_last s head1;
          s1 = tailq_put_first s head1 (TAILQ_FIRST s head2);
          s2 = tailq_put_last s1 head1 (tailq_last s1 head2);
          s3 = tailq_put_first s2 head2 swap_first;
          s4 = tailq_put_last s3 head2 swap_last
      in do {
        s5 \<leftarrow> (case TAILQ_FIRST s4 head1 of
                 Some f \<Rightarrow> tailq_put_prev s4 f (FirstOf head1)
               | None \<Rightarrow> Some (tailq_put_last s4 head1 (FirstOf head1)));
        (case TAILQ_FIRST s5 head2 of
           Some f \<Rightarrow> tailq_put_prev s5 f (FirstOf head2)
         | None \<Rightarrow> Some (tailq_put_last s5 head2 (FirstOf head2)))
      })"

text \<open>
  The iteration macros in both directions; \<open>st\<close> is the store as the state of the surrounding
  code holds it. Reading the last element may fail, the first cannot.
\<close>

definition TAILQ_FOREACH ::
    "('c \<Rightarrow> tailq_store) \<Rightarrow> (nat \<Rightarrow> 'c \<Rightarrow> 'c option) \<Rightarrow> nat \<Rightarrow> 'c \<Rightarrow> 'c option option" where
  "TAILQ_FOREACH st body head c = FOREACH_FROM (\<lambda>c. TAILQ_NEXT (st c)) body (TAILQ_FIRST (st c) head) c"

definition TAILQ_FOREACH_FROM ::
    "('c \<Rightarrow> tailq_store) \<Rightarrow> (nat \<Rightarrow> 'c \<Rightarrow> 'c option) \<Rightarrow> nat option \<Rightarrow> nat \<Rightarrow> 'c \<Rightarrow> 'c option option" where
  "TAILQ_FOREACH_FROM st body var head c =
     FOREACH_FROM (\<lambda>c. TAILQ_NEXT (st c)) body (foreach_start var (TAILQ_FIRST (st c) head)) c"

definition TAILQ_FOREACH_SAFE ::
    "('c \<Rightarrow> tailq_store) \<Rightarrow> (nat \<Rightarrow> 'c \<Rightarrow> 'c option) \<Rightarrow> nat \<Rightarrow> 'c \<Rightarrow> 'c option option" where
  "TAILQ_FOREACH_SAFE st body head c =
     FOREACH_FROM_SAFE (\<lambda>c. TAILQ_NEXT (st c)) body (TAILQ_FIRST (st c) head) c"

definition TAILQ_FOREACH_FROM_SAFE ::
    "('c \<Rightarrow> tailq_store) \<Rightarrow> (nat \<Rightarrow> 'c \<Rightarrow> 'c option) \<Rightarrow> nat option \<Rightarrow> nat \<Rightarrow> 'c \<Rightarrow> 'c option option" where
  "TAILQ_FOREACH_FROM_SAFE st body var head c =
     FOREACH_FROM_SAFE (\<lambda>c. TAILQ_NEXT (st c)) body (foreach_start var (TAILQ_FIRST (st c) head)) c"

definition TAILQ_FOREACH_REVERSE ::
    "('c \<Rightarrow> tailq_store) \<Rightarrow> (nat \<Rightarrow> 'c \<Rightarrow> 'c option) \<Rightarrow> nat \<Rightarrow> 'c \<Rightarrow> 'c option option" where
  "TAILQ_FOREACH_REVERSE st body head c =
     (case TAILQ_LAST (st c) head of
        None \<Rightarrow> Some None
      | Some l \<Rightarrow> FOREACH_FROM (\<lambda>c. TAILQ_PREV (st c)) body l c)"

definition TAILQ_FOREACH_REVERSE_FROM ::
    "('c \<Rightarrow> tailq_store) \<Rightarrow> (nat \<Rightarrow> 'c \<Rightarrow> 'c option) \<Rightarrow> nat option \<Rightarrow> nat \<Rightarrow> 'c \<Rightarrow> 'c option option" where
  "TAILQ_FOREACH_REVERSE_FROM st body var head c =
     (case (case var of Some x \<Rightarrow> Some (Some x) | None \<Rightarrow> TAILQ_LAST (st c) head) of
        None \<Rightarrow> Some None
      | Some l \<Rightarrow> FOREACH_FROM (\<lambda>c. TAILQ_PREV (st c)) body l c)"

definition TAILQ_FOREACH_REVERSE_SAFE ::
    "('c \<Rightarrow> tailq_store) \<Rightarrow> (nat \<Rightarrow> 'c \<Rightarrow> 'c option) \<Rightarrow> nat \<Rightarrow> 'c \<Rightarrow> 'c option option" where
  "TAILQ_FOREACH_REVERSE_SAFE st body head c =
     (case TAILQ_LAST (st c) head of
        None \<Rightarrow> Some None
      | Some l \<Rightarrow> FOREACH_FROM_SAFE (\<lambda>c. TAILQ_PREV (st c)) body l c)"

definition TAILQ_FOREACH_REVERSE_FROM_SAFE ::
    "('c \<Rightarrow> tailq_store) \<Rightarrow> (nat \<Rightarrow> 'c \<Rightarrow> 'c option) \<Rightarrow> nat option \<Rightarrow> nat \<Rightarrow> 'c \<Rightarrow> 'c option option" where
  "TAILQ_FOREACH_REVERSE_FROM_SAFE st body var head c =
     (case (case var of Some x \<Rightarrow> Some (Some x) | None \<Rightarrow> TAILQ_LAST (st c) head) of
        None \<Rightarrow> Some None
      | Some l \<Rightarrow> FOREACH_FROM_SAFE (\<lambda>c. TAILQ_PREV (st c)) body l c)"

text \<open>
  The consistency checks of the \<open>INVARIANTS\<close> configuration: \<open>Some True\<close> passes,
  \<open>Some False\<close> is the panic and \<open>None\<close> an access to an element that is not allocated.
\<close>

definition QMD_TAILQ_CHECK_HEAD :: "tailq_store \<Rightarrow> nat \<Rightarrow> bool option" where
  "QMD_TAILQ_CHECK_HEAD s head =
     (case TAILQ_FIRST s head of
        None \<Rightarrow> Some True
      | Some f \<Rightarrow> map_option (\<lambda>p. p = FirstOf head) (tailq_prev s f))"

definition QMD_TAILQ_CHECK_TAIL :: "tailq_store \<Rightarrow> nat \<Rightarrow> bool option" where
  "QMD_TAILQ_CHECK_TAIL s head = map_option (\<lambda>n. n = None) (tailq_slot s (tailq_last s head))"

definition QMD_TAILQ_CHECK_NEXT :: "tailq_store \<Rightarrow> nat \<Rightarrow> bool option" where
  "QMD_TAILQ_CHECK_NEXT s elm =
     (case TAILQ_NEXT s elm of
        None \<Rightarrow> None
      | Some None \<Rightarrow> Some True
      | Some (Some n) \<Rightarrow> map_option (\<lambda>p. p = NextOf elm) (tailq_prev s n))"

definition QMD_TAILQ_CHECK_PREV :: "tailq_store \<Rightarrow> nat \<Rightarrow> bool option" where
  "QMD_TAILQ_CHECK_PREV s elm =
     (case tailq_prev s elm of
        None \<Rightarrow> None
      | Some p \<Rightarrow> map_option (\<lambda>n. n = Some elm) (tailq_slot s p))"

section \<open>Reading and writing links\<close>

definition tailq_live :: "tailq_store \<Rightarrow> nat set" where
  "tailq_live s = dom (tailq_nodes s)"

definition tailq_set_next :: "tailq_store \<Rightarrow> nat \<Rightarrow> nat option \<Rightarrow> tailq_store" where
  "tailq_set_next s x v =
     s\<lparr>tailq_nodes := (tailq_nodes s)(x := map_option (\<lambda>e. e\<lparr>tqe_next := v\<rparr>) (tailq_nodes s x))\<rparr>"

definition tailq_set_prev :: "tailq_store \<Rightarrow> nat \<Rightarrow> slot \<Rightarrow> tailq_store" where
  "tailq_set_prev s x p =
     s\<lparr>tailq_nodes := (tailq_nodes s)(x := map_option (\<lambda>e. e\<lparr>tqe_prev := p\<rparr>) (tailq_nodes s x))\<rparr>"

definition tailq_set_slot :: "tailq_store \<Rightarrow> slot \<Rightarrow> nat option \<Rightarrow> tailq_store" where
  "tailq_set_slot s p v = (case p of FirstOf h \<Rightarrow> tailq_put_first s h v | NextOf x \<Rightarrow> tailq_set_next s x v)"

text \<open>The pointer back to \<open>p\<close> is kept by the following element or, at the end, by the head.\<close>

definition tailq_set_back :: "tailq_store \<Rightarrow> nat \<Rightarrow> nat option \<Rightarrow> slot \<Rightarrow> tailq_store" where
  "tailq_set_back s h n p = (case n of Some f \<Rightarrow> tailq_set_prev s f p | None \<Rightarrow> tailq_put_last s h p)"

lemmas tailq_store_defs = tailq_slot_def TAILQ_FIRST_def TAILQ_NEXT_def tailq_prev_def tailq_last_def tailq_live_def
  tailq_set_next_def tailq_set_prev_def tailq_set_slot_def tailq_set_back_def
  tailq_put_first_def tailq_put_last_def tailq_put_next_def tailq_put_prev_def tailq_put_slot_def

lemma TAILQ_NEXT_slot: "TAILQ_NEXT s x = tailq_slot s (NextOf x)"
  and TAILQ_FIRST_slot: "tailq_slot s (FirstOf h) = Some (TAILQ_FIRST s h)"
  by (simp_all add: tailq_slot_def)

lemma tailq_live_iff: "x \<in> tailq_live s \<longleftrightarrow> tailq_slot s (NextOf x) \<noteq> None"
  by (auto simp: tailq_store_defs)

lemma tailq_put_live [simp]:
  "x \<in> tailq_live s \<Longrightarrow> tailq_put_next s x v = Some (tailq_set_next s x v)"
  "x \<in> tailq_live s \<Longrightarrow> tailq_put_prev s x p = Some (tailq_set_prev s x p)"
  "tailq_slot s q \<noteq> None \<Longrightarrow> tailq_put_slot s q v = Some (tailq_set_slot s q v)"
  by (auto simp: tailq_store_defs split: slot.splits)

lemma tailq_put_back [simp]:
  "(\<And>f. n = Some f \<Longrightarrow> f \<in> tailq_live s) \<Longrightarrow>
    (case n of None \<Rightarrow> Some (tailq_put_last s h p) | Some f \<Rightarrow> tailq_put_prev s f p) = Some (tailq_set_back s h n p)"
  by (auto simp: tailq_set_back_def split: option.splits)

lemma tailq_live_set [simp]:
  "tailq_live (tailq_set_next s x v) = tailq_live s" "tailq_live (tailq_set_prev s x p) = tailq_live s"
  "tailq_live (tailq_set_slot s q v) = tailq_live s" "tailq_live (tailq_set_back s h n p) = tailq_live s"
  "tailq_live (tailq_put_first s h v) = tailq_live s" "tailq_live (tailq_put_last s h p) = tailq_live s"
  by (auto simp: tailq_store_defs split: if_splits slot.splits option.splits)

lemma tailq_slot_set [simp]:
  "x \<in> tailq_live s \<Longrightarrow> tailq_slot (tailq_set_next s x v) = (tailq_slot s)(NextOf x := Some v)"
  "tailq_slot s q \<noteq> None \<Longrightarrow> tailq_slot (tailq_set_slot s q v) = (tailq_slot s)(q := Some v)"
  "tailq_slot (tailq_put_first s h v) = (tailq_slot s)(FirstOf h := Some v)"
  "tailq_slot (tailq_put_last s h p) = tailq_slot s" "tailq_slot (tailq_set_prev s x p) = tailq_slot s"
  "tailq_slot (tailq_set_back s h n p) = tailq_slot s"
  by (auto simp: tailq_store_defs fun_eq_iff option.map_comp o_def split: slot.splits option.splits)

lemma tailq_prev_set [simp]:
  "x \<in> tailq_live s \<Longrightarrow> tailq_prev (tailq_set_prev s x p) = (tailq_prev s)(x := Some p)"
  "tailq_prev (tailq_set_next s x v) = tailq_prev s" "tailq_prev (tailq_set_slot s q v) = tailq_prev s"
  "tailq_prev (tailq_put_first s h v) = tailq_prev s" "tailq_prev (tailq_put_last s h p) = tailq_prev s"
  "(\<And>f. n = Some f \<Longrightarrow> f \<in> tailq_live s) \<Longrightarrow>
    tailq_prev (tailq_set_back s h n p) = (\<lambda>y. if n = Some y then Some p else tailq_prev s y)"
  by (auto simp: tailq_store_defs fun_eq_iff option.map_comp o_def split: slot.splits option.splits)

lemma tailq_last_set [simp]:
  "tailq_last (tailq_put_last s h p) = (tailq_last s)(h := p)"
  "tailq_last (tailq_set_next s x v) = tailq_last s" "tailq_last (tailq_set_prev s x p) = tailq_last s"
  "tailq_last (tailq_set_slot s q v) = tailq_last s" "tailq_last (tailq_put_first s h v) = tailq_last s"
  "tailq_last (tailq_set_back s h n p) = (if n = None then (tailq_last s)(h := p) else tailq_last s)"
  by (auto simp: tailq_store_defs fun_eq_iff split: slot.splits option.splits)

lemma TAILQ_FIRST_set [simp]:
  "TAILQ_FIRST (tailq_put_first s h v) h' = (if h' = h then v else TAILQ_FIRST s h')"
  "TAILQ_FIRST (tailq_put_last s h p) h' = TAILQ_FIRST s h'"
  "TAILQ_FIRST (tailq_set_back s h n p) h' = TAILQ_FIRST s h'"
  by (simp_all add: tailq_store_defs split: option.splits)

lemma TAILQ_EMPTY_first: "TAILQ_EMPTY s h \<longleftrightarrow> TAILQ_FIRST s h = None"
  by (simp add: TAILQ_EMPTY_def TAILQ_FIRST_def)

section \<open>The represented queue\<close>

definition tailq_rep :: "nat \<Rightarrow> tailq_store \<Rightarrow> nat list \<Rightarrow> bool" where
  "tailq_rep h s xs \<longleftrightarrow> chain (tailq_slot s) (FirstOf h) xs \<and> backs (tailq_prev s) (FirstOf h) xs \<and>
     tailq_last s h = end_slot (FirstOf h) xs"

lemma tailq_rep_first: "tailq_rep h s xs \<Longrightarrow> TAILQ_FIRST s h = head_of xs"
  using chain_head [of "tailq_slot s" "FirstOf h" xs] by (simp add: tailq_rep_def TAILQ_FIRST_slot)

lemma tailq_rep_live: "tailq_rep h s xs \<Longrightarrow> set xs \<subseteq> tailq_live s"
  by (auto simp: tailq_rep_def tailq_live_iff dest: chain_alloc)

lemma tailq_rep_distinct: "tailq_rep h s xs \<Longrightarrow> distinct xs"
  by (auto simp: tailq_rep_def dest: chain_distinct)

lemma tailq_rep_slot:
  assumes "tailq_rep h s (ys @ zs)"
  shows "tailq_slot s (end_slot (FirstOf h) ys) = Some (head_of zs)"
    and "\<And>f. head_of zs = Some f \<Longrightarrow> tailq_prev s f = Some (end_slot (FirstOf h) ys) \<and> f \<in> tailq_live s"
proof -
  show "tailq_slot s (end_slot (FirstOf h) ys) = Some (head_of zs)"
    using assms by (auto simp: tailq_rep_def dest: chain_slot)
  show "tailq_prev s f = Some (end_slot (FirstOf h) ys) \<and> f \<in> tailq_live s" if "head_of zs = Some f" for f
    using assms that tailq_rep_live [OF assms] by (cases zs) (auto simp: tailq_rep_def dest: backs_at)
qed

lemma tailq_rep_next: "tailq_rep h s (ys @ x # zs) \<Longrightarrow> TAILQ_NEXT s x = Some (head_of zs)"
  using tailq_rep_slot(1) [of h s "ys @ [x]" zs] by (simp add: TAILQ_NEXT_slot)

lemma tailq_rep_other:
  assumes "tailq_rep h' s ws" and "h' \<noteq> h" and "set ws \<inter> A = {}"
    and "\<And>q. q \<noteq> FirstOf h \<Longrightarrow> q \<notin> NextOf ` A \<Longrightarrow> tailq_slot s' q = tailq_slot s q"
    and "\<And>x. x \<notin> A \<Longrightarrow> tailq_prev s' x = tailq_prev s x"
    and "tailq_last s' h' = tailq_last s h'"
  shows "tailq_rep h' s' ws"
proof -
  have "chain (tailq_slot s') (FirstOf h') ws = chain (tailq_slot s) (FirstOf h') ws"
    by (rule chain_frame) (use assms(2-4) in auto)
  moreover have "backs (tailq_prev s') (FirstOf h') ws = backs (tailq_prev s) (FirstOf h') ws"
    by (rule backs_frame) (use assms(3,5) in auto)
  ultimately show ?thesis using assms(1,6) by (simp add: tailq_rep_def)
qed

lemma TAILQ_INIT_rep:
  "tailq_rep h (TAILQ_INIT s h) [] \<and> tailq_live (TAILQ_INIT s h) = tailq_live s \<and>
    (\<forall>h' ws. h' \<noteq> h \<longrightarrow> tailq_rep h' s ws \<longrightarrow> tailq_rep h' (TAILQ_INIT s h) ws)"
proof (intro conjI allI impI)
  show "tailq_rep h (TAILQ_INIT s h) []" "tailq_live (TAILQ_INIT s h) = tailq_live s"
    by (simp_all add: tailq_rep_def TAILQ_INIT_def)
  fix h' ws
  assume h: "h' \<noteq> h" and ws: "tailq_rep h' s ws"
  show "tailq_rep h' (TAILQ_INIT s h) ws"
    by (rule tailq_rep_other [OF ws h, where A = "{}"]) (use h in \<open>auto simp: TAILQ_INIT_def\<close>)
qed

text \<open>
  The last element and the predecessor, through the second field of the pair that the last next
  pointer or the pointer to the element belongs to.
\<close>

lemma tailq_before_rep:
  assumes rep: "tailq_rep h s (ys @ zs)"
  shows "Option.bind (tailq_second s (end_slot (FirstOf h) ys)) (tailq_slot s) =
    Some (if ys = [] then None else Some (last ys))"
proof (cases ys rule: rev_cases)
  case Nil
  then show ?thesis
    using rep tailq_rep_slot(1) [of h s zs "[]"] by (simp add: tailq_second_def tailq_rep_def)
next
  case (snoc us u)
  then have "tailq_rep h s (us @ u # zs)" using rep by simp
  from tailq_rep_slot [OF this] snoc show ?thesis by (simp add: tailq_second_def)
qed

lemma TAILQ_LAST_rep:
  assumes "tailq_rep h s xs"
  shows "TAILQ_LAST s h = Some (if xs = [] then None else Some (last xs))"
  using tailq_before_rep [of h s xs "[]"] assms by (simp add: TAILQ_LAST_def tailq_rep_def)

lemma TAILQ_PREV_rep:
  assumes "tailq_rep h s (ys @ x # zs)"
  shows "TAILQ_PREV s x = Some (if ys = [] then None else Some (last ys))"
  using tailq_before_rep [OF assms] tailq_rep_slot(2) [OF assms] by (simp add: TAILQ_PREV_def)

section \<open>Inserting and removing elements\<close>

lemma tailq_splice_in:
  fixes h s ys zs x
  defines "q \<equiv> end_slot (FirstOf h) ys"
  assumes rep: "tailq_rep h s (ys @ zs)" and x: "x \<notin> set (ys @ zs)"
    and sl: "\<And>p. tailq_slot s' p = (if p = q then Some (Some x) else if p = NextOf x then Some (head_of zs)
      else tailq_slot s p)"
    and pv: "\<And>y. tailq_prev s' y = (if y = x then Some q else if head_of zs = Some y then Some (NextOf x)
      else tailq_prev s y)"
    and la: "tailq_last s' = (if zs = [] then (tailq_last s)(h := NextOf x) else tailq_last s)"
  shows "tailq_rep h s' (ys @ x # zs) \<and>
    (\<forall>h' ws. h' \<noteq> h \<longrightarrow> set ws \<inter> set (ys @ x # zs) = {} \<longrightarrow> tailq_rep h' s ws \<longrightarrow> tailq_rep h' s' ws)"
proof -
  have "q \<noteq> NextOf x" using x end_slot_next [of x ys h] by (simp add: q_def)
  then have "chain (tailq_slot s') (FirstOf h) (ys @ x # zs)"
    by (intro chain_splice_in [of "tailq_slot s"]) (use rep x in \<open>auto simp: tailq_rep_def sl q_def\<close>)
  moreover have "backs (tailq_prev s') (FirstOf h) (ys @ x # zs)"
    by (rule backs_splice_in [of "tailq_prev s"])
      (use rep x tailq_rep_distinct [OF rep] in \<open>auto simp: tailq_rep_def pv q_def dest: head_of_in\<close>)
  moreover have "tailq_last s' h = end_slot (FirstOf h) (ys @ x # zs)"
    using rep la by (auto simp: tailq_rep_def end_slot_def)
  moreover have "tailq_rep h' s' ws"
    if "h' \<noteq> h" "set ws \<inter> set (ys @ x # zs) = {}" "tailq_rep h' s ws" for h' ws
    by (rule tailq_rep_other [OF that(3,1,2)])
      (use that end_slot_cases [of "FirstOf h" ys] in \<open>auto simp: sl pv la q_def dest: head_of_in\<close>)
  ultimately show ?thesis by (simp add: tailq_rep_def)
qed

lemma TAILQ_INSERT_HEAD_rep:
  assumes rep: "tailq_rep h s xs" and x: "x \<in> tailq_live s" "x \<notin> set xs"
  shows "\<exists>s'. TAILQ_INSERT_HEAD s h x = Some s' \<and> tailq_rep h s' (x # xs) \<and> tailq_live s' = tailq_live s \<and>
    (\<forall>h' ws. h' \<noteq> h \<longrightarrow> set ws \<inter> set (x # xs) = {} \<longrightarrow> tailq_rep h' s ws \<longrightarrow> tailq_rep h' s' ws)"
proof -
  let ?n = "head_of xs"
  define s' where "s' =
    tailq_set_prev (tailq_put_first (tailq_set_back (tailq_set_next s x ?n) h ?n (NextOf x)) h (Some x)) x (FirstOf h)"
  have live: "\<And>f. ?n = Some f \<Longrightarrow> f \<in> tailq_live s" using tailq_rep_slot(2) [of h s "[]" xs] rep by auto
  have "TAILQ_INSERT_HEAD s h x = Some s'"
    using x live unfolding TAILQ_INSERT_HEAD_def tailq_rep_first [OF rep] s'_def by (simp add: Let_def)
  moreover have "tailq_rep h s' ([] @ x # xs) \<and> (\<forall>h' ws. h' \<noteq> h \<longrightarrow> set ws \<inter> set ([] @ x # xs) = {} \<longrightarrow>
      tailq_rep h' s ws \<longrightarrow> tailq_rep h' s' ws)"
    by (rule tailq_splice_in) (use rep x live in \<open>simp_all add: s'_def\<close>)
  ultimately show ?thesis by (simp add: s'_def)
qed

lemma TAILQ_INSERT_AFTER_rep:
  assumes rep: "tailq_rep h s (ys @ y # zs)" and x: "x \<in> tailq_live s" "x \<notin> set (ys @ y # zs)"
  shows "\<exists>s'. TAILQ_INSERT_AFTER s h y x = Some s' \<and> tailq_rep h s' (ys @ y # x # zs) \<and> tailq_live s' = tailq_live s \<and>
    (\<forall>h' ws. h' \<noteq> h \<longrightarrow> set ws \<inter> set (ys @ y # x # zs) = {} \<longrightarrow> tailq_rep h' s ws \<longrightarrow> tailq_rep h' s' ws)"
proof -
  let ?n = "head_of zs"
  define s' where "s' =
    tailq_set_prev (tailq_set_next (tailq_set_back (tailq_set_next s x ?n) h ?n (NextOf x)) y (Some x)) x (NextOf y)"
  have live: "\<And>f. ?n = Some f \<Longrightarrow> f \<in> tailq_live s" using tailq_rep_slot(2) [of h s "ys @ [y]" zs] rep by auto
  have y: "y \<in> tailq_live s" using tailq_rep_live [OF rep] by simp
  have "TAILQ_INSERT_AFTER s h y x = Some s'"
    using x y live unfolding TAILQ_INSERT_AFTER_def tailq_rep_next [OF rep] s'_def by simp
  moreover have "tailq_rep h s' ((ys @ [y]) @ x # zs) \<and> (\<forall>h' ws. h' \<noteq> h \<longrightarrow> set ws \<inter> set ((ys @ [y]) @ x # zs) = {} \<longrightarrow>
      tailq_rep h' s ws \<longrightarrow> tailq_rep h' s' ws)"
    by (rule tailq_splice_in) (use rep x y live in \<open>auto simp: s'_def\<close>)
  ultimately show ?thesis by (simp add: s'_def)
qed

lemma TAILQ_INSERT_BEFORE_rep:
  assumes rep: "tailq_rep h s (ys @ z # zs)" and x: "x \<in> tailq_live s" "x \<notin> set (ys @ z # zs)"
  shows "\<exists>s'. TAILQ_INSERT_BEFORE s z x = Some s' \<and> tailq_rep h s' (ys @ x # z # zs) \<and> tailq_live s' = tailq_live s \<and>
    (\<forall>h' ws. h' \<noteq> h \<longrightarrow> set ws \<inter> set (ys @ x # z # zs) = {} \<longrightarrow> tailq_rep h' s ws \<longrightarrow> tailq_rep h' s' ws)"
proof -
  let ?q = "end_slot (FirstOf h) ys"
  define s' where "s' =
    tailq_set_prev (tailq_set_slot (tailq_set_next (tailq_set_prev s x ?q) x (Some z)) ?q (Some x)) z (NextOf x)"
  have slot: "tailq_slot s ?q = Some (Some z)" and prv: "tailq_prev s z = Some ?q" and z: "z \<in> tailq_live s"
    using tailq_rep_slot [OF rep] by simp_all
  have xz: "x \<noteq> z" and qx: "?q \<noteq> NextOf x" using x end_slot_next [of x ys h] by auto
  have "TAILQ_INSERT_BEFORE s z x = Some s'"
    using x z slot prv xz qx unfolding TAILQ_INSERT_BEFORE_def s'_def by simp
  moreover have "tailq_rep h s' (ys @ x # z # zs) \<and> (\<forall>h' ws. h' \<noteq> h \<longrightarrow> set ws \<inter> set (ys @ x # z # zs) = {} \<longrightarrow>
      tailq_rep h' s ws \<longrightarrow> tailq_rep h' s' ws)"
    by (rule tailq_splice_in) (use rep x z slot xz qx in \<open>auto simp: s'_def\<close>)
  ultimately show ?thesis by (simp add: s'_def)
qed

lemma TAILQ_INSERT_TAIL_rep:
  assumes rep: "tailq_rep h s xs" and x: "x \<in> tailq_live s" "x \<notin> set xs"
  shows "\<exists>s'. TAILQ_INSERT_TAIL s h x = Some s' \<and> tailq_rep h s' (xs @ [x]) \<and> tailq_live s' = tailq_live s \<and>
    (\<forall>h' ws. h' \<noteq> h \<longrightarrow> set ws \<inter> set (xs @ [x]) = {} \<longrightarrow> tailq_rep h' s ws \<longrightarrow> tailq_rep h' s' ws)"
proof -
  let ?q = "end_slot (FirstOf h) xs"
  define s' where "s' =
    tailq_put_last (tailq_set_slot (tailq_set_prev (tailq_set_next s x None) x ?q) ?q (Some x)) h (NextOf x)"
  have q: "tailq_last s h = ?q" "tailq_slot s ?q = Some None" "?q \<noteq> NextOf x"
    using tailq_rep_slot(1) [of h s xs "[]"] rep x(2) end_slot_next [of x xs h] by (simp_all add: tailq_rep_def)
  then have "TAILQ_INSERT_TAIL s h x = Some s'" using x by (simp add: TAILQ_INSERT_TAIL_def s'_def)
  moreover have "tailq_rep h s' (xs @ x # []) \<and> (\<forall>h' ws. h' \<noteq> h \<longrightarrow> set ws \<inter> set (xs @ x # []) = {} \<longrightarrow>
      tailq_rep h' s ws \<longrightarrow> tailq_rep h' s' ws)"
    by (rule tailq_splice_in) (use rep x q in \<open>simp_all add: s'_def\<close>)
  ultimately show ?thesis by (simp add: s'_def)
qed

lemma TAILQ_REMOVE_rep:
  assumes rep: "tailq_rep h s (ys @ x # zs)"
  shows "\<exists>s'. TAILQ_REMOVE s h x = Some s' \<and> tailq_rep h s' (ys @ zs) \<and> tailq_live s' = tailq_live s \<and>
    (\<forall>h' ws. h' \<noteq> h \<longrightarrow> set ws \<inter> set (ys @ x # zs) = {} \<longrightarrow> tailq_rep h' s ws \<longrightarrow> tailq_rep h' s' ws)"
proof -
  let ?q = "end_slot (FirstOf h) ys" and ?n = "head_of zs"
  define s' where "s' = tailq_set_slot (tailq_set_back s h ?n ?q) ?q ?n"
  have dist: "distinct (ys @ x # zs)" by (rule tailq_rep_distinct [OF rep])
  have at: "tailq_slot s ?q = Some (Some x)" "tailq_prev s x = Some ?q"
    using tailq_rep_slot [OF rep] by simp_all
  have n: "tailq_slot s (NextOf x) = Some ?n" and live: "\<And>f. ?n = Some f \<Longrightarrow> f \<in> tailq_live s"
    using tailq_rep_slot [of h s "ys @ [x]" zs] rep by auto
  have "?n \<noteq> Some x" using dist by (auto dest: head_of_in)
  then have rm: "TAILQ_REMOVE s h x = Some s'"
    using n at live by (simp add: TAILQ_REMOVE_def TAILQ_NEXT_slot s'_def)
  have sl: "tailq_slot s' = (tailq_slot s)(?q := Some ?n)"
    and pv: "tailq_prev s' = (\<lambda>y. if ?n = Some y then Some ?q else tailq_prev s y)"
    and la: "tailq_last s' = (if zs = [] then (tailq_last s)(h := ?q) else tailq_last s)"
    and lv: "tailq_live s' = tailq_live s"
    using at live by (simp_all add: s'_def)
  have "chain (tailq_slot s') (FirstOf h) (ys @ zs)"
    by (rule chain_splice_out) (use rep in \<open>auto simp: tailq_rep_def sl\<close>)
  moreover have "backs (tailq_prev s') (FirstOf h) (ys @ zs)"
    by (rule backs_splice_out) (use rep dist in \<open>auto simp: tailq_rep_def pv\<close>)
  moreover have "tailq_last s' h = end_slot (FirstOf h) (ys @ zs)"
    using rep la by (auto simp: tailq_rep_def end_slot_def)
  moreover have "tailq_rep h' s' ws"
    if "h' \<noteq> h" "set ws \<inter> set (ys @ x # zs) = {}" "tailq_rep h' s ws" for h' ws
    by (rule tailq_rep_other [OF that(3,1,2)])
      (use that end_slot_cases [of "FirstOf h" ys] in \<open>auto simp: sl pv la dest: head_of_in\<close>)
  ultimately show ?thesis using rm lv by (auto simp: tailq_rep_def)
qed

section \<open>Moving whole queues\<close>

lemma TAILQ_CONCAT_rep:
  assumes r1: "tailq_rep h1 s xs" and r2: "tailq_rep h2 s ys" and h: "h1 \<noteq> h2" and dj: "set xs \<inter> set ys = {}"
  shows "\<exists>s'. TAILQ_CONCAT s h1 h2 = Some s' \<and> tailq_rep h1 s' (xs @ ys) \<and> tailq_rep h2 s' [] \<and>
    tailq_live s' = tailq_live s"
proof (cases ys)
  case Nil
  then show ?thesis
    using r1 r2 tailq_rep_first [OF r2] by (simp add: TAILQ_CONCAT_def TAILQ_EMPTY_first)
next
  case (Cons f ys')
  let ?q = "end_slot (FirstOf h1) xs"
  define s1 where "s1 = tailq_set_slot s ?q (Some f)"
  define s' where "s' = TAILQ_INIT (tailq_put_last (tailq_set_prev s1 f ?q) h1 (end_slot (FirstOf h2) ys)) h2"
  have q: "tailq_last s h1 = ?q" "tailq_slot s ?q = Some None" "?q \<noteq> FirstOf h2"
    using tailq_rep_slot(1) [of h1 s xs "[]"] r1 h by (auto simp: tailq_rep_def end_slot_first)
  have f: "f \<in> tailq_live s" "TAILQ_FIRST s h2 = Some f"
    using tailq_rep_live [OF r2] tailq_rep_first [OF r2] Cons by auto
  have "TAILQ_FIRST s1 h2 = Some f"
    using q f TAILQ_FIRST_slot [of s1 h2] TAILQ_FIRST_slot [of s h2] by (simp add: s1_def)
  then have run: "TAILQ_CONCAT s h1 h2 = Some s'"
    using q f r2 by (simp add: TAILQ_CONCAT_def TAILQ_EMPTY_first s'_def s1_def tailq_rep_def)
  have sl: "tailq_slot s' = (tailq_slot s)(?q := Some (Some f), FirstOf h2 := Some None)"
    and pv: "tailq_prev s' = (tailq_prev s)(f := Some ?q)"
    and la: "tailq_last s' = (tailq_last s)(h1 := end_slot (FirstOf h2) ys, h2 := FirstOf h2)"
    and lv: "tailq_live s' = tailq_live s"
    using q f by (simp_all add: s'_def s1_def TAILQ_INIT_def)
  have "chain (tailq_slot s') (FirstOf h1) (xs @ ys)"
    by (rule chain_graft [of "tailq_slot s" _ _ "FirstOf h2"])
      (use r1 r2 dj h q Cons in \<open>auto simp: tailq_rep_def sl\<close>)
  moreover have "backs (tailq_prev s') (FirstOf h1) (xs @ ys)"
    by (rule backs_graft [of "tailq_prev s" _ _ "FirstOf h2"])
      (use r1 r2 dj tailq_rep_distinct [OF r1] tailq_rep_distinct [OF r2] Cons in \<open>auto simp: tailq_rep_def pv\<close>)
  moreover have "end_slot (FirstOf h2) ys = end_slot (FirstOf h1) (xs @ ys)" using Cons by (simp add: end_slot_def)
  ultimately show ?thesis using run lv h by (simp add: tailq_rep_def sl la)
qed

lemma TAILQ_SWAP_rep:
  assumes r1: "tailq_rep h1 s xs" and r2: "tailq_rep h2 s ys" and h: "h1 \<noteq> h2" and dj: "set xs \<inter> set ys = {}"
  shows "\<exists>s'. TAILQ_SWAP s h1 h2 = Some s' \<and> tailq_rep h1 s' ys \<and> tailq_rep h2 s' xs \<and> tailq_live s' = tailq_live s"
proof -
  let ?m = "head_of xs" and ?n = "head_of ys"
  define s4 where "s4 = tailq_put_last (tailq_put_first (tailq_put_last (tailq_put_first s h1 ?n) h1
    (end_slot (FirstOf h2) ys)) h2 ?m) h2 (end_slot (FirstOf h1) xs)"
  define s' where "s' = tailq_set_back (tailq_set_back s4 h1 ?n (FirstOf h1)) h2 ?m (FirstOf h2)"
  have first: "TAILQ_FIRST s h1 = ?m" "TAILQ_FIRST s h2 = ?n"
    using tailq_rep_first [OF r1] tailq_rep_first [OF r2] .
  have last: "tailq_last s h1 = end_slot (FirstOf h1) xs" "tailq_last s h2 = end_slot (FirstOf h2) ys"
    using r1 r2 by (simp_all add: tailq_rep_def)
  have live: "\<And>f. ?m = Some f \<Longrightarrow> f \<in> tailq_live s" "\<And>f. ?n = Some f \<Longrightarrow> f \<in> tailq_live s"
    using tailq_rep_live [OF r1] tailq_rep_live [OF r2] by (auto dest: head_of_in)
  have run: "TAILQ_SWAP s h1 h2 = Some s'"
    using h live last by (simp add: TAILQ_SWAP_def Let_def first s'_def s4_def)
  have sl: "tailq_slot s' = (tailq_slot s)(FirstOf h1 := Some ?n, FirstOf h2 := Some ?m)"
    and pv: "tailq_prev s' = (\<lambda>y. if ?m = Some y then Some (FirstOf h2) else if ?n = Some y then Some (FirstOf h1)
      else tailq_prev s y)"
    and lv: "tailq_live s' = tailq_live s"
    using live by (auto simp: s'_def s4_def)
  have la: "tailq_last s' h1 = end_slot (FirstOf h1) ys" "tailq_last s' h2 = end_slot (FirstOf h2) xs"
    using h by (auto simp: s'_def s4_def end_slot_def)
  have d: "distinct xs" "distinct ys" using tailq_rep_distinct r1 r2 by auto
  have "chain (tailq_slot s') (FirstOf h1) ys" "chain (tailq_slot s') (FirstOf h2) xs"
    using r1 r2 h by (auto simp: sl tailq_rep_def elim!: chain_rehead)
  moreover have m: "f \<notin> set ys" if "?m = Some f" for f using head_of_in [OF that] dj by auto
  have "backs (tailq_prev s') (FirstOf h1) ys"
    by (rule backs_rehead [of "tailq_prev s" "FirstOf h2"]) (use r2 d m in \<open>auto simp: pv tailq_rep_def dest: head_of_in\<close>)
  moreover have n: "f \<notin> set xs" if "?n = Some f" for f using head_of_in [OF that] dj by auto
  have "backs (tailq_prev s') (FirstOf h2) xs"
    by (rule backs_rehead [of "tailq_prev s" "FirstOf h1"]) (use r1 d n in \<open>auto simp: pv tailq_rep_def\<close>)
  ultimately show ?thesis using run la lv by (simp add: tailq_rep_def)
qed

section \<open>The consistency checks\<close>

text \<open>On a represented queue every check of the \<open>INVARIANTS\<close> configuration passes.\<close>

lemma tailq_rep_check_head: "tailq_rep h s xs \<Longrightarrow> QMD_TAILQ_CHECK_HEAD s h = Some True"
  using tailq_rep_first [of h s xs] tailq_rep_slot(2) [of h s "[]" xs]
  by (auto simp: QMD_TAILQ_CHECK_HEAD_def split: option.splits)

lemma tailq_rep_check_tail: "tailq_rep h s xs \<Longrightarrow> QMD_TAILQ_CHECK_TAIL s h = Some True"
  using tailq_rep_slot(1) [of h s xs "[]"] by (simp add: QMD_TAILQ_CHECK_TAIL_def tailq_rep_def)

lemma tailq_rep_check_next: "tailq_rep h s (ys @ x # zs) \<Longrightarrow> QMD_TAILQ_CHECK_NEXT s x = Some True"
  using tailq_rep_next [of h s ys x zs] tailq_rep_slot(2) [of h s "ys @ [x]" zs]
  by (auto simp: QMD_TAILQ_CHECK_NEXT_def split: option.splits)

lemma tailq_rep_check_prev: "tailq_rep h s (ys @ x # zs) \<Longrightarrow> QMD_TAILQ_CHECK_PREV s x = Some True"
  using tailq_rep_slot [of h s ys "x # zs"] by (simp add: QMD_TAILQ_CHECK_PREV_def)

section \<open>The family meets the contracts\<close>

interpretation tailq: tail_queue "tailq_rep h" TAILQ_NEXT tailq_live "\<lambda>s. TAILQ_INIT s h"
  "\<lambda>s. TAILQ_FIRST s h" "\<lambda>s. TAILQ_INSERT_HEAD s h" "\<lambda>s. TAILQ_INSERT_AFTER s h" "\<lambda>s. TAILQ_REMOVE s h"
  "\<lambda>s. TAILQ_INSERT_TAIL s h" "\<lambda>s. TAILQ_LAST s h"
  "\<lambda>s. Option.bind (TAILQ_FIRST s h) (TAILQ_REMOVE s h)" for h
proof unfold_locales
  fix s :: tailq_store and xs ys zs :: "nat list" and x y :: nat
  show "tailq_rep h (TAILQ_INIT s h) [] \<and> tailq_live (TAILQ_INIT s h) = tailq_live s"
    using TAILQ_INIT_rep by blast
  show "TAILQ_FIRST s h = head_of xs" if "tailq_rep h s xs" using that by (rule tailq_rep_first)
  show "TAILQ_NEXT s x = Some (head_of zs)" if "tailq_rep h s (ys @ x # zs)" using that by (rule tailq_rep_next)
  show "set xs \<subseteq> tailq_live s \<and> distinct xs" if "tailq_rep h s xs"
    using that tailq_rep_live tailq_rep_distinct by blast
  show "\<exists>s'. TAILQ_INSERT_HEAD s h x = Some s' \<and> tailq_rep h s' (x # xs) \<and> tailq_live s' = tailq_live s"
    if "tailq_rep h s xs" "x \<in> tailq_live s" "x \<notin> set xs"
    using TAILQ_INSERT_HEAD_rep [OF that] by blast
  show "\<exists>s'. TAILQ_INSERT_AFTER s h y x = Some s' \<and> tailq_rep h s' (ys @ y # x # zs) \<and> tailq_live s' = tailq_live s"
    if "tailq_rep h s (ys @ y # zs)" "x \<in> tailq_live s" "x \<notin> set (ys @ y # zs)"
    using TAILQ_INSERT_AFTER_rep [OF that] by blast
  show "\<exists>s'. TAILQ_REMOVE s h x = Some s' \<and> tailq_rep h s' (ys @ zs) \<and> tailq_live s' = tailq_live s"
    if "tailq_rep h s (ys @ x # zs)"
    using TAILQ_REMOVE_rep [OF that] by blast
  show "\<exists>s'. TAILQ_INSERT_TAIL s h x = Some s' \<and> tailq_rep h s' (xs @ [x]) \<and> tailq_live s' = tailq_live s"
    if "tailq_rep h s xs" "x \<in> tailq_live s" "x \<notin> set xs"
    using TAILQ_INSERT_TAIL_rep [OF that] by blast
  show "TAILQ_LAST s h = Some (if xs = [] then None else Some (last xs))" if "tailq_rep h s xs"
    using that by (rule TAILQ_LAST_rep)
  show "\<exists>s'. Option.bind (TAILQ_FIRST s h) (TAILQ_REMOVE s h) = Some s' \<and> tailq_rep h s' xs \<and> tailq_live s' = tailq_live s"
    if "tailq_rep h s (x # xs)"
    using TAILQ_REMOVE_rep [of h s "[]" x xs] tailq_rep_first [OF that] that by auto
qed

text \<open>Walking backwards is a walk along the reversed list.\<close>

interpretation tailq_reverse: list_walk "\<lambda>s xs. tailq_rep h s (rev xs)" TAILQ_PREV for h
proof unfold_locales
  fix s ys x zs
  assume "tailq_rep h s (rev (ys @ x # zs))"
  then have "tailq_rep h s (rev zs @ x # rev ys)" by simp
  from TAILQ_PREV_rep [OF this] show "TAILQ_PREV s x = Some (head_of zs)" by (cases zs) auto
qed

end
