(* ===== verification/Queue_Tail_Properties.thy ===== *)
theory Queue_Tail_Properties
  imports Queue_Slist Queue_Stailq Queue_Tailq
begin

text \<open>
  The properties of the singly linked lists and of the two kinds of tail queues, stated on the list
  of elements a head represents, with witnesses on stores with two heads.
\<close>

section \<open>Concrete stores\<close>

text \<open>In each store head 0 holds the elements 1, 2 and 3, head 1 holds 4, head 2 is empty, and 5 is in no list.\<close>

definition two_slists :: slist_store where
  "two_slists = \<lparr>slist_heads = (\<lambda>h. SLIST_HEAD_INITIALIZER)(0 := \<lparr>slh_first = Some 1\<rparr>, 1 := \<lparr>slh_first = Some 4\<rparr>),
     slist_nodes = [1 \<mapsto> \<lparr>sle_next = Some 2\<rparr>, 2 \<mapsto> \<lparr>sle_next = Some 3\<rparr>, 3 \<mapsto> \<lparr>sle_next = None\<rparr>,
       4 \<mapsto> \<lparr>sle_next = None\<rparr>, 5 \<mapsto> \<lparr>sle_next = None\<rparr>]\<rparr>"

definition two_stailqs :: stailq_store where
  "two_stailqs = \<lparr>stailq_heads = STAILQ_HEAD_INITIALIZER(0 := \<lparr>stqh_first = Some 1, stqh_last = NextOf 3\<rparr>,
       1 := \<lparr>stqh_first = Some 4, stqh_last = NextOf 4\<rparr>),
     stailq_nodes = [1 \<mapsto> \<lparr>stqe_next = Some 2\<rparr>, 2 \<mapsto> \<lparr>stqe_next = Some 3\<rparr>, 3 \<mapsto> \<lparr>stqe_next = None\<rparr>,
       4 \<mapsto> \<lparr>stqe_next = None\<rparr>, 5 \<mapsto> \<lparr>stqe_next = None\<rparr>]\<rparr>"

definition two_tailqs :: tailq_store where
  "two_tailqs = \<lparr>tailq_heads = TAILQ_HEAD_INITIALIZER(0 := \<lparr>tqh_first = Some 1, tqh_last = NextOf 3\<rparr>,
       1 := \<lparr>tqh_first = Some 4, tqh_last = NextOf 4\<rparr>),
     tailq_nodes = [1 \<mapsto> \<lparr>tqe_next = Some 2, tqe_prev = FirstOf 0\<rparr>, 2 \<mapsto> \<lparr>tqe_next = Some 3, tqe_prev = NextOf 1\<rparr>,
       3 \<mapsto> \<lparr>tqe_next = None, tqe_prev = NextOf 2\<rparr>, 4 \<mapsto> \<lparr>tqe_next = None, tqe_prev = FirstOf 1\<rparr>,
       5 \<mapsto> \<lparr>tqe_next = None, tqe_prev = FirstOf 9\<rparr>]\<rparr>"

lemma two_slists_reps:
  "slist_rep 0 two_slists [1, 2, 3]" "slist_rep (Suc 0) two_slists [4]" "slist_rep 2 two_slists []"
  "slist_live two_slists = {1, 2, 3, 4, 5}"
  by (simp_all add: two_slists_def slist_rep_def slist_slot_def SLIST_FIRST_def SLIST_NEXT_def slist_live_def insert_commute SLIST_HEAD_INITIALIZER_def)

lemma two_stailqs_reps:
  "stailq_rep 0 two_stailqs [1, 2, 3]" "stailq_rep (Suc 0) two_stailqs [4]" "stailq_rep 2 two_stailqs []"
  "stailq_live two_stailqs = {1, 2, 3, 4, 5}"
  by (simp_all add: two_stailqs_def stailq_rep_def stailq_slot_def STAILQ_FIRST_def STAILQ_NEXT_def stailq_last_def
      stailq_live_def insert_commute STAILQ_HEAD_INITIALIZER_def)

lemma two_tailqs_reps:
  "tailq_rep 0 two_tailqs [1, 2, 3]" "tailq_rep (Suc 0) two_tailqs [4]" "tailq_rep 2 two_tailqs []"
  "tailq_live two_tailqs = {1, 2, 3, 4, 5}"
  by (simp_all add: two_tailqs_def tailq_rep_def tailq_slot_def TAILQ_FIRST_def TAILQ_NEXT_def tailq_prev_def
      tailq_last_def tailq_live_def insert_commute TAILQ_HEAD_INITIALIZER_def)

section \<open>Operations\<close>

text \<open>
  C22: the operations of the singly linked lists do to any represented list, empty or not, what they
  are named after: initialising empties it, insertion at the head and after an element, removal of an
  element wherever it stands, of the one after it and of the first; concatenation of two lists, either
  of which may be empty, appends the second and empties it, swapping exchanges two lists. They end
  and succeed, and those on one list leave every other list as it was. Iteration visits the elements
  in order. Removing an element that is not in the list runs off its end and reads through NULL.
\<close>

theorem slist_operations_refine:
  assumes rep: "slist_rep h s xs" and other: "slist_rep h' s ws" "h' \<noteq> h"
    and dj: "set ws \<inter> set xs = {}" and x: "x \<in> slist_live s" "x \<notin> set xs" "x \<notin> set ws"
  shows "op_yields slist_rep slist_live s (Some (SLIST_INIT s h)) h [] h' ws \<and>
    op_yields slist_rep slist_live s (SLIST_INSERT_HEAD s h x) h (x # xs) h' ws \<and>
    op_yields slist_rep slist_live s (ended (SLIST_CONCAT s h h')) h (xs @ ws) h' [] \<and>
    op_yields slist_rep slist_live s (Some (SLIST_SWAP s h h')) h ws h' xs \<and>
    SLIST_REMOVE s h x = Some None \<and>
    SLIST_FOREACH fst collect h (s, []) = Some (Some (s, xs)) \<and>
    SLIST_FIRST s h = head_of xs \<and> (SLIST_EMPTY s h \<longleftrightarrow> xs = []) \<and>
    (\<forall>ys y zs. xs = ys @ y # zs \<longrightarrow>
      op_yields slist_rep slist_live s (SLIST_INSERT_AFTER s y x) h (ys @ y # x # zs) h' ws \<and>
      op_yields slist_rep slist_live s (ended (SLIST_REMOVE s h y)) h (ys @ zs) h' ws \<and>
      SLIST_FOREACH_FROM fst collect (Some y) h (s, []) = Some (Some (s, y # zs)) \<and>
      SLIST_NEXT s y = Some (head_of zs)) \<and>
    (\<forall>ys y z zs. xs = ys @ y # z # zs \<longrightarrow>
      op_yields slist_rep slist_live s (SLIST_REMOVE_AFTER s y) h (ys @ y # zs) h' ws) \<and>
    (\<forall>y zs. xs = y # zs \<longrightarrow> op_yields slist_rep slist_live s (SLIST_REMOVE_HEAD s h) h zs h' ws)"
proof (intro conjI allI impI)
  note frame = other dj x
  have d: "set xs \<inter> set ws = {}" using dj by blast
  show "op_yields slist_rep slist_live s (Some (SLIST_INIT s h)) h [] h' ws"
    by (rule op_yieldsI [where A = "{}"]) (use SLIST_INIT_rep frame in auto)
  show "op_yields slist_rep slist_live s (SLIST_INSERT_HEAD s h x) h (x # xs) h' ws"
    by (rule op_yieldsI [OF SLIST_INSERT_HEAD_rep [OF rep x(1,2)]]) (use frame in auto)
  show "op_yields slist_rep slist_live s (ended (SLIST_CONCAT s h h')) h (xs @ ws) h' []"
    using SLIST_CONCAT_rep [OF rep other(1) other(2) [symmetric] d] by (auto simp: op_yields_def)
  show "op_yields slist_rep slist_live s (Some (SLIST_SWAP s h h')) h ws h' xs"
    using SLIST_SWAP_rep [OF rep other(1) other(2) [symmetric]] by (auto simp: op_yields_def)
  show "SLIST_REMOVE s h x = Some None"
    by (rule SLIST_REMOVE_absent [OF rep x(2)])
  show "SLIST_FOREACH fst collect h (s, []) = Some (Some (s, xs))"
    using slist.visit [OF rep] by (simp add: SLIST_FOREACH_def)
  show "SLIST_FIRST s h = head_of xs"
    by (rule slist_rep_first [OF rep])
  then show "SLIST_EMPTY s h \<longleftrightarrow> xs = []"
    by (cases xs) (simp_all add: SLIST_EMPTY_def SLIST_FIRST_def)
  {
    fix ys y zs
    assume xs: "xs = ys @ y # zs"
    note rep' = rep [unfolded xs] and x' = x(1) x(2) [unfolded xs]
    show "op_yields slist_rep slist_live s (SLIST_INSERT_AFTER s y x) h (ys @ y # x # zs) h' ws"
      by (rule op_yieldsI [OF SLIST_INSERT_AFTER_rep [OF rep' x']]) (use frame xs in auto)
    show "op_yields slist_rep slist_live s (ended (SLIST_REMOVE s h y)) h (ys @ zs) h' ws"
      by (rule op_yieldsI [where A = "set (ys @ y # zs)"]) (use SLIST_REMOVE_rep [OF rep'] frame xs in auto)
    show "SLIST_FOREACH_FROM fst collect (Some y) h (s, []) = Some (Some (s, y # zs))"
      using slist.visit_from [OF rep', of "[]"] by (simp add: SLIST_FOREACH_FROM_def del: FOREACH_FROM_simps)
    show "SLIST_NEXT s y = Some (head_of zs)"
      by (rule slist_rep_next [OF rep'])
  }
  show "op_yields slist_rep slist_live s (SLIST_REMOVE_AFTER s y) h (ys @ y # zs) h' ws"
    if xs: "xs = ys @ y # z # zs" for ys y z zs
    by (rule op_yieldsI [where A = "set (ys @ y # z # zs)"])
      (use SLIST_REMOVE_AFTER_rep [of h s ys y z zs] rep frame xs in auto)
  show "op_yields slist_rep slist_live s (SLIST_REMOVE_HEAD s h) h zs h' ws" if "xs = y # zs" for y zs
    by (rule op_yieldsI [OF SLIST_REMOVE_HEAD_rep [OF rep [unfolded that]]]) (use frame that in auto)
qed

theorem slist_operations_refine_witness:
  "\<exists>s1 s2 s3 s4 s5 s6. SLIST_INSERT_AFTER two_slists 2 5 = Some s1 \<and> slist_rep 0 s1 [1, 2, 5, 3] \<and>
     SLIST_REMOVE two_slists 0 2 = Some (Some s2) \<and> slist_rep 0 s2 [1, 3] \<and> slist_rep 1 s2 [4] \<and>
     SLIST_REMOVE two_slists 0 3 = Some (Some s3) \<and> slist_rep 0 s3 [1, 2] \<and>
     SLIST_CONCAT two_slists 0 1 = Some (Some s4) \<and> slist_rep 0 s4 [1, 2, 3, 4] \<and>
     SLIST_REMOVE two_slists 0 5 = Some None \<and>
     SLIST_CONCAT two_slists 2 1 = Some (Some s5) \<and> slist_rep 2 s5 [4] \<and> slist_rep 1 s5 [] \<and>
     SLIST_INSERT_HEAD two_slists 2 5 = Some s6 \<and> slist_rep 2 s6 [5]"
proof -
  have "Suc 0 \<noteq> 0" "set [4] \<inter> set [1, 2, 3] = ({} :: nat set)" "5 \<in> slist_live two_slists" "5 \<notin> set [1, 2, 3 :: nat]"
    "5 \<notin> set [4 :: nat]" by (simp_all add: two_slists_reps(4))
  note full = slist_operations_refine [OF two_slists_reps(1,2) this]
  have at: "[1, 2, 3] = [1] @ 2 # [3 :: nat]" "[1, 2, 3] = [1, 2] @ 3 # ([] :: nat list)" by simp_all
  have "op_yields slist_rep slist_live two_slists (SLIST_INSERT_AFTER two_slists 2 5) 0 ([1] @ 2 # 5 # [3]) (Suc 0) [4]"
    "op_yields slist_rep slist_live two_slists (ended (SLIST_REMOVE two_slists 0 2)) 0 ([1] @ [3]) (Suc 0) [4]"
    "op_yields slist_rep slist_live two_slists (ended (SLIST_REMOVE two_slists 0 3)) 0 ([1, 2] @ []) (Suc 0) [4]"
    "op_yields slist_rep slist_live two_slists (ended (SLIST_CONCAT two_slists 0 (Suc 0))) 0 ([1, 2, 3] @ [4]) (Suc 0) []"
    "SLIST_REMOVE two_slists 0 5 = Some None"
    using full at by blast+
  moreover have "op_yields slist_rep slist_live two_slists (ended (SLIST_CONCAT two_slists 2 (Suc 0))) 2 ([] @ [4]) (Suc 0) []"
    "op_yields slist_rep slist_live two_slists (SLIST_INSERT_HEAD two_slists 2 5) 2 [5] (Suc 0) [4]"
    using slist_operations_refine [of 2 two_slists "[]" "Suc 0" "[4]" 5, OF two_slists_reps(3,2)] two_slists_reps(4) by simp_all
  ultimately show ?thesis by (simp add: op_yields_def bind_eq_Some_conv) blast
qed

text \<open>
  C21: the same for the singly linked tail queues, empty or not, with insertion at the tail;
  \<open>STAILQ_LAST\<close> is the last element or NULL, and since a represented queue is one whose pointer to
  the end is right, the pointer is kept by every operation: also when the first element comes into
  an empty queue, an element is put behind the last one, or the last one is removed.
\<close>

theorem stailq_operations_refine:
  assumes rep: "stailq_rep h s xs" and other: "stailq_rep h' s ws" "h' \<noteq> h"
    and dj: "set ws \<inter> set xs = {}" and x: "x \<in> stailq_live s" "x \<notin> set xs" "x \<notin> set ws"
  shows "op_yields stailq_rep stailq_live s (Some (STAILQ_INIT s h)) h [] h' ws \<and>
    op_yields stailq_rep stailq_live s (STAILQ_INSERT_HEAD s h x) h (x # xs) h' ws \<and>
    op_yields stailq_rep stailq_live s (STAILQ_INSERT_TAIL s h x) h (xs @ [x]) h' ws \<and>
    op_yields stailq_rep stailq_live s (STAILQ_CONCAT s h h') h (xs @ ws) h' [] \<and>
    op_yields stailq_rep stailq_live s (Some (STAILQ_SWAP s h h')) h ws h' xs \<and>
    STAILQ_LAST s h = Some (if xs = [] then None else Some (last xs)) \<and>
    STAILQ_REMOVE s h x = Some None \<and>
    STAILQ_FOREACH fst collect h (s, []) = Some (Some (s, xs)) \<and>
    STAILQ_FIRST s h = head_of xs \<and> (STAILQ_EMPTY s h \<longleftrightarrow> xs = []) \<and>
    (\<forall>ys y zs. xs = ys @ y # zs \<longrightarrow>
      op_yields stailq_rep stailq_live s (STAILQ_INSERT_AFTER s h y x) h (ys @ y # x # zs) h' ws \<and>
      op_yields stailq_rep stailq_live s (ended (STAILQ_REMOVE s h y)) h (ys @ zs) h' ws \<and>
      STAILQ_FOREACH_FROM fst collect (Some y) h (s, []) = Some (Some (s, y # zs)) \<and>
      STAILQ_NEXT s y = Some (head_of zs)) \<and>
    (\<forall>ys y z zs. xs = ys @ y # z # zs \<longrightarrow>
      op_yields stailq_rep stailq_live s (STAILQ_REMOVE_AFTER s h y) h (ys @ y # zs) h' ws) \<and>
    (\<forall>y zs. xs = y # zs \<longrightarrow> op_yields stailq_rep stailq_live s (STAILQ_REMOVE_HEAD s h) h zs h' ws)"
proof (intro conjI allI impI)
  note frame = other dj x
  have d: "set xs \<inter> set ws = {}" using dj by blast
  show "op_yields stailq_rep stailq_live s (Some (STAILQ_INIT s h)) h [] h' ws"
    by (rule op_yieldsI [where A = "{}"]) (use STAILQ_INIT_rep frame in auto)
  show "op_yields stailq_rep stailq_live s (STAILQ_INSERT_HEAD s h x) h (x # xs) h' ws"
    by (rule op_yieldsI [OF STAILQ_INSERT_HEAD_rep [OF rep x(1,2)]]) (use frame in auto)
  show "op_yields stailq_rep stailq_live s (STAILQ_INSERT_TAIL s h x) h (xs @ [x]) h' ws"
    by (rule op_yieldsI [OF STAILQ_INSERT_TAIL_rep [OF rep x(1,2)]]) (use frame in auto)
  show "op_yields stailq_rep stailq_live s (STAILQ_CONCAT s h h') h (xs @ ws) h' []"
    using STAILQ_CONCAT_rep [OF rep other(1) other(2) [symmetric] d] by (auto simp: op_yields_def)
  show "op_yields stailq_rep stailq_live s (Some (STAILQ_SWAP s h h')) h ws h' xs"
    using STAILQ_SWAP_rep [OF rep other(1) other(2) [symmetric]] by (auto simp: op_yields_def)
  show "STAILQ_LAST s h = Some (if xs = [] then None else Some (last xs))"
    by (rule STAILQ_LAST_rep [OF rep])
  show "STAILQ_REMOVE s h x = Some None"
    by (rule STAILQ_REMOVE_absent [OF rep x(2)])
  show "STAILQ_FOREACH fst collect h (s, []) = Some (Some (s, xs))"
    using stailq.visit [OF rep] by (simp add: STAILQ_FOREACH_def)
  show "STAILQ_FIRST s h = head_of xs"
    by (rule stailq_rep_first [OF rep])
  then show "STAILQ_EMPTY s h \<longleftrightarrow> xs = []"
    by (cases xs) (simp_all add: STAILQ_EMPTY_def STAILQ_FIRST_def)
  {
    fix ys y zs
    assume xs: "xs = ys @ y # zs"
    note rep' = rep [unfolded xs] and x' = x(1) x(2) [unfolded xs]
    show "op_yields stailq_rep stailq_live s (STAILQ_INSERT_AFTER s h y x) h (ys @ y # x # zs) h' ws"
      by (rule op_yieldsI [OF STAILQ_INSERT_AFTER_rep [OF rep' x']]) (use frame xs in auto)
    show "op_yields stailq_rep stailq_live s (ended (STAILQ_REMOVE s h y)) h (ys @ zs) h' ws"
      by (rule op_yieldsI [where A = "set (ys @ y # zs)"]) (use STAILQ_REMOVE_rep [OF rep'] frame xs in auto)
    show "STAILQ_FOREACH_FROM fst collect (Some y) h (s, []) = Some (Some (s, y # zs))"
      using stailq.visit_from [OF rep', of "[]"] by (simp add: STAILQ_FOREACH_FROM_def del: FOREACH_FROM_simps)
    show "STAILQ_NEXT s y = Some (head_of zs)"
      by (rule stailq_rep_next [OF rep'])
  }
  show "op_yields stailq_rep stailq_live s (STAILQ_REMOVE_AFTER s h y) h (ys @ y # zs) h' ws"
    if xs: "xs = ys @ y # z # zs" for ys y z zs
    by (rule op_yieldsI [where A = "set (ys @ y # z # zs)"])
      (use STAILQ_REMOVE_AFTER_rep [of h s ys y z zs] rep frame xs in auto)
  show "op_yields stailq_rep stailq_live s (STAILQ_REMOVE_HEAD s h) h zs h' ws" if "xs = y # zs" for y zs
    by (rule op_yieldsI [OF STAILQ_REMOVE_HEAD_rep [OF rep [unfolded that]]]) (use frame that in auto)
qed

theorem stailq_operations_refine_witness:
  "\<exists>s1 s2 s3 s4 s5 s6. STAILQ_INSERT_TAIL two_stailqs 0 5 = Some s1 \<and> stailq_rep 0 s1 [1, 2, 3, 5] \<and>
     STAILQ_REMOVE two_stailqs 0 2 = Some (Some s2) \<and> stailq_rep 0 s2 [1, 3] \<and> stailq_rep 1 s2 [4] \<and>
     STAILQ_INSERT_AFTER two_stailqs 0 3 5 = Some s3 \<and> stailq_rep 0 s3 [1, 2, 3, 5] \<and>
     STAILQ_CONCAT two_stailqs 0 1 = Some s4 \<and> stailq_rep 0 s4 [1, 2, 3, 4] \<and> stailq_rep 1 s4 [] \<and>
     STAILQ_LAST two_stailqs 0 = Some (Some 3) \<and>
     STAILQ_INSERT_HEAD two_stailqs 2 5 = Some s5 \<and> stailq_rep 2 s5 [5] \<and>
     STAILQ_CONCAT two_stailqs 2 1 = Some s6 \<and> stailq_rep 2 s6 [4] \<and> stailq_rep 1 s6 []"
proof -
  have "Suc 0 \<noteq> 0" "set [4] \<inter> set [1, 2, 3] = ({} :: nat set)" "5 \<in> stailq_live two_stailqs" "5 \<notin> set [1, 2, 3 :: nat]"
    "5 \<notin> set [4 :: nat]" by (simp_all add: two_stailqs_reps(4))
  note full = stailq_operations_refine [OF two_stailqs_reps(1,2) this]
  have at: "[1, 2, 3] = [1] @ 2 # [3 :: nat]" "[1, 2, 3] = [1, 2] @ 3 # ([] :: nat list)" by simp_all
  have "op_yields stailq_rep stailq_live two_stailqs (STAILQ_INSERT_TAIL two_stailqs 0 5) 0 ([1, 2, 3] @ [5]) (Suc 0) [4]"
    "op_yields stailq_rep stailq_live two_stailqs (ended (STAILQ_REMOVE two_stailqs 0 2)) 0 ([1] @ [3]) (Suc 0) [4]"
    "op_yields stailq_rep stailq_live two_stailqs (STAILQ_INSERT_AFTER two_stailqs 0 3 5) 0 ([1, 2] @ 3 # 5 # []) (Suc 0) [4]"
    "op_yields stailq_rep stailq_live two_stailqs (STAILQ_CONCAT two_stailqs 0 (Suc 0)) 0 ([1, 2, 3] @ [4]) (Suc 0) []"
    "STAILQ_LAST two_stailqs 0 = Some (if [1, 2, 3 :: nat] = [] then None else Some (last [1, 2, 3]))"
    using full at by blast+
  moreover have "op_yields stailq_rep stailq_live two_stailqs (STAILQ_CONCAT two_stailqs 2 (Suc 0)) 2 ([] @ [4]) (Suc 0) []"
    "op_yields stailq_rep stailq_live two_stailqs (STAILQ_INSERT_HEAD two_stailqs 2 5) 2 [5] (Suc 0) [4]"
    using stailq_operations_refine [of 2 two_stailqs "[]" "Suc 0" "[4]" 5, OF two_stailqs_reps(3,2)] two_stailqs_reps(4) by simp_all
  ultimately show ?thesis by (simp add: op_yields_def bind_eq_Some_conv) blast
qed

text \<open>
  C20: the same for the doubly linked tail queues, empty or not, with insertion before an element;
  \<open>TAILQ_LAST\<close> and \<open>TAILQ_PREV\<close>, which read an entry as if it were a head, give the last
  element and the predecessor, NULL where there is none; and every consistency check of the
  \<open>INVARIANTS\<close> configuration passes.
\<close>

theorem tailq_operations_refine:
  assumes rep: "tailq_rep h s xs" and other: "tailq_rep h' s ws" "h' \<noteq> h"
    and dj: "set ws \<inter> set xs = {}" and x: "x \<in> tailq_live s" "x \<notin> set xs" "x \<notin> set ws"
  shows "op_yields tailq_rep tailq_live s (Some (TAILQ_INIT s h)) h [] h' ws \<and>
    op_yields tailq_rep tailq_live s (TAILQ_INSERT_HEAD s h x) h (x # xs) h' ws \<and>
    op_yields tailq_rep tailq_live s (TAILQ_INSERT_TAIL s h x) h (xs @ [x]) h' ws \<and>
    op_yields tailq_rep tailq_live s (TAILQ_CONCAT s h h') h (xs @ ws) h' [] \<and>
    op_yields tailq_rep tailq_live s (TAILQ_SWAP s h h') h ws h' xs \<and>
    TAILQ_LAST s h = Some (if xs = [] then None else Some (last xs)) \<and>
    QMD_TAILQ_CHECK_HEAD s h = Some True \<and> QMD_TAILQ_CHECK_TAIL s h = Some True \<and>
    TAILQ_FIRST s h = head_of xs \<and> (TAILQ_EMPTY s h \<longleftrightarrow> xs = []) \<and>
    (\<forall>ys y zs. xs = ys @ y # zs \<longrightarrow>
      op_yields tailq_rep tailq_live s (TAILQ_INSERT_AFTER s h y x) h (ys @ y # x # zs) h' ws \<and>
      op_yields tailq_rep tailq_live s (TAILQ_INSERT_BEFORE s y x) h (ys @ x # y # zs) h' ws \<and>
      op_yields tailq_rep tailq_live s (TAILQ_REMOVE s h y) h (ys @ zs) h' ws \<and>
      TAILQ_NEXT s y = Some (head_of zs) \<and>
      TAILQ_PREV s y = Some (if ys = [] then None else Some (last ys)) \<and>
      QMD_TAILQ_CHECK_NEXT s y = Some True \<and> QMD_TAILQ_CHECK_PREV s y = Some True)"
proof (intro conjI allI impI)
  note frame = other dj x
  have d: "set xs \<inter> set ws = {}" using dj by blast
  show "op_yields tailq_rep tailq_live s (Some (TAILQ_INIT s h)) h [] h' ws"
    by (rule op_yieldsI [where A = "{}"]) (use TAILQ_INIT_rep frame in auto)
  show "op_yields tailq_rep tailq_live s (TAILQ_INSERT_HEAD s h x) h (x # xs) h' ws"
    by (rule op_yieldsI [OF TAILQ_INSERT_HEAD_rep [OF rep x(1,2)]]) (use frame in auto)
  show "op_yields tailq_rep tailq_live s (TAILQ_INSERT_TAIL s h x) h (xs @ [x]) h' ws"
    by (rule op_yieldsI [OF TAILQ_INSERT_TAIL_rep [OF rep x(1,2)]]) (use frame in auto)
  show "op_yields tailq_rep tailq_live s (TAILQ_CONCAT s h h') h (xs @ ws) h' []"
    using TAILQ_CONCAT_rep [OF rep other(1) other(2) [symmetric] d] by (auto simp: op_yields_def)
  show "op_yields tailq_rep tailq_live s (TAILQ_SWAP s h h') h ws h' xs"
    using TAILQ_SWAP_rep [OF rep other(1) other(2) [symmetric] d] by (auto simp: op_yields_def)
  show "TAILQ_LAST s h = Some (if xs = [] then None else Some (last xs))"
    by (rule TAILQ_LAST_rep [OF rep])
  show "QMD_TAILQ_CHECK_HEAD s h = Some True"
    by (rule tailq_rep_check_head [OF rep])
  show "QMD_TAILQ_CHECK_TAIL s h = Some True"
    by (rule tailq_rep_check_tail [OF rep])
  show "TAILQ_FIRST s h = head_of xs"
    by (rule tailq_rep_first [OF rep])
  then show "TAILQ_EMPTY s h \<longleftrightarrow> xs = []"
    by (cases xs) (simp_all add: TAILQ_EMPTY_def TAILQ_FIRST_def)
  {
    fix ys y zs
    assume xs: "xs = ys @ y # zs"
    note rep' = rep [unfolded xs] and x' = x(1) x(2) [unfolded xs]
    show "op_yields tailq_rep tailq_live s (TAILQ_INSERT_AFTER s h y x) h (ys @ y # x # zs) h' ws"
      by (rule op_yieldsI [OF TAILQ_INSERT_AFTER_rep [OF rep' x']]) (use frame xs in auto)
    show "op_yields tailq_rep tailq_live s (TAILQ_INSERT_BEFORE s y x) h (ys @ x # y # zs) h' ws"
      by (rule op_yieldsI [OF TAILQ_INSERT_BEFORE_rep [OF rep' x']]) (use frame xs in auto)
    show "op_yields tailq_rep tailq_live s (TAILQ_REMOVE s h y) h (ys @ zs) h' ws"
      by (rule op_yieldsI [OF TAILQ_REMOVE_rep [OF rep']]) (use frame xs in auto)
    show "TAILQ_NEXT s y = Some (head_of zs)"
      by (rule tailq_rep_next [OF rep'])
    show "TAILQ_PREV s y = Some (if ys = [] then None else Some (last ys))"
      by (rule TAILQ_PREV_rep [OF rep'])
    show "QMD_TAILQ_CHECK_NEXT s y = Some True"
      by (rule tailq_rep_check_next [OF rep'])
    show "QMD_TAILQ_CHECK_PREV s y = Some True"
      by (rule tailq_rep_check_prev [OF rep'])
  }
qed

theorem tailq_operations_refine_witness:
  "\<exists>s1 s2 s3 s4 s5. TAILQ_INSERT_TAIL two_tailqs 0 5 = Some s1 \<and> tailq_rep 0 s1 [1, 2, 3, 5] \<and>
     TAILQ_INSERT_BEFORE two_tailqs 2 5 = Some s2 \<and> tailq_rep 0 s2 [1, 5, 2, 3] \<and> tailq_rep 1 s2 [4] \<and>
     TAILQ_SWAP two_tailqs 0 1 = Some s3 \<and> tailq_rep 0 s3 [4] \<and> tailq_rep 1 s3 [1, 2, 3] \<and>
     TAILQ_PREV two_tailqs 2 = Some (Some 1) \<and> QMD_TAILQ_CHECK_PREV two_tailqs 2 = Some True \<and>
     TAILQ_INSERT_HEAD two_tailqs 2 5 = Some s4 \<and> tailq_rep 2 s4 [5] \<and>
     TAILQ_CONCAT two_tailqs 2 1 = Some s5 \<and> tailq_rep 2 s5 [4] \<and> tailq_rep 1 s5 []"
proof -
  have "Suc 0 \<noteq> 0" "set [4] \<inter> set [1, 2, 3] = ({} :: nat set)" "5 \<in> tailq_live two_tailqs" "5 \<notin> set [1, 2, 3 :: nat]"
    "5 \<notin> set [4 :: nat]" by (simp_all add: two_tailqs_reps(4))
  note full = tailq_operations_refine [OF two_tailqs_reps(1,2) this]
  have at: "[1, 2, 3] = [1] @ 2 # [3 :: nat]" "[1, 2, 3] = [1, 2] @ 3 # ([] :: nat list)" by simp_all
  have "op_yields tailq_rep tailq_live two_tailqs (TAILQ_INSERT_TAIL two_tailqs 0 5) 0 ([1, 2, 3] @ [5]) (Suc 0) [4]"
    "op_yields tailq_rep tailq_live two_tailqs (TAILQ_INSERT_BEFORE two_tailqs 2 5) 0 ([1] @ 5 # 2 # [3]) (Suc 0) [4]"
    "op_yields tailq_rep tailq_live two_tailqs (TAILQ_SWAP two_tailqs 0 (Suc 0)) 0 [4] (Suc 0) [1, 2, 3]"
    "TAILQ_PREV two_tailqs 2 = Some (if [1 :: nat] = [] then None else Some (last [1]))"
    "QMD_TAILQ_CHECK_PREV two_tailqs 2 = Some True"
    using full at by blast+
  moreover have "op_yields tailq_rep tailq_live two_tailqs (TAILQ_CONCAT two_tailqs 2 (Suc 0)) 2 ([] @ [4]) (Suc 0) []"
    "op_yields tailq_rep tailq_live two_tailqs (TAILQ_INSERT_HEAD two_tailqs 2 5) 2 [5] (Suc 0) [4]"
    using tailq_operations_refine [of 2 two_tailqs "[]" "Suc 0" "[4]" 5, OF two_tailqs_reps(3,2)] two_tailqs_reps(4) by simp_all
  ultimately show ?thesis by (simp add: op_yields_def) blast
qed

section \<open>Queues\<close>

text \<open>
  C25: with insertion at the tail and removal from the head both kinds of tail queues are first-in
  first-out queues: any run of enqueues and dequeues that is possible on a list of elements (an
  element is queued once at a time, nothing is taken from an empty queue) succeeds on the linked
  structure, takes out the same elements and leaves the same queue; what came out, followed by what
  is still queued, is what was queued before followed by what was put in, in this order.
\<close>

theorem tail_queues_fifo:
  assumes "stailq_rep h s xs" and "tailq_rep h t xs" and run: "ofold queue_step (xs, []) ops = Some (ys, out)"
    and "set (enqueued ops) \<subseteq> stailq_live s" and "set (enqueued ops) \<subseteq> tailq_live t"
  shows "\<exists>s' t'.
      ofold (store_step (\<lambda>s. STAILQ_FIRST s h) (\<lambda>s. STAILQ_INSERT_TAIL s h) (\<lambda>s. STAILQ_REMOVE_HEAD s h)) (s, []) ops =
        Some (s', out) \<and> stailq_rep h s' ys \<and>
      ofold (store_step (\<lambda>s. TAILQ_FIRST s h) (\<lambda>s. TAILQ_INSERT_TAIL s h)
          (\<lambda>s. Option.bind (TAILQ_FIRST s h) (TAILQ_REMOVE s h))) (t, []) ops = Some (t', out) \<and> tailq_rep h t' ys \<and>
      out @ ys = xs @ enqueued ops"
proof -
  from stailq.queue_run_refines [OF assms(1) run assms(4)] tailq.queue_run_refines [OF assms(2) run assms(5)]
    queue_fifo [OF run]
  show ?thesis by fastforce
qed

theorem tail_queues_fifo_witness:
  "\<exists>s' t'.
      ofold (store_step (\<lambda>s. STAILQ_FIRST s 0) (\<lambda>s. STAILQ_INSERT_TAIL s 0) (\<lambda>s. STAILQ_REMOVE_HEAD s 0))
        (two_stailqs, []) [Dequeue, Enqueue 5, Dequeue, Enqueue 1] = Some (s', [1, 2]) \<and> stailq_rep 0 s' [3, 5, 1] \<and>
      ofold (store_step (\<lambda>s. TAILQ_FIRST s 0) (\<lambda>s. TAILQ_INSERT_TAIL s 0)
          (\<lambda>s. Option.bind (TAILQ_FIRST s 0) (TAILQ_REMOVE s 0)))
        (two_tailqs, []) [Dequeue, Enqueue 5, Dequeue, Enqueue 1] = Some (t', [1, 2]) \<and> tailq_rep 0 t' [3, 5, 1]"
proof -
  have run: "ofold queue_step ([1, 2, 3], []) [Dequeue, Enqueue 5, Dequeue, Enqueue 1] = Some ([3, 5, 1], [1, 2])" by simp
  have "set (enqueued [Dequeue, Enqueue 5, Dequeue, Enqueue 1]) \<subseteq> stailq_live two_stailqs"
    "set (enqueued [Dequeue, Enqueue 5, Dequeue, Enqueue 1]) \<subseteq> tailq_live two_tailqs"
    using two_stailqs_reps(4) two_tailqs_reps(4) by simp_all
  from tail_queues_fifo [OF two_stailqs_reps(1) two_tailqs_reps(1) run this] show ?thesis by blast
qed

section \<open>Iterating\<close>

text \<open>
  C26: the iteration macros of the doubly linked tail queues end; forwards they visit the elements
  in order and backwards in reverse order, from the first, the last or a given element on, and the
  safe variants in both directions may remove the elements they visit: exactly the others are left.
\<close>

theorem tailq_walks_both_ways:
  assumes rep: "tailq_rep h s (ys @ x # zs)"
  shows "TAILQ_FOREACH fst collect h (s, []) = Some (Some (s, ys @ x # zs)) \<and>
    TAILQ_FOREACH_FROM fst collect (Some x) h (s, []) = Some (Some (s, x # zs)) \<and>
    TAILQ_FOREACH_REVERSE fst collect h (s, []) = Some (Some (s, rev (ys @ x # zs))) \<and>
    TAILQ_FOREACH_REVERSE_FROM fst collect (Some x) h (s, []) = Some (Some (s, rev (ys @ [x]))) \<and>
    (\<exists>s'. TAILQ_FOREACH_FROM_SAFE id (remove_if (\<lambda>s. TAILQ_REMOVE s h) P) (Some x) h s = Some (Some s') \<and>
      tailq_rep h s' (ys @ filter (\<lambda>e. \<not> P e) (x # zs)) \<and> tailq_live s' = tailq_live s) \<and>
    (\<exists>s'. TAILQ_FOREACH_REVERSE_SAFE id (remove_if (\<lambda>s. TAILQ_REMOVE s h) P) h s = Some (Some s') \<and>
      tailq_rep h s' (filter (\<lambda>e. \<not> P e) (ys @ x # zs)) \<and> tailq_live s' = tailq_live s)"
proof (intro conjI)
  show "TAILQ_FOREACH fst collect h (s, []) = Some (Some (s, ys @ x # zs))"
    using tailq.visit [OF rep] by (simp add: TAILQ_FOREACH_def)
  show "TAILQ_FOREACH_FROM fst collect (Some x) h (s, []) = Some (Some (s, x # zs))"
    using tailq.visit_from [OF rep, of "[]"] by (simp add: TAILQ_FOREACH_FROM_def del: FOREACH_FROM_simps)
  have last: "TAILQ_LAST s h = Some (head_of (rev (ys @ x # zs)))"
    using TAILQ_LAST_rep [OF rep] by (cases zs rule: rev_cases) simp_all
  have rev: "tailq_rep h s (rev ([] @ rev (ys @ x # zs)))" "tailq_rep h s (rev (rev zs @ x # rev ys))"
    using rep by simp_all
  show "TAILQ_FOREACH_REVERSE fst collect h (s, []) = Some (Some (s, rev (ys @ x # zs)))"
    using tailq_reverse.visit_from [OF rev(1), of "[]"] last
    by (simp add: TAILQ_FOREACH_REVERSE_def del: FOREACH_FROM_simps)
  show "TAILQ_FOREACH_REVERSE_FROM fst collect (Some x) h (s, []) = Some (Some (s, rev (ys @ [x])))"
    using tailq_reverse.visit_from [OF rev(2), of "[]"]
    by (simp add: TAILQ_FOREACH_REVERSE_FROM_def del: FOREACH_FROM_simps)
  show "\<exists>s'. TAILQ_FOREACH_FROM_SAFE id (remove_if (\<lambda>s. TAILQ_REMOVE s h) P) (Some x) h s = Some (Some s') \<and>
      tailq_rep h s' (ys @ filter (\<lambda>e. \<not> P e) (x # zs)) \<and> tailq_live s' = tailq_live s"
    using tailq.safe_remove_from [OF rep, of P]
    by (auto simp: TAILQ_FOREACH_FROM_SAFE_def simp del: FOREACH_FROM_SAFE_simps)
  have "\<exists>s'. FOREACH_FROM_SAFE TAILQ_PREV (remove_if (\<lambda>s. TAILQ_REMOVE s h) P) (head_of (rev (ys @ x # zs))) s =
      Some (Some s') \<and> tailq_live s' = tailq_live s \<and> tailq_rep h s' (rev ([] @ filter (\<lambda>e. \<not> P e) (rev (ys @ x # zs))))"
  proof (rule tailq_reverse.safe_filter_from [OF _ rev(1)])
    fix t us e vs
    assume "tailq_rep h t (rev (us @ e # vs))" "tailq_live t = tailq_live s"
    with TAILQ_REMOVE_rep [of h t "rev vs" e "rev us"]
    show "\<exists>t'. remove_if (\<lambda>s. TAILQ_REMOVE s h) P e t = Some t' \<and> tailq_live t' = tailq_live s \<and>
        tailq_rep h t' (rev (us @ (if P e then [] else [e]) @ vs))"
      by (auto simp: remove_if_def)
  qed simp
  then show "\<exists>s'. TAILQ_FOREACH_REVERSE_SAFE id (remove_if (\<lambda>s. TAILQ_REMOVE s h) P) h s = Some (Some s') \<and>
      tailq_rep h s' (filter (\<lambda>e. \<not> P e) (ys @ x # zs)) \<and> tailq_live s' = tailq_live s"
    using last by (auto simp: TAILQ_FOREACH_REVERSE_SAFE_def rev_filter simp del: FOREACH_FROM_SAFE_simps)
qed

theorem tailq_walks_both_ways_witness:
  "TAILQ_FOREACH_REVERSE fst collect 0 (two_tailqs, []) = Some (Some (two_tailqs, [3, 2, 1])) \<and>
   TAILQ_FOREACH_REVERSE_FROM fst collect (Some 2) 0 (two_tailqs, []) = Some (Some (two_tailqs, [2, 1])) \<and>
   (\<exists>s'. TAILQ_FOREACH_REVERSE_SAFE id (remove_if (\<lambda>s. TAILQ_REMOVE s 0) odd) 0 two_tailqs = Some (Some s') \<and>
     tailq_rep 0 s' [2])"
  using tailq_walks_both_ways [of 0 two_tailqs "[1]" 2 "[3]" odd] two_tailqs_reps(1) by auto

text \<open>
  The iteration macros of the singly linked families end and visit the elements in order, from
  the first or a given element on; the safe variants may remove the elements they visit although
  each removal walks the list again; and \<open>SLIST_FOREACH_PREVPTR\<close> hands the body, with each
  element, the pointer that points to it.
\<close>

lemma singly_linked_walks:
  assumes s: "slist_rep h s (ys @ x # zs)" and t: "stailq_rep h t (ys @ x # zs)"
  shows "SLIST_FOREACH fst collect h (s, []) = Some (Some (s, ys @ x # zs)) \<and>
    SLIST_FOREACH_FROM fst collect (Some x) h (s, []) = Some (Some (s, x # zs)) \<and>
    (\<exists>s'. SLIST_FOREACH_FROM_SAFE id (remove_if (\<lambda>s e. ended (SLIST_REMOVE s h e)) P) (Some x) h s = Some (Some s') \<and>
      slist_rep h s' (ys @ filter (\<lambda>e. \<not> P e) (x # zs))) \<and>
    SLIST_FOREACH_PREVPTR fst (\<lambda>e q (s, acc). Some (s, acc @ [(e, q)])) h (s, []) =
      Some (Some (s, zip (ys @ x # zs) (FirstOf h # map NextOf (ys @ x # zs)))) \<and>
    STAILQ_FOREACH fst collect h (t, []) = Some (Some (t, ys @ x # zs)) \<and>
    STAILQ_FOREACH_FROM fst collect (Some x) h (t, []) = Some (Some (t, x # zs)) \<and>
    (\<exists>t'. STAILQ_FOREACH_FROM_SAFE id (remove_if (\<lambda>t e. ended (STAILQ_REMOVE t h e)) P) (Some x) h t = Some (Some t') \<and>
      stailq_rep h t' (ys @ filter (\<lambda>e. \<not> P e) (x # zs)))"
proof (intro conjI)
  show "SLIST_FOREACH fst collect h (s, []) = Some (Some (s, ys @ x # zs))"
    "STAILQ_FOREACH fst collect h (t, []) = Some (Some (t, ys @ x # zs))"
    using slist.visit [OF s] stailq.visit [OF t] by (simp_all add: SLIST_FOREACH_def STAILQ_FOREACH_def)
  show "SLIST_FOREACH_FROM fst collect (Some x) h (s, []) = Some (Some (s, x # zs))"
    "STAILQ_FOREACH_FROM fst collect (Some x) h (t, []) = Some (Some (t, x # zs))"
    using slist.visit_from [OF s, of "[]"] stailq.visit_from [OF t, of "[]"]
    by (simp_all add: SLIST_FOREACH_FROM_def STAILQ_FOREACH_FROM_def del: FOREACH_FROM_simps)
  show "\<exists>s'. SLIST_FOREACH_FROM_SAFE id (remove_if (\<lambda>s e. ended (SLIST_REMOVE s h e)) P) (Some x) h s = Some (Some s') \<and>
      slist_rep h s' (ys @ filter (\<lambda>e. \<not> P e) (x # zs))"
    using slist.safe_remove_from [OF s, of P]
    by (auto simp: SLIST_FOREACH_FROM_SAFE_def simp del: FOREACH_FROM_SAFE_simps)
  show "\<exists>t'. STAILQ_FOREACH_FROM_SAFE id (remove_if (\<lambda>t e. ended (STAILQ_REMOVE t h e)) P) (Some x) h t = Some (Some t') \<and>
      stailq_rep h t' (ys @ filter (\<lambda>e. \<not> P e) (x # zs))"
    using stailq.safe_remove_from [OF t, of P]
    by (auto simp: STAILQ_FOREACH_FROM_SAFE_def simp del: FOREACH_FROM_SAFE_simps)
  show "SLIST_FOREACH_PREVPTR fst (\<lambda>e q (s, acc). Some (s, acc @ [(e, q)])) h (s, []) =
      Some (Some (s, zip (ys @ x # zs) (FirstOf h # map NextOf (ys @ x # zs))))"
    using slist_prevptr_visit [of s "FirstOf h" "ys @ x # zs" "[]"] s
    by (simp add: SLIST_FOREACH_PREVPTR_def slist_rep_def)
qed

end
