(* ===== verification/Queue_Debug.thy ===== *)
theory Queue_Debug
  imports Queue_List Queue_Tail_Properties
begin

text \<open>
  The \<open>QUEUE_MACRO_DEBUG\<close> configuration of \<open>server/queue.h\<close>. The removal macros then overwrite
  the links of the removed element with the address \<open>(void *)-1\<close>, and the tail queues record in
  every head and element the last two places in the source that altered it. The macros are those of
  the plain configuration with these statements added; \<open>__LINE__\<close> and \<open>__FILE__\<close> of the place
  where a macro is used are an argument. The locale \<open>link_trashing\<close> states what overwriting the
  links adds to a list family: a second removal of an element and a loop that goes on from a removed
  element are caught, while the safe loops still work.
\<close>

section \<open>Overwritten links\<close>

text \<open>\<open>(void *)-1\<close>, as the address of an element and as the address of a pointer; nothing is
  allocated there.\<close>

definition TRASHED :: nat where
  "TRASHED = 2 ^ 64 - 1"

definition LIST_TRASHIT :: "list_store \<Rightarrow> nat \<Rightarrow> list_store option" where
  "LIST_TRASHIT s elm = do {
     s1 \<leftarrow> put_next s elm (Some TRASHED);
     put_prev s1 elm (NextOf TRASHED)
   }"

definition LIST_REMOVE_debug :: "list_store \<Rightarrow> nat \<Rightarrow> list_store option" where
  "LIST_REMOVE_debug s elm = do {
     s1 \<leftarrow> LIST_REMOVE s elm;
     LIST_TRASHIT s1 elm
   }"

definition SLIST_TRASHIT :: "slist_store \<Rightarrow> nat \<Rightarrow> slist_store option" where
  "SLIST_TRASHIT s elm = slist_put_next s elm (Some TRASHED)"

definition SLIST_REMOVE_debug :: "slist_store \<Rightarrow> nat \<Rightarrow> nat \<Rightarrow> slist_store option option" where
  "SLIST_REMOVE_debug s head elm =
     (case SLIST_REMOVE s head elm of
        None \<Rightarrow> None
      | Some None \<Rightarrow> Some None
      | Some (Some s1) \<Rightarrow> Some (SLIST_TRASHIT s1 elm))"

definition STAILQ_TRASHIT :: "stailq_store \<Rightarrow> nat \<Rightarrow> stailq_store option" where
  "STAILQ_TRASHIT s elm = stailq_put_next s elm (Some TRASHED)"

definition STAILQ_REMOVE_debug :: "stailq_store \<Rightarrow> nat \<Rightarrow> nat \<Rightarrow> stailq_store option option" where
  "STAILQ_REMOVE_debug s head elm =
     (case STAILQ_REMOVE s head elm of
        None \<Rightarrow> None
      | Some None \<Rightarrow> Some None
      | Some (Some s1) \<Rightarrow> Some (STAILQ_TRASHIT s1 elm))"

definition TAILQ_TRASHIT :: "tailq_store \<Rightarrow> nat \<Rightarrow> tailq_store option" where
  "TAILQ_TRASHIT s elm = do {
     s1 \<leftarrow> tailq_put_next s elm (Some TRASHED);
     tailq_put_prev s1 elm (NextOf TRASHED)
   }"

text \<open>The links part of \<open>TAILQ_REMOVE\<close>; its traces follow below.\<close>

definition TAILQ_REMOVE_trash :: "tailq_store \<Rightarrow> nat \<Rightarrow> nat \<Rightarrow> tailq_store option" where
  "TAILQ_REMOVE_trash s head elm = do {
     s1 \<leftarrow> TAILQ_REMOVE s head elm;
     TAILQ_TRASHIT s1 elm
   }"

section \<open>Traces\<close>

type_synonym place = "nat \<times> string"

record qm_trace =
  lastline :: nat
  prevline :: nat
  lastfile :: "string option"
  prevfile :: "string option"

definition TRACEBUF_INITIALIZER :: "place \<Rightarrow> qm_trace" where
  "TRACEBUF_INITIALIZER = (\<lambda>(line, file). \<lparr>lastline = line, prevline = 0, lastfile = Some file, prevfile = None\<rparr>)"

text \<open>The assignments both trace macros make.\<close>

definition trace_at :: "place \<Rightarrow> qm_trace \<Rightarrow> qm_trace" where
  "trace_at = (\<lambda>(line, file) t.
     let t1 = t\<lparr>prevline := lastline t\<rparr>;
         t2 = t1\<lparr>prevfile := lastfile t1\<rparr>;
         t3 = t2\<lparr>lastline := line\<rparr>
     in t3\<lparr>lastfile := Some file\<rparr>)"

record tailq_debug =
  dlinks :: tailq_store
  head_trace :: "nat \<Rightarrow> qm_trace"
  elem_trace :: "nat \<Rightarrow> qm_trace"

definition QMD_TRACE_HEAD :: "place \<Rightarrow> tailq_debug \<Rightarrow> nat \<Rightarrow> tailq_debug" where
  "QMD_TRACE_HEAD pl d head = d\<lparr>head_trace := (head_trace d)(head := trace_at pl (head_trace d head))\<rparr>"

definition QMD_TRACE_ELEM :: "place \<Rightarrow> tailq_debug \<Rightarrow> nat \<Rightarrow> tailq_debug" where
  "QMD_TRACE_ELEM pl d elm = d\<lparr>elem_trace := (elem_trace d)(elm := trace_at pl (elem_trace d elm))\<rparr>"

definition TAILQ_INIT_debug :: "place \<Rightarrow> tailq_debug \<Rightarrow> nat \<Rightarrow> tailq_debug" where
  "TAILQ_INIT_debug pl d head = QMD_TRACE_HEAD pl (d\<lparr>dlinks := TAILQ_INIT (dlinks d) head\<rparr>) head"

text \<open>The trace of the second head is written by \<open>TAILQ_INIT\<close> and once more by the macro itself.\<close>

definition TAILQ_CONCAT_debug :: "place \<Rightarrow> tailq_debug \<Rightarrow> nat \<Rightarrow> nat \<Rightarrow> tailq_debug option" where
  "TAILQ_CONCAT_debug pl d head1 head2 =
     (if \<not> TAILQ_EMPTY (dlinks d) head2 then do {
        s1 \<leftarrow> tailq_put_slot (dlinks d) (tailq_last (dlinks d) head1) (TAILQ_FIRST (dlinks d) head2);
        f \<leftarrow> TAILQ_FIRST s1 head2;
        s2 \<leftarrow> tailq_put_prev s1 f (tailq_last s1 head1);
        let s3 = tailq_put_last s2 head1 (tailq_last s2 head2);
        let d1 = TAILQ_INIT_debug pl (d\<lparr>dlinks := s3\<rparr>) head2;
        Some (QMD_TRACE_HEAD pl (QMD_TRACE_HEAD pl d1 head1) head2)
      } else Some d)"

definition TAILQ_INSERT_AFTER_debug :: "place \<Rightarrow> tailq_debug \<Rightarrow> nat \<Rightarrow> nat \<Rightarrow> nat \<Rightarrow> tailq_debug option" where
  "TAILQ_INSERT_AFTER_debug pl d head listelm elm = do {
     n \<leftarrow> TAILQ_NEXT (dlinks d) listelm;
     s1 \<leftarrow> tailq_put_next (dlinks d) elm n;
     d2 \<leftarrow> (case n of
              Some f \<Rightarrow> map_option (\<lambda>s2. d\<lparr>dlinks := s2\<rparr>) (tailq_put_prev s1 f (NextOf elm))
            | None \<Rightarrow> Some (QMD_TRACE_HEAD pl (d\<lparr>dlinks := tailq_put_last s1 head (NextOf elm)\<rparr>) head));
     s3 \<leftarrow> tailq_put_next (dlinks d2) listelm (Some elm);
     s4 \<leftarrow> tailq_put_prev s3 elm (NextOf listelm);
     Some (QMD_TRACE_ELEM pl (QMD_TRACE_ELEM pl (d2\<lparr>dlinks := s4\<rparr>) elm) listelm)
   }"

definition TAILQ_INSERT_BEFORE_debug :: "place \<Rightarrow> tailq_debug \<Rightarrow> nat \<Rightarrow> nat \<Rightarrow> tailq_debug option" where
  "TAILQ_INSERT_BEFORE_debug pl d listelm elm = do {
     s \<leftarrow> TAILQ_INSERT_BEFORE (dlinks d) listelm elm;
     Some (QMD_TRACE_ELEM pl (QMD_TRACE_ELEM pl (d\<lparr>dlinks := s\<rparr>) elm) listelm)
   }"

definition TAILQ_INSERT_HEAD_debug :: "place \<Rightarrow> tailq_debug \<Rightarrow> nat \<Rightarrow> nat \<Rightarrow> tailq_debug option" where
  "TAILQ_INSERT_HEAD_debug pl d head elm = do {
     s \<leftarrow> TAILQ_INSERT_HEAD (dlinks d) head elm;
     Some (QMD_TRACE_ELEM pl (QMD_TRACE_HEAD pl (d\<lparr>dlinks := s\<rparr>) head) elm)
   }"

definition TAILQ_INSERT_TAIL_debug :: "place \<Rightarrow> tailq_debug \<Rightarrow> nat \<Rightarrow> nat \<Rightarrow> tailq_debug option" where
  "TAILQ_INSERT_TAIL_debug pl d head elm = do {
     s \<leftarrow> TAILQ_INSERT_TAIL (dlinks d) head elm;
     Some (QMD_TRACE_ELEM pl (QMD_TRACE_HEAD pl (d\<lparr>dlinks := s\<rparr>) head) elm)
   }"

definition TAILQ_REMOVE_debug :: "place \<Rightarrow> tailq_debug \<Rightarrow> nat \<Rightarrow> nat \<Rightarrow> tailq_debug option" where
  "TAILQ_REMOVE_debug pl d head elm = do {
     n \<leftarrow> TAILQ_NEXT (dlinks d) elm;
     p \<leftarrow> tailq_prev (dlinks d) elm;
     d1 \<leftarrow> (case n of
              Some f \<Rightarrow> map_option (\<lambda>s1. d\<lparr>dlinks := s1\<rparr>) (tailq_put_prev (dlinks d) f p)
            | None \<Rightarrow> Some (QMD_TRACE_HEAD pl (d\<lparr>dlinks := tailq_put_last (dlinks d) head p\<rparr>) head));
     p1 \<leftarrow> tailq_prev (dlinks d1) elm;
     n1 \<leftarrow> TAILQ_NEXT (dlinks d1) elm;
     s2 \<leftarrow> tailq_put_slot (dlinks d1) p1 n1;
     s3 \<leftarrow> TAILQ_TRASHIT s2 elm;
     Some (QMD_TRACE_ELEM pl (d1\<lparr>dlinks := s3\<rparr>) elm)
   }"

text \<open>\<open>TAILQ_SWAP\<close> writes no trace.\<close>

definition TAILQ_SWAP_debug :: "tailq_debug \<Rightarrow> nat \<Rightarrow> nat \<Rightarrow> tailq_debug option" where
  "TAILQ_SWAP_debug d head1 head2 = map_option (\<lambda>s. d\<lparr>dlinks := s\<rparr>) (TAILQ_SWAP (dlinks d) head1 head2)"

section \<open>What overwriting links gives\<close>

text \<open>The removal of a family followed by overwriting the links of the removed element.\<close>

definition remove_trash :: "('s \<Rightarrow> nat \<Rightarrow> 's option) \<Rightarrow> ('s \<Rightarrow> nat \<Rightarrow> 's option) \<Rightarrow> 's \<Rightarrow> nat \<Rightarrow> 's option" where
  "remove_trash remove trash s x = Option.bind (remove s x) (\<lambda>s1. trash s1 x)"

locale link_trashing = intrusive_list +
  fixes dead :: nat
    and trash :: "'a \<Rightarrow> nat \<Rightarrow> 'a option"
  assumes rep_trash: "rep s xs \<Longrightarrow> x \<in> live s \<Longrightarrow> x \<notin> set xs \<Longrightarrow>
      \<exists>s'. trash s x = Some s' \<and> rep s' xs \<and> live s' = live s \<and> nxt s' x = Some (Some dead)"
    and next_live: "x \<notin> live s \<Longrightarrow> nxt s x = None"
    and remove_unallocated: "rep s xs \<Longrightarrow> x \<notin> live s \<Longrightarrow> remove s x = None"
    and remove_trashed: "rep s xs \<Longrightarrow> x \<notin> set xs \<Longrightarrow> nxt s x = Some (Some dead) \<Longrightarrow> dead \<notin> live s \<Longrightarrow> remove s x = None"
begin

abbreviation debug_remove :: "'a \<Rightarrow> nat \<Rightarrow> 'a option" where
  "debug_remove \<equiv> remove_trash remove trash"

lemma debug_removes:
  assumes "rep s (ys @ x # zs)"
  shows "\<exists>s'. debug_remove s x = Some s' \<and> rep s' (ys @ zs) \<and> live s' = live s \<and> nxt s' x = Some (Some dead) \<and>
    (dead \<notin> live s \<longrightarrow> debug_remove s' x = None)"
proof -
  from rep_remove [OF assms] obtain s1 where s1: "remove s x = Some s1" "rep s1 (ys @ zs)" "live s1 = live s" by blast
  have x: "x \<in> live s" "x \<notin> set (ys @ zs)" using rep_live [OF assms] by auto
  from rep_trash [OF s1(2), of x] x s1(3) obtain s' where s': "trash s1 x = Some s'" "rep s' (ys @ zs)" "live s' = live s"
    "nxt s' x = Some (Some dead)" by auto
  have "dead \<notin> live s \<longrightarrow> remove s' x = None" using remove_trashed [OF s'(2) x(2) s'(4)] s'(3) by simp
  then show ?thesis using s1(1) s' by (auto simp: remove_trash_def)
qed

text \<open>A loop that reads the successor of the removed element afterwards is caught.\<close>

lemma unsafe_loop_caught:
  assumes "rep s (ys @ zs)" and "\<exists>x \<in> set zs. P x" and "dead \<notin> live s"
  shows "FOREACH_FROM nxt (remove_if debug_remove P) (head_of zs) s = Some None"
  using assms(1,2)
proof (induction zs arbitrary: ys)
  case Nil
  then show ?case by simp
next
  case (Cons z zs)
  show ?case
  proof (cases "P z")
    case True
    from debug_removes [OF Cons.prems(1)] obtain s' where
      s': "debug_remove s z = Some s'" "rep s' (ys @ zs)" "live s' = live s" "nxt s' z = Some (Some dead)" by blast
    have "remove s' dead = None" "nxt s' dead = None"
      using remove_unallocated [OF s'(2)] next_live s'(3) assms(3) by auto
    then show ?thesis using True s' by (simp add: remove_if_def remove_trash_def split: option.splits)
  next
    case False
    then show ?thesis
      using Cons.IH [of "ys @ [z]"] Cons.prems rep_next [OF Cons.prems(1)] by (simp add: remove_if_def)
  qed
qed

lemma unsafe_first_caught:
  "rep s xs \<Longrightarrow> \<exists>x \<in> set xs. P x \<Longrightarrow> dead \<notin> live s \<Longrightarrow>
     FOREACH_FROM nxt (remove_if debug_remove P) (first s) s = Some None"
  using unsafe_loop_caught [of s "[]" xs P] by (simp add: rep_first)

end

text \<open>With the overwriting removal a family still meets the contract, so the safe loops filter.\<close>

sublocale link_trashing \<subseteq> debug: intrusive_list rep nxt live make_empty first insert_head insert_after debug_remove
proof unfold_locales
  fix s ys x zs
  assume "rep s (ys @ x # zs)"
  from debug_removes [OF this]
  show "\<exists>s'. debug_remove s x = Some s' \<and> rep s' (ys @ zs) \<and> live s' = live s" by blast
qed (rule rep_empty rep_first rep_live rep_insert_head rep_insert_after; assumption)+

text \<open>With a second list around, as for the plain operations.\<close>

lemma op_yields_trash:
  assumes op: "op_yields rep live s (remove s x) h xs h' ws" and x: "x \<in> live s" "x \<notin> set xs" "x \<notin> set ws"
    and trash: "\<And>h s xs. rep h s xs \<Longrightarrow> x \<in> live s \<Longrightarrow> x \<notin> set xs \<Longrightarrow>
      \<exists>s'. trash s x = Some s' \<and> rep h s' xs \<and> live s' = live s \<and> nxt s' x = Some (Some d)"
  shows "op_yields rep live s (remove_trash remove trash s x) h xs h' ws"
proof -
  from op obtain s1 where s1: "remove s x = Some s1" "rep h s1 xs" "rep h' s1 ws" "live s1 = live s"
    by (auto simp: op_yields_def)
  with trash [OF s1(2)] trash [OF s1(3)] x show ?thesis by (auto simp: op_yields_def remove_trash_def)
qed

section \<open>The four families\<close>

lemma LIST_REMOVE_debug_eq: "LIST_REMOVE_debug = remove_trash LIST_REMOVE LIST_TRASHIT"
  by (simp add: fun_eq_iff LIST_REMOVE_debug_def remove_trash_def)

lemma SLIST_REMOVE_debug_eq:
  "(\<lambda>x. ended (SLIST_REMOVE_debug s h x)) = remove_trash (\<lambda>s x. ended (SLIST_REMOVE s h x)) SLIST_TRASHIT s"
  by (auto simp: fun_eq_iff SLIST_REMOVE_debug_def remove_trash_def split: option.splits)

lemma STAILQ_REMOVE_debug_eq:
  "(\<lambda>x. ended (STAILQ_REMOVE_debug s h x)) = remove_trash (\<lambda>s x. ended (STAILQ_REMOVE s h x)) STAILQ_TRASHIT s"
  by (auto simp: fun_eq_iff STAILQ_REMOVE_debug_def remove_trash_def split: option.splits)

lemma TAILQ_REMOVE_trash_eq: "(\<lambda>s. TAILQ_REMOVE_trash s h) = remove_trash (\<lambda>s. TAILQ_REMOVE s h) TAILQ_TRASHIT"
  by (simp add: fun_eq_iff TAILQ_REMOVE_trash_def remove_trash_def)

lemma LIST_TRASHIT_rep:
  assumes "list_rep h s xs" "x \<in> list_live s" "x \<notin> set xs"
  shows "\<exists>s'. LIST_TRASHIT s x = Some s' \<and> list_rep h s' xs \<and> list_live s' = list_live s \<and> LIST_NEXT s' x = Some (Some TRASHED)"
proof -
  let ?s = "set_prev (set_next s x (Some TRASHED)) x (NextOf TRASHED)"
  have "list_rep h ?s xs = list_rep h s xs" by (rule list_rep_frame) (use assms in auto)
  then show ?thesis using assms by (simp add: LIST_TRASHIT_def LIST_NEXT_slot)
qed

lemma SLIST_TRASHIT_rep:
  assumes "slist_rep h s xs" "x \<in> slist_live s" "x \<notin> set xs"
  shows "\<exists>s'. SLIST_TRASHIT s x = Some s' \<and> slist_rep h s' xs \<and> slist_live s' = slist_live s \<and> SLIST_NEXT s' x = Some (Some TRASHED)"
proof -
  let ?s = "slist_set_next s x (Some TRASHED)"
  have "chain (slist_slot ?s) (FirstOf h) xs = chain (slist_slot s) (FirstOf h) xs" by (rule chain_frame) (use assms in auto)
  then show ?thesis using assms by (simp add: SLIST_TRASHIT_def SLIST_NEXT_slot slist_rep_def)
qed

lemma STAILQ_TRASHIT_rep:
  assumes "stailq_rep h s xs" "x \<in> stailq_live s" "x \<notin> set xs"
  shows "\<exists>s'. STAILQ_TRASHIT s x = Some s' \<and> stailq_rep h s' xs \<and> stailq_live s' = stailq_live s \<and> STAILQ_NEXT s' x = Some (Some TRASHED)"
proof -
  let ?s = "stailq_set_next s x (Some TRASHED)"
  have "chain (stailq_slot ?s) (FirstOf h) xs = chain (stailq_slot s) (FirstOf h) xs" by (rule chain_frame) (use assms in auto)
  then show ?thesis using assms by (simp add: STAILQ_TRASHIT_def STAILQ_NEXT_slot stailq_rep_def)
qed

lemma TAILQ_TRASHIT_rep:
  assumes "tailq_rep h s xs" "x \<in> tailq_live s" "x \<notin> set xs"
  shows "\<exists>s'. TAILQ_TRASHIT s x = Some s' \<and> tailq_rep h s' xs \<and> tailq_live s' = tailq_live s \<and> TAILQ_NEXT s' x = Some (Some TRASHED)"
proof -
  let ?s = "tailq_set_prev (tailq_set_next s x (Some TRASHED)) x (NextOf TRASHED)"
  have "chain (tailq_slot ?s) (FirstOf h) xs = chain (tailq_slot s) (FirstOf h) xs" by (rule chain_frame) (use assms in auto)
  moreover have "backs (tailq_prev ?s) (FirstOf h) xs = backs (tailq_prev s) (FirstOf h) xs" by (rule backs_frame) (use assms in auto)
  ultimately show ?thesis using assms by (simp add: TAILQ_TRASHIT_def TAILQ_NEXT_slot tailq_rep_def)
qed

interpretation list_trash: link_trashing "list_rep h" LIST_NEXT list_live "\<lambda>s. LIST_INIT s h" "\<lambda>s. LIST_FIRST s h"
  "\<lambda>s. LIST_INSERT_HEAD s h" LIST_INSERT_AFTER LIST_REMOVE TRASHED LIST_TRASHIT for h
proof unfold_locales
  fix s xs x
  assume "list_rep h s xs" "x \<in> list_live s" "x \<notin> set xs"
  then show "\<exists>s'. LIST_TRASHIT s x = Some s' \<and> list_rep h s' xs \<and> list_live s' = list_live s \<and> LIST_NEXT s' x = Some (Some TRASHED)"
    by (rule LIST_TRASHIT_rep)
next
  fix s x
  assume "x \<notin> list_live s"
  then show "LIST_NEXT s x = None" by (simp add: list_live_def LIST_NEXT_def domIff)
next
  fix s xs x
  assume "x \<notin> list_live s"
  then show "LIST_REMOVE s x = None" by (simp add: list_live_def LIST_NEXT_def LIST_REMOVE_def domIff)
next
  fix s xs x
  assume "LIST_NEXT s x = Some (Some TRASHED)" "TRASHED \<notin> list_live s"
  then show "LIST_REMOVE s x = None" by (simp add: LIST_REMOVE_def list_live_def put_prev_def domIff split: bind_splits)
qed

interpretation slist_trash: link_trashing "slist_rep h" SLIST_NEXT slist_live "\<lambda>s. SLIST_INIT s h"
  "\<lambda>s. SLIST_FIRST s h" "\<lambda>s. SLIST_INSERT_HEAD s h" SLIST_INSERT_AFTER "\<lambda>s x. ended (SLIST_REMOVE s h x)" TRASHED SLIST_TRASHIT for h
proof unfold_locales
  fix s xs x
  show "\<exists>s'. SLIST_TRASHIT s x = Some s' \<and> slist_rep h s' xs \<and> slist_live s' = slist_live s \<and> SLIST_NEXT s' x = Some (Some TRASHED)"
    if "slist_rep h s xs" "x \<in> slist_live s" "x \<notin> set xs" using that by (rule SLIST_TRASHIT_rep)
  show "SLIST_NEXT s x = None" if "x \<notin> slist_live s"
    using that by (simp add: slist_live_def SLIST_NEXT_def domIff)
  show "ended (SLIST_REMOVE s h x) = None" if "slist_rep h s xs" "x \<notin> slist_live s"
  proof -
    have "x \<notin> set xs" using slist_rep_live [OF that(1)] that(2) by blast
    then show ?thesis using SLIST_REMOVE_absent [OF that(1)] by simp
  qed
  show "ended (SLIST_REMOVE s h x) = None" if "slist_rep h s xs" "x \<notin> set xs"
    using SLIST_REMOVE_absent [OF that] by simp
qed

interpretation stailq_trash: link_trashing "stailq_rep h" STAILQ_NEXT stailq_live "\<lambda>s. STAILQ_INIT s h"
  "\<lambda>s. STAILQ_FIRST s h" "\<lambda>s. STAILQ_INSERT_HEAD s h" "\<lambda>s. STAILQ_INSERT_AFTER s h"
  "\<lambda>s x. ended (STAILQ_REMOVE s h x)" TRASHED STAILQ_TRASHIT for h
proof unfold_locales
  fix s xs x
  show "\<exists>s'. STAILQ_TRASHIT s x = Some s' \<and> stailq_rep h s' xs \<and> stailq_live s' = stailq_live s \<and> STAILQ_NEXT s' x = Some (Some TRASHED)"
    if "stailq_rep h s xs" "x \<in> stailq_live s" "x \<notin> set xs" using that by (rule STAILQ_TRASHIT_rep)
  show "STAILQ_NEXT s x = None" if "x \<notin> stailq_live s"
    using that by (simp add: stailq_live_def STAILQ_NEXT_def domIff)
  show "ended (STAILQ_REMOVE s h x) = None" if "stailq_rep h s xs" "x \<notin> stailq_live s"
  proof -
    have "x \<notin> set xs" using stailq_rep_live [OF that(1)] that(2) by blast
    then show ?thesis using STAILQ_REMOVE_absent [OF that(1)] by simp
  qed
  show "ended (STAILQ_REMOVE s h x) = None" if "stailq_rep h s xs" "x \<notin> set xs"
    using STAILQ_REMOVE_absent [OF that] by simp
qed

interpretation tailq_trash: link_trashing "tailq_rep h" TAILQ_NEXT tailq_live "\<lambda>s. TAILQ_INIT s h"
  "\<lambda>s. TAILQ_FIRST s h" "\<lambda>s. TAILQ_INSERT_HEAD s h" "\<lambda>s. TAILQ_INSERT_AFTER s h" "\<lambda>s. TAILQ_REMOVE s h" TRASHED TAILQ_TRASHIT for h
proof unfold_locales
  fix s xs x
  show "\<exists>s'. TAILQ_TRASHIT s x = Some s' \<and> tailq_rep h s' xs \<and> tailq_live s' = tailq_live s \<and> TAILQ_NEXT s' x = Some (Some TRASHED)"
    if "tailq_rep h s xs" "x \<in> tailq_live s" "x \<notin> set xs" using that by (rule TAILQ_TRASHIT_rep)
  show "TAILQ_NEXT s x = None" if "x \<notin> tailq_live s"
    using that by (simp add: tailq_live_def TAILQ_NEXT_def domIff)
  show "TAILQ_REMOVE s h x = None" if "tailq_rep h s xs" "x \<notin> tailq_live s"
    using that by (simp add: tailq_live_def TAILQ_NEXT_def TAILQ_REMOVE_def domIff)
  show "TAILQ_REMOVE s h x = None" if "TAILQ_NEXT s x = Some (Some TRASHED)" "TRASHED \<notin> tailq_live s"
    using that by (simp add: TAILQ_REMOVE_def tailq_live_def tailq_put_prev_def domIff split: bind_splits)
qed

section \<open>Properties of overwriting\<close>

lemma two_dlists_debug:
  "\<exists>s. list_rep 0 s [1, 2, 3] \<and> list_rep 1 s [4] \<and> list_live s = {1, 2, 3, 4, 5}"
  by (intro exI [of _ "\<lparr>lh_first = (\<lambda>_. None)(0 := Some 1, 1 := Some 4),
     list_nodes = [1 \<mapsto> \<lparr>le_next = Some 2, le_prev = FirstOf 0\<rparr>, 2 \<mapsto> \<lparr>le_next = Some 3, le_prev = NextOf 1\<rparr>,
       3 \<mapsto> \<lparr>le_next = None, le_prev = NextOf 2\<rparr>, 4 \<mapsto> \<lparr>le_next = None, le_prev = FirstOf 1\<rparr>,
       5 \<mapsto> \<lparr>le_next = None, le_prev = FirstOf 9\<rparr>]\<rparr>"])
    (auto simp: list_rep_def get_slot_def LIST_NEXT_def get_prev_def list_live_def)

text \<open>
  C24: with overwritten links every removal still takes exactly its element out of the represented
  list and leaves every other list as it was, and a misuse is caught: removing the element once more
  is an access to the overwritten address, in all four families.
\<close>

theorem debug_removal_refines:
  assumes "list_rep h s (ys @ x # zs)" "list_rep h' s ws" "TRASHED \<notin> list_live s"
    and "slist_rep h t (ys @ x # zs)" "slist_rep h' t ws" "TRASHED \<notin> slist_live t"
    and "stailq_rep h u (ys @ x # zs)" "stailq_rep h' u ws" "TRASHED \<notin> stailq_live u"
    and "tailq_rep h v (ys @ x # zs)" "tailq_rep h' v ws" "TRASHED \<notin> tailq_live v"
    and "h' \<noteq> h" and "set ws \<inter> set (ys @ x # zs) = {}"
  shows "op_yields list_rep list_live s (LIST_REMOVE_debug s x) h (ys @ zs) h' ws \<and>
    op_yields slist_rep slist_live t (ended (SLIST_REMOVE_debug t h x)) h (ys @ zs) h' ws \<and>
    op_yields stailq_rep stailq_live u (ended (STAILQ_REMOVE_debug u h x)) h (ys @ zs) h' ws \<and>
    op_yields tailq_rep tailq_live v (TAILQ_REMOVE_trash v h x) h (ys @ zs) h' ws \<and>
    Option.bind (LIST_REMOVE_debug s x) (\<lambda>s'. LIST_REMOVE_debug s' x) = None \<and>
    Option.bind (ended (SLIST_REMOVE_debug t h x)) (\<lambda>t'. ended (SLIST_REMOVE_debug t' h x)) = None \<and>
    Option.bind (ended (STAILQ_REMOVE_debug u h x)) (\<lambda>u'. ended (STAILQ_REMOVE_debug u' h x)) = None \<and>
    Option.bind (TAILQ_REMOVE_trash v h x) (\<lambda>v'. TAILQ_REMOVE_trash v' h x) = None"
proof -
  have x: "x \<notin> set ws" "x \<notin> set (ys @ zs)" using assms(14) list_rep_distinct [OF assms(1)] by auto
  have live: "x \<in> list_live s" "x \<in> slist_live t" "x \<in> stailq_live u" "x \<in> tailq_live v"
    using list_rep_live [OF assms(1)] slist_rep_live [OF assms(4)] stailq_rep_live [OF assms(7)] tailq_rep_live [OF assms(10)] by auto
  have op: "op_yields list_rep list_live s (LIST_REMOVE s x) h (ys @ zs) h' ws"
    "op_yields slist_rep slist_live t (ended (SLIST_REMOVE t h x)) h (ys @ zs) h' ws"
    "op_yields stailq_rep stailq_live u (ended (STAILQ_REMOVE u h x)) h (ys @ zs) h' ws"
    "op_yields tailq_rep tailq_live v (TAILQ_REMOVE v h x) h (ys @ zs) h' ws"
    using LIST_REMOVE_rep [OF assms(1)] SLIST_REMOVE_rep [OF assms(4)] STAILQ_REMOVE_rep [OF assms(7)] TAILQ_REMOVE_rep [OF assms(10)]
      assms(2,5,8,11,13,14) by (auto simp: op_yields_def)
  have "op_yields list_rep list_live s (remove_trash LIST_REMOVE LIST_TRASHIT s x) h (ys @ zs) h' ws"
    by (rule op_yields_trash [where nxt = LIST_NEXT and d = TRASHED]) (use op(1) live x LIST_TRASHIT_rep in blast)+
  moreover have "op_yields slist_rep slist_live t (remove_trash (\<lambda>t x. ended (SLIST_REMOVE t h x)) SLIST_TRASHIT t x) h (ys @ zs) h' ws"
    by (rule op_yields_trash [where nxt = SLIST_NEXT and d = TRASHED]) (use op(2) live x SLIST_TRASHIT_rep in blast)+
  moreover have "op_yields stailq_rep stailq_live u (remove_trash (\<lambda>u x. ended (STAILQ_REMOVE u h x)) STAILQ_TRASHIT u x) h (ys @ zs) h' ws"
    by (rule op_yields_trash [where nxt = STAILQ_NEXT and d = TRASHED]) (use op(3) live x STAILQ_TRASHIT_rep in blast)+
  moreover have "op_yields tailq_rep tailq_live v (remove_trash (\<lambda>v. TAILQ_REMOVE v h) TAILQ_TRASHIT v x) h (ys @ zs) h' ws"
    by (rule op_yields_trash [where nxt = TAILQ_NEXT and d = TRASHED]) (use op(4) live x TAILQ_TRASHIT_rep in blast)+
  ultimately show ?thesis
    using list_trash.debug_removes [OF assms(1)] slist_trash.debug_removes [OF assms(4)]
      stailq_trash.debug_removes [OF assms(7)] tailq_trash.debug_removes [OF assms(10)] assms(3,6,9,12)
    unfolding LIST_REMOVE_debug_eq SLIST_REMOVE_debug_eq [THEN fun_cong] STAILQ_REMOVE_debug_eq [THEN fun_cong]
      TAILQ_REMOVE_trash_eq [THEN fun_cong] by (metis bind.bind_lunit)
qed

lemma not_trashed: "TRASHED \<notin> {1, 2, 3, 4, 5}"
  by (simp add: TRASHED_def)

theorem debug_removal_refines_witness:
  "\<exists>s s' t' u' v'. LIST_REMOVE_debug s 2 = Some s' \<and> list_rep 0 s' [1, 3] \<and> list_rep 1 s' [4] \<and> LIST_REMOVE_debug s' 2 = None \<and>
    SLIST_REMOVE_debug two_slists 0 2 = Some (Some t') \<and> slist_rep 0 t' [1, 3] \<and>
    STAILQ_REMOVE_debug two_stailqs 0 2 = Some (Some u') \<and> stailq_rep 0 u' [1, 3] \<and>
    TAILQ_REMOVE_trash two_tailqs 0 2 = Some v' \<and> tailq_rep 0 v' [1, 3] \<and> TAILQ_REMOVE_trash v' 0 2 = None"
proof -
  obtain s where s: "list_rep 0 s [1, 2, 3]" "list_rep (Suc 0) s [4]" "list_live s = {1, 2, 3, 4, 5}"
    using two_dlists_debug by auto
  have "op_yields list_rep list_live s (LIST_REMOVE_debug s 2) 0 [1, 3] (Suc 0) [4] \<and>
    op_yields slist_rep slist_live two_slists (ended (SLIST_REMOVE_debug two_slists 0 2)) 0 [1, 3] (Suc 0) [4] \<and>
    op_yields stailq_rep stailq_live two_stailqs (ended (STAILQ_REMOVE_debug two_stailqs 0 2)) 0 [1, 3] (Suc 0) [4] \<and>
    op_yields tailq_rep tailq_live two_tailqs (TAILQ_REMOVE_trash two_tailqs 0 2) 0 [1, 3] (Suc 0) [4] \<and>
    Option.bind (LIST_REMOVE_debug s 2) (\<lambda>s'. LIST_REMOVE_debug s' 2) = None \<and>
    Option.bind (TAILQ_REMOVE_trash two_tailqs 0 2) (\<lambda>v'. TAILQ_REMOVE_trash v' 0 2) = None"
    using debug_removal_refines [of 0 s "[1]" 2 "[3]" "Suc 0" "[4]" two_slists two_stailqs two_tailqs]
      s two_slists_reps two_stailqs_reps two_tailqs_reps not_trashed by simp
  then obtain s' t' u' v' where "LIST_REMOVE_debug s 2 = Some s'" "list_rep 0 s' [1, 3]" "list_rep (Suc 0) s' [4]"
    "LIST_REMOVE_debug s' 2 = None" "SLIST_REMOVE_debug two_slists 0 2 = Some (Some t')" "slist_rep 0 t' [1, 3]"
    "STAILQ_REMOVE_debug two_stailqs 0 2 = Some (Some u')" "stailq_rep 0 u' [1, 3]"
    "TAILQ_REMOVE_trash two_tailqs 0 2 = Some v'" "tailq_rep 0 v' [1, 3]" "TAILQ_REMOVE_trash v' 0 2 = None"
    unfolding op_yields_def bind_eq_Some_conv by auto
  then show ?thesis unfolding One_nat_def by blast
qed

text \<open>
  C23: with overwritten links a loop that takes elements out of the list it walks along must be one of
  the safe ones: whenever it removes at least one element, the plain loop is caught at the overwritten
  address, while the safe loop ends and leaves exactly the elements it did not remove, in all four
  families.
\<close>

theorem debug_loops_must_be_safe:
  assumes "list_rep h s xs" "TRASHED \<notin> list_live s" and "slist_rep h t xs" "TRASHED \<notin> slist_live t"
    and "stailq_rep h u xs" "TRASHED \<notin> stailq_live u" and "tailq_rep h v xs" "TRASHED \<notin> tailq_live v"
    and "x \<in> set xs" "P x"
  shows "LIST_FOREACH (\<lambda>s. s) (remove_if LIST_REMOVE_debug P) h s = Some None \<and>
    (\<exists>s'. LIST_FOREACH_SAFE (\<lambda>s. s) (remove_if LIST_REMOVE_debug P) h s = Some (Some s') \<and> list_rep h s' (filter (\<lambda>x. \<not> P x) xs)) \<and>
    SLIST_FOREACH (\<lambda>t. t) (remove_if (\<lambda>t x. ended (SLIST_REMOVE_debug t h x)) P) h t = Some None \<and>
    (\<exists>t'. SLIST_FOREACH_SAFE (\<lambda>t. t) (remove_if (\<lambda>t x. ended (SLIST_REMOVE_debug t h x)) P) h t = Some (Some t') \<and>
       slist_rep h t' (filter (\<lambda>x. \<not> P x) xs)) \<and>
    STAILQ_FOREACH (\<lambda>u. u) (remove_if (\<lambda>u x. ended (STAILQ_REMOVE_debug u h x)) P) h u = Some None \<and>
    (\<exists>u'. STAILQ_FOREACH_SAFE (\<lambda>u. u) (remove_if (\<lambda>u x. ended (STAILQ_REMOVE_debug u h x)) P) h u = Some (Some u') \<and>
       stailq_rep h u' (filter (\<lambda>x. \<not> P x) xs)) \<and>
    TAILQ_FOREACH (\<lambda>v. v) (remove_if (\<lambda>v. TAILQ_REMOVE_trash v h) P) h v = Some None \<and>
    (\<exists>v'. TAILQ_FOREACH_SAFE (\<lambda>v. v) (remove_if (\<lambda>v. TAILQ_REMOVE_trash v h) P) h v = Some (Some v') \<and>
       tailq_rep h v' (filter (\<lambda>x. \<not> P x) xs))"
proof -
  have some: "\<exists>x \<in> set xs. P x" using assms(9,10) by blast
  note unsafe = list_trash.unsafe_first_caught [OF assms(1) some assms(2)] slist_trash.unsafe_first_caught [OF assms(3) some assms(4)]
    stailq_trash.unsafe_first_caught [OF assms(5) some assms(6)] tailq_trash.unsafe_first_caught [OF assms(7) some assms(8)]
  note safe = list_trash.debug.safe_remove_from [where ys = "[]" and P = P, simplified, OF assms(1)]
    slist_trash.debug.safe_remove_from [where ys = "[]" and P = P, simplified, OF assms(3)]
    stailq_trash.debug.safe_remove_from [where ys = "[]" and P = P, simplified, OF assms(5)]
    tailq_trash.debug.safe_remove_from [where ys = "[]" and P = P, simplified, OF assms(7)]
  show ?thesis
    unfolding LIST_FOREACH_def LIST_FOREACH_SAFE_def SLIST_FOREACH_def SLIST_FOREACH_SAFE_def STAILQ_FOREACH_def STAILQ_FOREACH_SAFE_def
      TAILQ_FOREACH_def TAILQ_FOREACH_SAFE_def LIST_REMOVE_debug_eq SLIST_REMOVE_debug_eq STAILQ_REMOVE_debug_eq TAILQ_REMOVE_trash_eq
    using unsafe safe list_rep_first [OF assms(1)] slist_rep_first [OF assms(3)] stailq_rep_first [OF assms(5)] tailq_rep_first [OF assms(7)]
    by metis
qed

theorem debug_loops_must_be_safe_witness:
  "(\<exists>s. list_rep 0 s [1, 2, 3] \<and> LIST_FOREACH (\<lambda>s. s) (remove_if LIST_REMOVE_debug even) 0 s = Some None) \<and>
    SLIST_FOREACH (\<lambda>t. t) (remove_if (\<lambda>t x. ended (SLIST_REMOVE_debug t 0 x)) even) 0 two_slists = Some None \<and>
    (\<exists>v'. TAILQ_FOREACH_SAFE (\<lambda>v. v) (remove_if (\<lambda>v. TAILQ_REMOVE_trash v 0) even) 0 two_tailqs = Some (Some v') \<and> tailq_rep 0 v' [1, 3])"
proof -
  obtain s where s: "list_rep 0 s [1, 2, 3]" "list_live s = {1, 2, 3, 4, 5}"
    using two_dlists_debug by auto
  show ?thesis
    using debug_loops_must_be_safe [of 0 s "[1, 2, 3]" two_slists two_stailqs two_tailqs 2 even]
      s two_slists_reps two_stailqs_reps two_tailqs_reps not_trashed
    by auto
qed

section \<open>Properties of the traces\<close>

text \<open>The operations of the tail queues, and a run of them without and with the traces.\<close>

datatype tailq_op =
    OpInit nat
  | OpConcat nat nat
  | OpInsertAfter nat nat nat
  | OpInsertBefore nat nat
  | OpInsertHead nat nat
  | OpInsertTail nat nat
  | OpRemove nat nat
  | OpSwap nat nat

fun tailq_run :: "tailq_store \<Rightarrow> tailq_op \<Rightarrow> tailq_store option" where
  "tailq_run s (OpInit h) = Some (TAILQ_INIT s h)"
| "tailq_run s (OpConcat h1 h2) = TAILQ_CONCAT s h1 h2"
| "tailq_run s (OpInsertAfter h y x) = TAILQ_INSERT_AFTER s h y x"
| "tailq_run s (OpInsertBefore z x) = TAILQ_INSERT_BEFORE s z x"
| "tailq_run s (OpInsertHead h x) = TAILQ_INSERT_HEAD s h x"
| "tailq_run s (OpInsertTail h x) = TAILQ_INSERT_TAIL s h x"
| "tailq_run s (OpRemove h x) = TAILQ_REMOVE_trash s h x"
| "tailq_run s (OpSwap h1 h2) = TAILQ_SWAP s h1 h2"

fun debug_run :: "tailq_debug \<Rightarrow> place \<times> tailq_op \<Rightarrow> tailq_debug option" where
  "debug_run d (pl, OpInit h) = Some (TAILQ_INIT_debug pl d h)"
| "debug_run d (pl, OpConcat h1 h2) = TAILQ_CONCAT_debug pl d h1 h2"
| "debug_run d (pl, OpInsertAfter h y x) = TAILQ_INSERT_AFTER_debug pl d h y x"
| "debug_run d (pl, OpInsertBefore z x) = TAILQ_INSERT_BEFORE_debug pl d z x"
| "debug_run d (pl, OpInsertHead h x) = TAILQ_INSERT_HEAD_debug pl d h x"
| "debug_run d (pl, OpInsertTail h x) = TAILQ_INSERT_TAIL_debug pl d h x"
| "debug_run d (pl, OpRemove h x) = TAILQ_REMOVE_debug pl d h x"
| "debug_run d (pl, OpSwap h1 h2) = TAILQ_SWAP_debug d h1 h2"

text \<open>The elements an operation is given, in the order in which it writes their traces.\<close>

fun given_elems :: "tailq_op \<Rightarrow> nat list" where
  "given_elems (OpInsertAfter h y x) = [x, y]"
| "given_elems (OpInsertBefore z x) = [x, z]"
| "given_elems (OpInsertHead h x) = [x]"
| "given_elems (OpInsertTail h x) = [x]"
| "given_elems (OpRemove h x) = [x]"
| "given_elems _ = []"

definition places_at :: "nat \<Rightarrow> (place \<times> tailq_op) list \<Rightarrow> place list" where
  "places_at x ops = concat (map (\<lambda>(pl, op). map (\<lambda>_. pl) (filter (\<lambda>y. y = x) (given_elems op))) ops)"

lemma QMD_TRACE_simps [simp]:
  "dlinks (QMD_TRACE_HEAD pl d h) = dlinks d" "dlinks (QMD_TRACE_ELEM pl d x) = dlinks d"
  "elem_trace (QMD_TRACE_HEAD pl d h) = elem_trace d" "head_trace (QMD_TRACE_ELEM pl d x) = head_trace d"
  "elem_trace (QMD_TRACE_ELEM pl d x) = (elem_trace d)(x := trace_at pl (elem_trace d x))"
  "head_trace (QMD_TRACE_HEAD pl d h) = (head_trace d)(h := trace_at pl (head_trace d h))"
  by (simp_all add: QMD_TRACE_HEAD_def QMD_TRACE_ELEM_def)

lemmas tailq_debug_defs = TAILQ_INIT_debug_def TAILQ_CONCAT_debug_def TAILQ_INSERT_AFTER_debug_def TAILQ_INSERT_BEFORE_debug_def
  TAILQ_INSERT_HEAD_debug_def TAILQ_INSERT_TAIL_debug_def TAILQ_REMOVE_debug_def TAILQ_SWAP_debug_def

text \<open>The traces do not change what an operation does to the links, nor whether it succeeds.\<close>

lemma debug_run_links: "map_option dlinks (debug_run d (pl, op)) = tailq_run (dlinks d) op"
  by (cases op) (auto simp: tailq_debug_defs TAILQ_CONCAT_def TAILQ_INSERT_AFTER_def TAILQ_REMOVE_trash_def TAILQ_REMOVE_def Let_def
      option.map_comp comp_def option.map_ident split: option.splits bind_splits)

lemma debug_run_elem:
  "debug_run d (pl, op) = Some d' \<Longrightarrow>
     elem_trace d' x = foldl (\<lambda>t _. trace_at pl t) (elem_trace d x) (filter (\<lambda>y. y = x) (given_elems op))"
  by (cases op) (auto simp: tailq_debug_defs Let_def split: option.splits bind_splits if_splits)

lemma debug_runs:
  "map_option dlinks (ofold debug_run d ops) = ofold tailq_run (dlinks d) (map snd ops)"
  "ofold debug_run d ops = Some d' \<Longrightarrow> elem_trace d' x = foldl (\<lambda>t pl. trace_at pl t) (elem_trace d x) (places_at x ops)"
proof (induction ops arbitrary: d)
  case Nil
  { case 1 then show ?case by simp }
  { case 2 then show ?case by (simp add: places_at_def) }
next
  case (Cons op ops)
  obtain pl o' where op: "op = (pl, o')" by (cases op)
  { case 1
    note links = debug_run_links [of d pl o']
    show ?case
      using Cons.IH(1) by (cases "debug_run d (pl, o')") (auto simp: op links [symmetric]) }
  { case 2
    then obtain d1 where d1: "debug_run d (pl, o') = Some d1" "ofold debug_run d1 ops = Some d'"
      by (auto simp: op split: bind_splits)
    then show ?case using Cons.IH(2) [OF d1(2)] debug_run_elem [OF d1(1), of x]
      by (simp add: places_at_def op foldl_map) }
qed

text \<open>
  The traces of the tail queues are transparent and record what they should for the elements an
  operation is given: a run of operations changes the links exactly as without traces, and at its end
  the trace of an element names the last two places of the source at which an operation was given it.
\<close>

lemma debug_traces_last_two:
  assumes "ofold debug_run d ops = Some d'" and "places_at x ops = pls @ [(l1, f1), (l2, f2)]"
  shows "ofold tailq_run (dlinks d) (map snd ops) = Some (dlinks d') \<and>
    elem_trace d' x = \<lparr>lastline = l2, prevline = l1, lastfile = Some f2, prevfile = Some f1\<rparr>"
  using debug_runs(1) [of d ops] debug_runs(2) [OF assms(1), of x] assms
  by (simp add: trace_at_def Let_def)

text \<open>
  The head is not traced when the removal of the first of several elements changes its first pointer,
  and joining two queues writes the trace of the second head twice, so that its previous place is lost.
\<close>

lemma head_change_untraced:
  assumes rep: "tailq_rep h (dlinks d) (x # y # zs)" and run: "TAILQ_REMOVE_debug pl d h x = Some d'"
  shows "TAILQ_FIRST (dlinks d') h = Some y" and "head_trace d' = head_trace d"
proof -
  have "TAILQ_REMOVE_trash (dlinks d) h x = Some (dlinks d')" using debug_run_links [of d pl "OpRemove h x"] run by simp
  moreover obtain s' where "TAILQ_REMOVE_trash (dlinks d) h x = Some s'" "tailq_rep h s' (y # zs)"
    using tailq_trash.debug_removes [of h "dlinks d" "[]" x "y # zs"] rep by (auto simp: TAILQ_REMOVE_trash_eq [THEN fun_cong])
  ultimately show "TAILQ_FIRST (dlinks d') h = Some y" using tailq_rep_first [of h s' "y # zs"] by simp
  have "TAILQ_NEXT (dlinks d) x = Some (Some y)" using tailq_rep_next [of h "dlinks d" "[]" x "y # zs"] rep by simp
  then show "head_trace d' = head_trace d" using run by (auto simp: TAILQ_REMOVE_debug_def split: bind_splits)
qed

lemma concat_traces_twice:
  assumes "TAILQ_CONCAT_debug pl d h1 h2 = Some d'" and "\<not> TAILQ_EMPTY (dlinks d) h2"
  shows "lastline (head_trace d' h2) = fst pl \<and> prevline (head_trace d' h2) = fst pl"
  using assms by (cases pl) (auto simp: TAILQ_CONCAT_debug_def TAILQ_INIT_debug_def trace_at_def Let_def split: bind_splits)

end
