(* ===== verification/Systemcalls.thy ===== *)
theory Systemcalls
  imports Prelude
begin

text \<open>
  \<open>examples/systemcalls/systemcalls.c\<close>: running a command through \<open>system\<close> and through
  \<open>fork\<close>, \<open>execv\<close> and \<open>waitpid\<close>. Both processes of a \<open>fork\<close> are modelled: the outcome is
  that of the process in which \<open>fork\<close> gave the answer in the environment. A \<open>bool\<close> variable that
  was never assigned is \<open>None\<close>, and returning it is \<open>Undefined\<close>. A pointer to a character is
  NULL (\<open>None\<close>) or points to a string; the variadic functions get their \<open>count\<close> and the list of the
  pointers that follow it, and build the argument vector of \<open>execv\<close> in an array on the stack, cell by
  cell. An element that was never assigned is \<open>None\<close>; taking an argument that is not there, a
  store outside the array and reading an element that was never assigned are \<open>Undefined\<close>.
\<close>

section \<open>The functions\<close>

definition do_system :: "int \<Rightarrow> string option \<Rightarrow> bool" where
  "do_system system_rc cmd =
     (case cmd of
        None \<Rightarrow> False
      | Some _ \<Rightarrow> (let ret = system_rc in if ret = 0 then True else False))"

text \<open>The array \<open>command[count+1]\<close>, its accesses by index, and the loop that fills it.\<close>

type_synonym char_ptr = "string option"
type_synonym ptr_array = "char_ptr option list"

definition store_ptr :: "int \<Rightarrow> char_ptr \<Rightarrow> ptr_array \<Rightarrow> ptr_array comp" where
  "store_ptr i p command =
     (if 0 \<le> i \<and> i < int (length command) then Inr (command[nat i := Some p]) else Inl Undefined)"

definition load_ptr :: "int \<Rightarrow> ptr_array \<Rightarrow> char_ptr comp" where
  "load_ptr i command =
     (if 0 \<le> i \<and> i < int (length command)
      then (case command ! nat i of None \<Rightarrow> Inl Undefined | Some p \<Rightarrow> Inr p) else Inl Undefined)"

fun va_arg :: "char_ptr list \<Rightarrow> (char_ptr \<times> char_ptr list) comp" where
  "va_arg [] = Inl Undefined"
| "va_arg (p # args) = Inr (p, args)"

function args_loop :: "int \<Rightarrow> int \<Rightarrow> char_ptr list \<Rightarrow> ptr_array \<Rightarrow> ptr_array comp" where
  "args_loop i count args command =
     (if i < count then
        andThen (va_arg args) (\<lambda>(p, args1). andThen (store_ptr i p command) (args_loop (i + 1) count args1))
      else Inr command)"
  by pat_completeness auto
termination
  by (relation "measure (\<lambda>(i, count, args, command). nat (count - i))") auto

declare args_loop.simps [simp del]

text \<open>
  The size of the array is an \<open>int\<close> that must not overflow and must be positive. The last two
  statements store the terminating NULL and assign it to itself.
\<close>

definition command_array :: "int \<Rightarrow> char_ptr list \<Rightarrow> ptr_array comp" where
  "command_array count args =
     (if count < 0 \<or> 2 ^ 31 \<le> count + 1 then Inl Undefined
      else
        andThen (args_loop 0 count args (replicate (nat (count + 1)) None)) (\<lambda>command.
        andThen (store_ptr count None command) (\<lambda>command1.
        andThen (load_ptr count command1) (\<lambda>p. store_ptr count p command1))))"

text \<open>The argument vector as \<open>execv\<close> reads it: the strings up to the first NULL.\<close>

fun read_argv :: "ptr_array \<Rightarrow> string list comp" where
  "read_argv [] = Inl Undefined"
| "read_argv (None # _) = Inl Undefined"
| "read_argv (Some None # _) = Inr []"
| "read_argv (Some (Some s) # ps) = andThen (read_argv ps) (\<lambda>argv. Inr (s # argv))"

text \<open>
  How a process leaves the function: it returns, exits with a status, or has become another
  program, the one of the given path with the given argument vector, and with the given descriptor
  as its standard output where it was redirected.
\<close>

datatype outcome = Returned bool | Exited int | Replaced string "string list" "nat option"

text \<open>The child: \<open>execv(command[0], command)\<close>, which does not return unless it fails, and \<open>exit(-1)\<close>.\<close>

definition execv_or_exit :: "bool \<Rightarrow> ptr_array \<Rightarrow> nat option \<Rightarrow> outcome comp" where
  "execv_or_exit fails command out =
     andThen (load_ptr 0 command) (\<lambda>path. andThen (read_argv command) (\<lambda>argv.
       case path of
         None \<Rightarrow> Inr (Exited (- 1))
       | Some p \<Rightarrow> if fails then Inr (Exited (- 1)) else Inr (Replaced p argv out)))"

definition return_bool :: "bool option \<Rightarrow> outcome comp" where
  "return_bool ret = (case ret of None \<Rightarrow> Inl Undefined | Some b \<Rightarrow> Inr (Returned b))"

text \<open>
  The answers of the kernel: the result of \<open>fork\<close>, whether \<open>execv\<close> fails, and what
  \<open>waitpid\<close> returns for the process number it is asked for, with the status it stores.
\<close>

record exec_env =
  ex_fork :: int
  ex_execv_fails :: bool
  ex_waitpid :: "int \<Rightarrow> int \<times> int"

definition do_exec :: "exec_env \<Rightarrow> int \<Rightarrow> char_ptr list \<Rightarrow> outcome comp" where
  "do_exec env count args =
     andThen (command_array count args) (\<lambda>command.
       let pid = ex_fork env; ret = (if pid = - 1 then Some False else None) in
       if pid = 0 then execv_or_exit (ex_execv_fails env) command None
       else
         let (rc, status) = ex_waitpid env pid; ret1 = (if rc = - 1 then Some False else ret) in
         return_bool ret1)"

text \<open>
  The redirecting variant also reports how the output file was opened (path, creation mode) and
  whether its descriptor was closed again in the parent.
\<close>

record redirect_env = exec_env +
  ex_open :: int
  ex_dup2 :: int

record redirect_trace =
  opened_as :: "(string \<times> nat) option"
  open_fd :: "int option"

definition do_exec_redirect :: "redirect_env \<Rightarrow> string \<Rightarrow> int \<Rightarrow> char_ptr list \<Rightarrow> outcome comp \<times> redirect_trace" where
  "do_exec_redirect env outputfile count args =
     (case command_array count args of
        Inl e \<Rightarrow> (Inl e, \<lparr>opened_as = None, open_fd = None\<rparr>)
      | Inr command \<Rightarrow>
          let fd = ex_open env;
              tr = \<lparr>opened_as = Some (outputfile, 644), open_fd = (if fd < 0 then None else Some fd)\<rparr>;
              ret = (if fd < 0 then Some False else None);
              pid = ex_fork env; ret1 = (if pid = - 1 then Some False else ret)
          in if pid = 0 then
               (if ex_dup2 env < 0 then Inr (Exited (- 1))
                else execv_or_exit (ex_execv_fails env) command (if fd < 0 then None else Some (nat fd)), tr)
             else
               let (rc, status) = ex_waitpid env pid; ret2 = (if rc = - 1 then Some False else ret1);
                   tr1 = (if 0 < fd then tr\<lparr>open_fd := None\<rparr> else tr)
               in (return_bool ret2, tr1))"

section \<open>The argument vector\<close>

text \<open>The loop invariant: the first arguments are in the array, the other elements are unassigned.\<close>

lemma args_loop_fills:
  "args_loop (int (length pre)) (int (length pre + length xs)) (xs @ extra) (map Some pre @ replicate (length xs + m) None) =
    Inr (map Some (pre @ xs) @ replicate m None)"
proof (induction xs arbitrary: pre)
  case Nil
  then show ?case by (simp add: args_loop.simps)
next
  case (Cons x xs)
  have "store_ptr (int (length pre)) x (map Some pre @ replicate (length (x # xs) + m) None) =
      Inr (map Some (pre @ [x]) @ replicate (length xs + m) None)"
    by (simp add: store_ptr_def list_update_append)
  then show ?case using Cons.IH [of "pre @ [x]"]
    by (subst args_loop.simps) (simp add: algebra_simps)
qed

lemma args_loop_runs_out:
  "i + int (length args) < count \<Longrightarrow> args_loop i count args command = Inl Undefined"
proof (induction args arbitrary: i command)
  case Nil
  then show ?case by (simp add: args_loop.simps)
next
  case (Cons x args)
  then show ?case by (subst args_loop.simps) (auto simp: store_ptr_def)
qed

text \<open>The first \<open>count\<close> arguments and a NULL; undefined when there are fewer arguments.\<close>

lemma command_array_fills:
  assumes "int (length xs) + 1 < 2 ^ 31"
  shows "command_array (int (length xs)) (xs @ extra) = Inr (map Some (xs @ [None]))"
proof -
  let ?n = "int (length xs)"
  have "args_loop 0 ?n (xs @ extra) (replicate (nat (?n + 1)) None) = Inr (map Some xs @ [None])"
    using args_loop_fills [of "[]" xs extra 1] by (simp add: nat_add_distrib)
  then show ?thesis using assms
    by (simp add: command_array_def store_ptr_def load_ptr_def nth_append list_update_append)
qed

lemma command_array_takes:
  assumes "0 \<le> count" and "count + 1 < 2 ^ 31" and "count \<le> int (length args)"
  shows "command_array count args = Inr (map Some (take (nat count) args @ [None]))"
proof -
  have "int (length (take (nat count) args)) = count" using assms(1,3) by simp
  then show ?thesis using command_array_fills [of "take (nat count) args" "drop (nat count) args"] assms(2) by simp
qed

lemma command_array_runs_out:
  assumes "int (length args) < count"
  shows "command_array count args = Inl Undefined"
  using args_loop_runs_out [of 0 args count] assms by (auto simp: command_array_def)

lemma read_argv_strings: "read_argv (map Some (map Some strs @ None # ps)) = Inr strs"
  by (induction strs) simp_all

lemma execv_gets_strings:
  assumes "ps = [] \<or> hd ps = None"
  shows "execv_or_exit fails (map Some (map Some strs @ ps @ [None])) out =
    Inr (if strs = [] \<or> fails then Exited (- 1) else Replaced (hd strs) strs out)"
proof -
  obtain qs where "ps @ [None] = None # qs" using assms by (cases ps) auto
  then show ?thesis using read_argv_strings [of strs qs] by (cases strs) (auto simp: execv_or_exit_def load_ptr_def)
qed

section \<open>Properties\<close>

text \<open>
  C37: called with at least as many arguments as they are told, \<open>do_exec\<close> and \<open>do_exec_redirect\<close>
  never return true in the calling process. When no call
  fails they return a variable that was never assigned, whatever the command's exit status; they
  return false exactly when a call of their own failed. The header comment promises true for a
  command that exits with zero and false for any other exit status.
\<close>

theorem exec_result_is_indeterminate:
  assumes "ex_fork env \<noteq> 0" and "0 \<le> count" and "count + 1 < 2 ^ 31" and "count \<le> int (length args)"
  shows "do_exec (exec_env.truncate env) count args =
      (if ex_fork env = - 1 \<or> fst (ex_waitpid env (ex_fork env)) = - 1 then Inr (Returned False) else Inl Undefined) \<and>
    fst (do_exec_redirect env outputfile count args) =
      (if ex_open env < 0 \<or> ex_fork env = - 1 \<or> fst (ex_waitpid env (ex_fork env)) = - 1
       then Inr (Returned False) else Inl Undefined)"
proof -
  note array = command_array_takes [OF assms(2-4)]
  show ?thesis using assms(1)
    by (auto simp: array do_exec_def do_exec_redirect_def return_bool_def exec_env.defs Let_def split: prod.splits)
qed

theorem exec_result_is_indeterminate_witness:
  "do_exec \<lparr>ex_fork = 42, ex_execv_fails = False, ex_waitpid = (\<lambda>p. (p, 0))\<rparr> 1 [Some ''/bin/true''] = Inl Undefined"
  using exec_result_is_indeterminate [of "\<lparr>ex_fork = 42, ex_execv_fails = False, ex_waitpid = (\<lambda>p. (p, 0)),
      ex_open = 3, ex_dup2 = 1\<rparr>" 1 "[Some ''/bin/true'']" "''/tmp/out''"]
  by (simp add: exec_env.defs)

text \<open>
  C38: the caller passes a number and at least as many pointers, of which \<open>strs\<close> are the strings up to
  the number or the first NULL. In the child of \<open>fork\<close> the new program is then the first of them, and
  its argument vector is exactly them, neither more nor fewer, whatever other arguments follow; the
  redirected child has the opened file as its standard output. When \<open>execv\<close> or \<open>dup2\<close> fails,
  or there is no string, the child exits with status minus one and does not return into the caller's
  program. With fewer arguments than their number, both functions are undefined before they open a
  file or make a process.
\<close>

theorem child_becomes_command:
  assumes "ex_fork env = 0" and "0 \<le> count" and "count + 1 < 2 ^ 31" and "count \<le> int (length args)"
    and "take (nat count) args = map Some strs @ ps" and "ps = [] \<or> hd ps = None"
  shows "do_exec (exec_env.truncate env) count args =
      Inr (if strs = [] \<or> ex_execv_fails env then Exited (- 1) else Replaced (hd strs) strs None) \<and>
    fst (do_exec_redirect env outputfile count args) =
      Inr (if ex_dup2 env < 0 \<or> strs = [] \<or> ex_execv_fails env then Exited (- 1)
           else Replaced (hd strs) strs (if ex_open env < 0 then None else Some (nat (ex_open env)))) \<and>
    (\<forall>few. int (length few) < count \<longrightarrow>
      do_exec (exec_env.truncate env) count few = Inl Undefined \<and>
      do_exec_redirect env outputfile count few = (Inl Undefined, \<lparr>opened_as = None, open_fd = None\<rparr>))"
proof -
  have array: "command_array count args = Inr (map Some (map Some strs @ ps @ [None]))"
    using command_array_takes [OF assms(2-4)] assms(5) by simp
  show ?thesis using assms(1) command_array_runs_out execv_gets_strings [OF assms(6)]
    by (simp add: array do_exec_def do_exec_redirect_def exec_env.defs Let_def del: map_append list.map)
qed

text \<open>Two strings and a third that is not counted; two counted arguments of which the second is NULL.\<close>

theorem child_becomes_command_witness:
  "fst (do_exec_redirect \<lparr>ex_fork = 0, ex_execv_fails = False, ex_waitpid = (\<lambda>p. (p, 0)), ex_open = 3, ex_dup2 = 1\<rparr>
     ''/tmp/out'' 2 [Some ''/bin/echo'', Some ''hi'', Some ''ho'']) = Inr (Replaced ''/bin/echo'' [''/bin/echo'', ''hi''] (Some 3)) \<and>
   do_exec \<lparr>ex_fork = 0, ex_execv_fails = False, ex_waitpid = (\<lambda>p. (p, 0))\<rparr> 2 [Some ''/bin/ls'', None] =
     Inr (Replaced ''/bin/ls'' [''/bin/ls''] None) \<and>
   do_exec \<lparr>ex_fork = 0, ex_execv_fails = False, ex_waitpid = (\<lambda>p. (p, 0))\<rparr> 2 [Some ''/bin/ls''] = Inl Undefined"
proof -
  let ?env = "\<lparr>ex_fork = 0, ex_execv_fails = False, ex_waitpid = (\<lambda>p. (p, 0)), ex_open = 3, ex_dup2 = 1\<rparr>"
  have "fst (do_exec_redirect ?env ''/tmp/out'' 2 [Some ''/bin/echo'', Some ''hi'', Some ''ho'']) =
      Inr (Replaced ''/bin/echo'' [''/bin/echo'', ''hi''] (Some 3))"
    using child_becomes_command [of ?env 2 "[Some ''/bin/echo'', Some ''hi'', Some ''ho'']" "[''/bin/echo'', ''hi'']" "[]" "''/tmp/out''"]
    by simp
  moreover have "do_exec (exec_env.truncate ?env) 2 [Some ''/bin/ls'', None] = Inr (Replaced ''/bin/ls'' [''/bin/ls''] None)"
    "do_exec (exec_env.truncate ?env) 2 [Some ''/bin/ls''] = Inl Undefined"
    using child_becomes_command [of ?env 2 "[Some ''/bin/ls'', None]" "[''/bin/ls'']" "[None]" "''/tmp/out''"] by simp_all
  ultimately show ?thesis by (simp add: exec_env.defs)
qed

text \<open>
  The output file is created with the decimal mode 644, that is octal 1204: the owner gets
  write permission only, the group none, others read, and the sticky bit is set. Octal 644 (420) is
  a different mode. The parent closes the descriptor on every path except for descriptor 0.
\<close>

lemma redirect_mode_and_close:
  assumes "ex_fork env \<noteq> 0" and "0 \<le> count" and "count + 1 < 2 ^ 31" and "count \<le> int (length args)"
  shows "opened_as (snd (do_exec_redirect env outputfile count args)) = Some (outputfile, 1 * 8 ^ 3 + 2 * 8 ^ 2 + 0 * 8 + 4) \<and>
    opened_as (snd (do_exec_redirect env outputfile count args)) \<noteq> Some (outputfile, 6 * 8 ^ 2 + 4 * 8 + 4) \<and>
    (open_fd (snd (do_exec_redirect env outputfile count args)) = None \<longleftrightarrow> ex_open env \<noteq> 0)"
  using assms(1) command_array_takes [OF assms(2-4)] by (auto simp: do_exec_redirect_def Let_def split: prod.splits)

end
