(* ===== verification/Threading.thy ===== *)
theory Threading
  imports Prelude
begin

text \<open>
  \<open>examples/threading/threading.c\<close>: a thread that waits, takes a mutex, holds it for a while and
  releases it. \<open>int\<close> arithmetic outside its 32-bit range is \<open>Undefined\<close>; an object is stored to
  field by field, and a store outside the allocated bytes is \<open>Undefined\<close>. The layout of the
  structure is computed from the sizes and alignments of the types, which are those of any platform.
\<close>

section \<open>The thread function\<close>


text \<open>What a thread does, in order; the argument of \<open>usleep\<close> is an unsigned 32-bit number.\<close>

datatype action = Usleep u32 | Locked nat | Unlocked nat

definition int32_ok :: "int \<Rightarrow> bool" where
  "int32_ok i \<longleftrightarrow> - (2 ^ 31) \<le> i \<and> i < 2 ^ 31"

definition sleep_ms :: "int \<Rightarrow> action comp" where
  "sleep_ms milliseconds =
     (if int32_ok (milliseconds * 1000) then Inr (Usleep (word_of_int (milliseconds * 1000))) else Inl Undefined)"


section \<open>Starting the thread\<close>

text \<open>The sizes and alignments of the types, and those of the x86-64 System V ABI.\<close>

record abi =
  pointer_size :: nat
  pointer_align :: nat
  int_size :: nat
  int_align :: nat
  bool_size :: nat
  bool_align :: nat

definition x86_64 :: abi where
  "x86_64 = \<lparr>pointer_size = 8, pointer_align = 8, int_size = 4, int_align = 4, bool_size = 1, bool_align = 1\<rparr>"

text \<open>
  The layout of a structure: every field, given by its size and alignment, starts at the first
  multiple of its alignment after the field before it; the size is rounded up to the
  largest alignment.
\<close>

definition align_up :: "nat \<Rightarrow> nat \<Rightarrow> nat" where
  "align_up n a = (n + a - 1) div a * a"

fun layout :: "nat \<Rightarrow> (nat \<times> nat) list \<Rightarrow> (nat \<times> nat) list" where
  "layout off [] = []"
| "layout off ((sz, al) # fs) = (align_up off al, sz) # layout (align_up off al + sz) fs"

definition sizeof_struct :: "(nat \<times> nat) list \<Rightarrow> nat" where
  "sizeof_struct fs =
     (let last = layout 0 fs ! (length fs - 1)
      in if fs = [] then 0 else align_up (fst last + snd last) (foldr max (map snd fs) 1))"

text \<open>The fields of \<open>struct thread_data\<close> in their order, and where they are: offset and size.\<close>

definition thread_data_fields :: "abi \<Rightarrow> (nat \<times> nat) list" where
  "thread_data_fields abi =
     [(pointer_size abi, pointer_align abi), (int_size abi, int_align abi), (int_size abi, int_align abi),
      (bool_size abi, bool_align abi)]"

definition thread_data_layout :: "abi \<Rightarrow> (nat \<times> nat) list" where
  "thread_data_layout abi = layout 0 (thread_data_fields abi)"

definition sizeof_struct_thread_data :: "abi \<Rightarrow> nat" where
  "sizeof_struct_thread_data abi = sizeof_struct (thread_data_fields abi)"

abbreviation field_mutex :: "abi \<Rightarrow> nat \<times> nat" where
  "field_mutex abi \<equiv> thread_data_layout abi ! 0"

abbreviation field_wait_to_obtain_ms :: "abi \<Rightarrow> nat \<times> nat" where
  "field_wait_to_obtain_ms abi \<equiv> thread_data_layout abi ! 1"

abbreviation field_wait_to_release_ms :: "abi \<Rightarrow> nat \<times> nat" where
  "field_wait_to_release_ms abi \<equiv> thread_data_layout abi ! 2"

abbreviation field_thread_complete_success :: "abi \<Rightarrow> nat \<times> nat" where
  "field_thread_complete_success abi \<equiv> thread_data_layout abi ! 3"

text \<open>\<open>sizeof(thread_data)\<close> names the pointer being declared, not the structure.\<close>

definition sizeof_thread_data :: "abi \<Rightarrow> nat" where
  "sizeof_thread_data abi = pointer_size abi"

text \<open>An object of some bytes, or NULL; a store checks that the field lies inside.\<close>

definition store_field :: "nat option \<Rightarrow> nat \<times> nat \<Rightarrow> unit comp" where
  "store_field obj f =
     (case obj of
        None \<Rightarrow> Inl Undefined
      | Some sz \<Rightarrow> if fst f + snd f \<le> sz then Inr () else Inl Undefined)"

text \<open>The stores of \<open>start_thread_obtaining_mutex\<close> into an object of the given size.\<close>

definition setup_thread_data :: "abi \<Rightarrow> nat option \<Rightarrow> unit comp" where
  "setup_thread_data abi obj =
     andThen (store_field obj (field_mutex abi)) (\<lambda>_.
     andThen (store_field obj (field_wait_to_obtain_ms abi)) (\<lambda>_.
     store_field obj (field_wait_to_release_ms abi)))"

definition start_thread_obtaining_mutex :: "abi \<Rightarrow> bool \<Rightarrow> int \<Rightarrow> bool comp" where
  "start_thread_obtaining_mutex abi malloc_ok create_rc =
     andThen (setup_thread_data abi (if malloc_ok then Some (sizeof_thread_data abi) else None)) (\<lambda>_.
       let rc = create_rc in Inr (if rc = 0 then True else False))"

section \<open>Layouts\<close>

lemma align_up:
  assumes "0 < a"
  shows "n \<le> align_up n a" and "a dvd align_up n a"
proof -
  have "n + a - 1 < (n + a - 1) div a * a + a"
    using dividend_less_div_times [OF assms, of "n + a - 1"] by simp
  then show "n \<le> align_up n a" unfolding align_up_def by linarith
qed (simp add: align_up_def)

lemma length_layout [simp]: "length (layout off fs) = length fs"
  by (induction off fs rule: layout.induct) simp_all

text \<open>Every field is aligned and starts after the end of every field before it.\<close>

lemma layout_aligned:
  "i < length fs \<Longrightarrow> \<forall>f \<in> set fs. 0 < snd f \<Longrightarrow>
    snd (fs ! i) dvd fst (layout off fs ! i) \<and> snd (layout off fs ! i) = fst (fs ! i) \<and> off \<le> fst (layout off fs ! i)"
proof (induction off fs arbitrary: i rule: layout.induct)
  case (2 off sz al fs)
  note up = align_up [of al off]
  show ?case
  proof (cases i)
    case 0
    then show ?thesis using 2 up by simp
  next
    case (Suc j)
    with 2 have "snd (fs ! j) dvd fst (layout (align_up off al + sz) fs ! j) \<and>
        snd (layout (align_up off al + sz) fs ! j) = fst (fs ! j) \<and> align_up off al + sz \<le> fst (layout (align_up off al + sz) fs ! j)"
      by simp
    then show ?thesis using 2(3) up Suc by simp
  qed
qed simp

lemma layout_disjoint:
  "j < length fs \<Longrightarrow> i < j \<Longrightarrow> \<forall>f \<in> set fs. 0 < snd f \<Longrightarrow>
    fst (layout off fs ! i) + snd (layout off fs ! i) \<le> fst (layout off fs ! j)"
proof (induction off fs arbitrary: i j rule: layout.induct)
  case (2 off sz al fs)
  then obtain k where k: "j = Suc k" by (cases j) auto
  show ?case
  proof (cases i)
    case 0
    then show ?thesis using layout_aligned [of k fs "align_up off al + sz"] 2 k by simp
  next
    case (Suc l)
    then show ?thesis using 2 k by simp
  qed
qed simp

text \<open>Every field lies inside the structure.\<close>

lemma layout_inside:
  assumes "i < length fs" and "\<forall>f \<in> set fs. 0 < snd f"
  shows "fst (layout 0 fs ! i) + snd (layout 0 fs ! i) \<le> sizeof_struct fs"
proof -
  let ?l = "layout 0 fs ! (length fs - 1)"
  have "0 < foldr max (map snd fs) (1 :: nat)" by (induction fs) auto
  then have "fst ?l + snd ?l \<le> sizeof_struct fs"
    using assms(1) align_up(1) by (auto simp: sizeof_struct_def Let_def)
  moreover have "fst (layout 0 fs ! i) + snd (layout 0 fs ! i) \<le> fst ?l + snd ?l"
  proof (cases "i = length fs - 1")
    case False
    then show ?thesis using layout_disjoint [of "length fs - 1" fs i 0] assms by fastforce
  qed simp
  ultimately show ?thesis by simp
qed

section \<open>Properties\<close>

lemma uint_u32: "uint (word_of_int i :: u32) = i mod 2 ^ 32"
  by (simp add: uint_word_of_int)




text \<open>
  A wait of more than 2147483 milliseconds overflows the \<open>int\<close> that is handed to
  \<open>usleep\<close>; a negative wait is not rejected but becomes a sleep of more than half an hour.
\<close>

lemma sleep_overflows:
  "(2147483 < ms \<longrightarrow> sleep_ms ms = Inl Undefined) \<and>
   (- 2147483 \<le> ms \<and> ms < 0 \<longrightarrow> (\<exists>u. sleep_ms ms = Inr (Usleep u) \<and> 2 ^ 31 \<le> uint u))"
proof (intro conjI impI)
  assume "2147483 < ms"
  then show "sleep_ms ms = Inl Undefined" by (simp add: sleep_ms_def int32_ok_def)
next
  assume ms: "- 2147483 \<le> ms \<and> ms < 0"
  have "uint (word_of_int (ms * 1000) :: u32) = (ms * 1000) mod 2 ^ 32" by (rule uint_u32)
  also have "\<dots> = (ms * 1000 + 2 ^ 32) mod 2 ^ 32" by simp
  also have "\<dots> = ms * 1000 + 2 ^ 32" using ms by (intro mod_pos_pos_trivial) simp_all
  finally have "2 ^ 31 \<le> uint (word_of_int (ms * 1000) :: u32)" using ms by simp
  moreover have "int32_ok (ms * 1000)" using ms by (simp add: int32_ok_def)
  ultimately show "\<exists>u. sleep_ms ms = Inr (Usleep u) \<and> 2 ^ 31 \<le> uint u"
    unfolding sleep_ms_def by (simp only: if_True) blast
qed

text \<open>
  C40: whatever the sizes and alignments of the types are, \<open>start_thread_obtaining_mutex\<close> leaves its
  object on every call: it allocates \<open>sizeof(thread_data)\<close>, which is the size of the pointer, while its
  stores need all bytes up to the end of the third field and stay inside exactly the objects
  that have them; it stores through NULL when the allocation fails. An object of the
  structure's size holds every field, none overlaps another, and each is aligned.
\<close>

theorem start_thread_overruns_allocation:
  assumes "0 < pointer_align abi" and "0 < int_align abi" and "0 < bool_align abi" and "0 < int_size abi"
  shows "start_thread_obtaining_mutex abi malloc_ok create_rc = Inl Undefined \<and>
    (setup_thread_data abi (Some sz) = Inr () \<longleftrightarrow>
      fst (field_wait_to_release_ms abi) + int_size abi \<le> sz) \<and>
    sizeof_thread_data abi < fst (field_wait_to_release_ms abi) + int_size abi \<and>
    (\<forall>i < 4. store_field (Some (sizeof_struct_thread_data abi)) (thread_data_layout abi ! i) = Inr () \<and>
      snd (thread_data_fields abi ! i) dvd fst (thread_data_layout abi ! i) \<and>
      (\<forall>j < i. fst (thread_data_layout abi ! j) + snd (thread_data_layout abi ! j) \<le> fst (thread_data_layout abi ! i)))"
proof -
  let ?l = "thread_data_layout abi" and ?fs = "thread_data_fields abi"
  have fs: "length ?fs = 4" "\<forall>f \<in> set ?fs. 0 < snd f" using assms by (auto simp: thread_data_fields_def)
  have at: "snd (?fs ! i) dvd fst (?l ! i) \<and> snd (?l ! i) = fst (?fs ! i)" if "i < 4" for i
    using layout_aligned [of i ?fs 0] fs that by (simp add: thread_data_layout_def)
  have apart: "fst (?l ! j) + snd (?l ! j) \<le> fst (?l ! i)" if "j < i" "i < 4" for i j
    using layout_disjoint [of i ?fs j 0] fs that by (simp add: thread_data_layout_def)
  have inside: "store_field (Some (sizeof_struct_thread_data abi)) (?l ! i) = Inr ()" if "i < 4" for i
    using layout_inside [of i ?fs] fs that by (simp add: store_field_def thread_data_layout_def sizeof_struct_thread_data_def)
  have size: "snd (?l ! 0) = pointer_size abi" "snd (?l ! 1) = int_size abi" "snd (?l ! 2) = int_size abi"
    using at [of 0] at [of 1] at [of 2] by (simp_all add: thread_data_fields_def)
  note ends = apart [of 0 1, unfolded size] apart [of 1 2, unfolded size]
  have stores: "setup_thread_data abi (Some sz) = Inr () \<longleftrightarrow> fst (?l ! 2) + int_size abi \<le> sz" for sz
    using ends size by (auto simp: setup_thread_data_def store_field_def andThen_Inr_iff)
  have "pointer_size abi < fst (?l ! 2) + int_size abi" using ends assms(4) by simp
  moreover from this have "start_thread_obtaining_mutex abi malloc_ok create_rc = Inl Undefined"
    using stores [of "pointer_size abi"]
    by (auto simp: start_thread_obtaining_mutex_def setup_thread_data_def store_field_def sizeof_thread_data_def size split: if_splits)
  ultimately show ?thesis using stores at apart inside by (simp add: sizeof_thread_data_def)
qed

theorem start_thread_overruns_allocation_witness:
  "start_thread_obtaining_mutex x86_64 True 0 = Inl Undefined \<and> sizeof_thread_data x86_64 = 8 \<and>
   setup_thread_data x86_64 (Some 16) = Inr () \<and> sizeof_struct_thread_data x86_64 = 24 \<and>
   thread_data_layout x86_64 = [(0, 8), (8, 4), (12, 4), (16, 1)]"
proof -
  have l: "thread_data_layout x86_64 = [(0, 8), (8, 4), (12, 4), (16, 1)]"
    by (simp add: thread_data_layout_def thread_data_fields_def x86_64_def align_up_def)
  have "start_thread_obtaining_mutex x86_64 True 0 = Inl Undefined \<and> setup_thread_data x86_64 (Some 16) = Inr ()"
    using start_thread_overruns_allocation [of x86_64 True 0 16] l by (simp add: x86_64_def)
  moreover have "sizeof_struct_thread_data x86_64 = 24" "sizeof_thread_data x86_64 = 8"
    by (simp_all add: sizeof_struct_thread_data_def sizeof_struct_def thread_data_fields_def x86_64_def align_up_def
        sizeof_thread_data_def)
  ultimately show ?thesis using l by simp
qed

end
