(* ===== verification/Writer.thy ===== *)
theory Writer
  imports Prelude
begin

text \<open>
  \<open>finder-app/writer.c\<close>: append a line to a file, creating its directory. A file system is the
  set of its directories and the contents of its files; a C string is the list of
  its characters before the terminating null. \<open>dirname\<close> is modelled as the C library defines it:
  it shortens the string in place, or returns a static ``.'' when the path has no directory part.
\<close>

section \<open>Paths\<close>

abbreviation slash :: char where
  "slash \<equiv> CHR ''/''"

text \<open>The directory that contains a path, as \<open>mkdir\<close> looks it up: everything before the last slash.\<close>

definition parent_dir :: "string \<Rightarrow> string" where
  "parent_dir p = rev (tl (dropWhile (\<lambda>c. c \<noteq> slash) (rev p)))"

record file_system =
  fs_dirs :: "string set"
  fs_files :: "string \<rightharpoonup> bytes"

text \<open>
  \<open>mkdir\<close> creates a directory whose parent exists, unless a file has its name; the empty string
  is the directory the path starts from, the root or the working directory.
\<close>

definition sys_mkdir :: "string \<Rightarrow> file_system \<Rightarrow> file_system" where
  "sys_mkdir p fs = (if p \<noteq> [] \<and> parent_dir p \<in> fs_dirs fs \<and> fs_files fs p = None then fs\<lparr>fs_dirs := insert p (fs_dirs fs)\<rparr> else fs)"

section \<open>Creating directories\<close>

text \<open>
  The loop over the string: at every slash after the first character the string is cut there, the
  directory made, and the slash put back.
\<close>

function mkdir_loop :: "string \<Rightarrow> nat \<Rightarrow> string list" where
  "mkdir_loop tmp p =
     (if p < length tmp then
        if tmp ! p = slash then take p tmp # mkdir_loop tmp (Suc p)
        else mkdir_loop tmp (Suc p)
      else [])"
  by pat_completeness auto
termination
  by (relation "measure (\<lambda>(tmp, p). length tmp - p)") auto

declare mkdir_loop.simps [simp del]

text \<open>
  The calls of \<open>_mkdir\<close> in order. The buffer has 256 bytes, so \<open>snprintf\<close> keeps 255 characters;
  with an empty string the test of the last character reads before the buffer.
\<close>

definition mkdir_calls :: "string \<Rightarrow> string list comp" where
  "mkdir_calls dir =
     (let tmp = take 255 dir; len = length tmp in
      if len = 0 then Inl Undefined
      else
        let tmp1 = (if tmp ! (len - 1) = slash then take (len - 1) tmp else tmp)
        in Inr (mkdir_loop tmp1 1 @ [tmp1]))"

definition mkdir_path :: "string \<Rightarrow> file_system \<Rightarrow> file_system comp" where
  "mkdir_path dir fs = andThen (mkdir_calls dir) (\<lambda>calls. Inr (fold sys_mkdir calls fs))"

section \<open>The program\<close>

text \<open>
  \<open>dirname\<close>: trailing slashes do not count; the result is the string cut before the last
  component, in the same memory, or the static string.
\<close>

datatype str_ptr = InBuffer string | StaticString string

definition c_dirname :: "string \<Rightarrow> str_ptr" where
  "c_dirname path =
     (let trimmed = rev (dropWhile (\<lambda>c. c = slash) (rev path));
          cut = rev (dropWhile (\<lambda>c. c \<noteq> slash) (rev trimmed))
      in if path \<noteq> [] \<and> trimmed = [] then InBuffer [slash]
         else if cut = [] then StaticString ''.''
         else let d = rev (dropWhile (\<lambda>c. c = slash) (rev cut)) in InBuffer (if d = [] then [slash] else d))"

fun str_of :: "str_ptr \<Rightarrow> string" where
  "str_of (InBuffer s) = s"
| "str_of (StaticString s) = s"

text \<open>
  The answers the program cannot foresee: whether \<open>malloc\<close> and \<open>fopen\<close> succeed and whether
  \<open>fprintf\<close> fails. \<open>dir_exists\<close> is the test with \<open>stat\<close>.
\<close>

record writer_env =
  wr_malloc_ok :: bool
  wr_fopen_ok :: bool
  wr_fprintf_fails :: bool

definition writer_main :: "writer_env \<Rightarrow> (string \<Rightarrow> file_system \<Rightarrow> bool) \<Rightarrow> string list \<Rightarrow> file_system \<Rightarrow> (int \<times> file_system) comp" where
  "writer_main env dir_exists argv fs =
     (if length argv < 3 then Inr (1, fs)
      else
        let path = argv ! 1; string_to_write = argv ! 2 in
        if \<not> wr_malloc_ok env then Inl Undefined
        else
          let dir = c_dirname path in
          andThen (if dir_exists (str_of dir) fs then Inr fs else mkdir_path (str_of dir) fs) (\<lambda>fs1.
            case dir of
              StaticString _ \<Rightarrow> Inl Undefined
            | InBuffer _ \<Rightarrow>
                if \<not> wr_fopen_ok env then Inr (1, fs1)
                else
                  let old = (case fs_files fs1 path of None \<Rightarrow> [] | Some bs \<Rightarrow> bs) in
                  if wr_fprintf_fails env then Inr (1, fs1\<lparr>fs_files := (fs_files fs1)(path \<mapsto> old)\<rparr>)
                  else Inr (0, fs1\<lparr>fs_files := (fs_files fs1)(path \<mapsto> old @ string_to_write @ [newline])\<rparr>)))"

section \<open>Paths as components\<close>

definition join :: "string list \<Rightarrow> string" where
  "join cs = concat (map (\<lambda>c. slash # c) cs)"

text \<open>
  A path without empty components starts with a component, after a slash if it is absolute; the rest
  of it is joined to that.
\<close>

abbreviation component :: "string \<Rightarrow> bool" where
  "component c \<equiv> c \<noteq> [] \<and> slash \<notin> set c"

definition first_part :: "string \<Rightarrow> bool" where
  "first_part h \<longleftrightarrow> component h \<or> (\<exists>c. component c \<and> h = slash # c)"

text \<open>The directories on the way to \<open>h @ join cs\<close>, from the top down, itself last.\<close>

definition chain :: "string \<Rightarrow> string list \<Rightarrow> string list" where
  "chain h cs = map (\<lambda>i. h @ join (take i cs)) [0..<Suc (length cs)]"

lemma join_simps [simp]: "join [] = []" "join (c # cs) = slash # c @ join cs" "join (cs @ ds) = join cs @ join ds"
  by (simp_all add: join_def)

lemma mkdir_loop_skip:
  assumes "slash \<notin> set c"
  shows "mkdir_loop (pre @ c @ post) (length pre) = mkdir_loop (pre @ c @ post) (length (pre @ c))"
  using assms
proof (induction c arbitrary: pre)
  case (Cons x c)
  from Cons.IH [of "pre @ [x]"] Cons.prems show ?case
    by (subst mkdir_loop.simps) (auto simp: nth_append)
qed simp

lemma mkdir_loop_join:
  "\<forall>c \<in> set cs. component c \<Longrightarrow>
    mkdir_loop (pre @ join cs) (length pre) = map (\<lambda>i. pre @ join (take i cs)) [0..<length cs]"
proof (induction cs arbitrary: pre)
  case Nil
  then show ?case by (simp add: mkdir_loop.simps)
next
  case (Cons c cs)
  let ?tmp = "pre @ join (c # cs)" and ?pre = "pre @ slash # c"
  have "mkdir_loop ?tmp (length pre) = pre # mkdir_loop ?tmp (length (pre @ [slash]))"
    by (subst mkdir_loop.simps) (simp add: nth_append)
  also have "mkdir_loop ?tmp (length (pre @ [slash])) = mkdir_loop (?pre @ join cs) (length ?pre)"
    using mkdir_loop_skip [of c "pre @ [slash]" "join cs"] Cons.prems by simp
  also have "\<dots> = map (\<lambda>i. ?pre @ join (take i cs)) [0..<length cs]"
    by (rule Cons.IH) (use Cons.prems in simp)
  finally show ?case by (simp add: upt_conv_Cons map_Suc_upt [symmetric] del: upt_Suc)
qed

lemma first_part_facts:
  assumes "first_part h"
  shows "h \<noteq> []" and "last h \<noteq> slash" and "slash \<notin> set (tl h)" and "parent_dir h = []"
proof -
  from assms obtain c where c: "component c" "h = c \<or> h = slash # c" by (auto simp: first_part_def)
  then show "h \<noteq> []" by auto
  from c(1) have "last c \<noteq> slash" using last_in_set by metis
  then show "last h \<noteq> slash" using c by auto
  show "slash \<notin> set (tl h)" using c by (cases c) auto
  have all: "dropWhile (\<lambda>x. x \<noteq> slash) (rev c) = []" using c(1) by (auto simp: dropWhile_eq_Nil_conv)
  moreover have "dropWhile (\<lambda>x. x \<noteq> slash) (rev c @ [slash]) = [slash]" using c(1) by (subst dropWhile_append2) auto
  ultimately show "parent_dir h = []" using c(2) by (elim disjE) (simp_all only: parent_dir_def rev.simps tl_Nil list.sel append_Nil)
qed

lemma path_last:
  assumes "first_part h" and "\<forall>c \<in> set cs. component c"
  shows "h @ join cs \<noteq> []" and "last (h @ join cs) \<noteq> slash"
proof -
  note h = first_part_facts [OF assms(1)]
  show "h @ join cs \<noteq> []" using h(1) by simp
  show "last (h @ join cs) \<noteq> slash"
  proof (cases cs rule: rev_cases)
    case Nil
    then show ?thesis using h(2) by simp
  next
    case (snoc ds c)
    with assms(2) have c: "c \<noteq> []" "slash \<notin> set c" by auto
    then have "last (h @ join cs) = last c" using snoc by simp
    then show ?thesis using c last_in_set by metis
  qed
qed

lemma mkdir_calls_path:
  assumes h: "first_part h" and cs: "\<forall>c \<in> set cs. component c" and len: "length (h @ join cs) \<le> 255"
  shows "mkdir_calls (h @ join cs) = Inr (chain h cs)"
proof -
  let ?d = "h @ join cs"
  note pl = path_last [OF h cs] and hf = first_part_facts [OF h]
  have "?d ! (length ?d - 1) \<noteq> slash" using pl by (simp only: last_conv_nth [symmetric] not_False_eq_True)
  then have calls: "mkdir_calls ?d = Inr (mkdir_loop ?d 1 @ [?d])"
    using len pl(1) by (simp add: mkdir_calls_def Let_def)
  obtain x t where ht: "h = x # t" using hf(1) by (cases h) auto
  have "mkdir_loop ?d 1 = mkdir_loop ?d (length h)"
    using mkdir_loop_skip [of t "[x]" "join cs"] hf(3) by (simp add: ht)
  also have "\<dots> = map (\<lambda>i. h @ join (take i cs)) [0..<length cs]" by (rule mkdir_loop_join [OF cs])
  finally show ?thesis by (simp add: calls chain_def)
qed

lemma cut_component:
  assumes "slash \<notin> set c"
  shows "dropWhile (\<lambda>x. x \<noteq> slash) (rev c @ slash # xs) = slash # xs"
  using assms by (subst dropWhile_append2) auto

lemma parent_dir_join: "component c \<Longrightarrow> parent_dir (h @ join (cs @ [c])) = h @ join cs"
  by (simp add: parent_dir_def cut_component)

lemma chain_snoc: "chain h (cs @ [c]) = chain h cs @ [h @ join (cs @ [c])]"
  by (simp add: chain_def)

lemma chain_ends: "h @ join cs \<in> set (chain h cs)"
  by (simp add: chain_def)

lemma fold_mkdir_chain:
  assumes "first_part h" and "\<forall>c \<in> set cs. component c" and "[] \<in> fs_dirs fs"
    and "\<forall>d \<in> set (chain h cs). fs_files fs d = None"
  shows "fold sys_mkdir (chain h cs) fs = fs\<lparr>fs_dirs := fs_dirs fs \<union> set (chain h cs)\<rparr>"
  using assms(2,4)
proof (induction cs rule: rev_induct)
  case Nil
  then show ?case using first_part_facts [OF assms(1)] assms(3) by (simp add: chain_def sys_mkdir_def)
next
  case (snoc c cs)
  then show ?case using chain_ends [of h cs] parent_dir_join [of c h cs] first_part_facts(1) [OF assms(1)]
    by (auto simp: chain_snoc sys_mkdir_def simp del: join_simps)
qed

lemma trailing_kept: "xs \<noteq> [] \<Longrightarrow> last xs \<noteq> slash \<Longrightarrow> rev (dropWhile (\<lambda>c. c = slash) (rev xs)) = xs"
  by (cases xs rule: rev_cases) auto

lemma dirname_path:
  assumes "component f" and "d = [] \<or> last d \<noteq> slash"
  shows "c_dirname (d @ slash # f) = InBuffer (if d = [] then [slash] else d)"
proof -
  let ?p = "d @ slash # f"
  have "last f \<noteq> slash" using assms(1) last_in_set [of f] by metis
  then have trimmed: "rev (dropWhile (\<lambda>c. c = slash) (rev ?p)) = ?p"
    using assms(1) by (intro trailing_kept) auto
  have cut: "rev (dropWhile (\<lambda>c. c \<noteq> slash) (rev ?p)) = d @ [slash]"
    using assms(1) by (simp add: cut_component)
  have "rev (dropWhile (\<lambda>c. c = slash) (rev (d @ [slash]))) = d"
    using assms(2) trailing_kept [of d] by (cases "d = []") simp_all
  then show ?thesis unfolding c_dirname_def Let_def trimmed cut by simp
qed

section \<open>Properties\<close>

text \<open>
  For a directory of at most 255 characters, absolute or relative, the program makes every missing
  directory of it, from the top down, and nothing else, so that the whole chain exists afterwards.
\<close>

lemma mkdir_makes_all_parents:
  assumes "first_part h" and "\<forall>c \<in> set cs. component c" and "length (h @ join cs) \<le> 255" and "[] \<in> fs_dirs fs"
    and "\<forall>d \<in> set (chain h cs). fs_files fs d = None"
  shows "mkdir_calls (h @ join cs) = Inr (chain h cs)"
    and "mkdir_path (h @ join cs) fs = Inr (fs\<lparr>fs_dirs := fs_dirs fs \<union> set (chain h cs)\<rparr>)"
  using mkdir_calls_path [OF assms(1-3)] fold_mkdir_chain [OF assms(1,2,4,5)] by (simp_all add: mkdir_path_def)

text \<open>
  C29: called with a path and a string, the program appends the string and a newline to the file and
  exits with success, and no other file changes. The path is absolute or relative, without
  empty components, and has a slash; its directory is the root, or it exists, or its name has at
  most 255 characters and no file has the name of a directory on the way to it; the allocation,
  the opening of the file and the writing do not fail. Exactly the missing directories on the way to
  the file are made, and none when its directory is there already.
\<close>

theorem writer_appends_line:
  assumes "first_part h" and "\<forall>c \<in> set cs. component c" and "component f" and "[] \<in> fs_dirs fs"
    and "wr_malloc_ok env" and "wr_fopen_ok env" and "\<not> wr_fprintf_fails env"
    and "dir = [] \<or> dir = h @ join cs \<and> (dir \<in> fs_dirs fs \<or>
      length dir \<le> 255 \<and> (\<forall>d \<in> set (chain h cs). fs_files fs d = None))"
  shows "writer_main env (\<lambda>d fs. d = [slash] \<or> d \<in> fs_dirs fs) [prog, dir @ slash # f, str] fs =
    Inr (0, \<lparr>fs_dirs = (if dir \<in> fs_dirs fs then fs_dirs fs else fs_dirs fs \<union> set (chain h cs)),
      fs_files = (fs_files fs)(dir @ slash # f \<mapsto>
        (case fs_files fs (dir @ slash # f) of None \<Rightarrow> [] | Some bs \<Rightarrow> bs) @ str @ [newline])\<rparr>)"
proof -
  note pl = path_last [OF assms(1,2)]
  have dn: "c_dirname (dir @ slash # f) = InBuffer (if dir = [] then [slash] else dir)"
    using pl(2) assms(8) by (intro dirname_path [OF assms(3)]) auto
  show ?thesis
  proof (cases "dir = [] \<or> dir \<in> fs_dirs fs")
    case True
    then show ?thesis using dn assms(4-7) by (auto simp: writer_main_def Let_def)
  next
    case False
    then have d: "dir = h @ join cs" "length dir \<le> 255" "\<forall>d \<in> set (chain h cs). fs_files fs d = None"
      using assms(8) by auto
    have root: "dir \<noteq> [slash]" using pl(2) d(1) by auto
    from mkdir_makes_all_parents(2) [OF assms(1,2) d(2) [unfolded d(1)] assms(4) d(3)]
    have "mkdir_path dir fs = Inr (fs\<lparr>fs_dirs := fs_dirs fs \<union> set (chain h cs)\<rparr>)" unfolding d(1) .
    then show ?thesis using dn assms(5-7) False root by (simp add: writer_main_def Let_def)
  qed
qed

text \<open>A directory that is missing below one that exists, a relative one, and the root.\<close>

theorem writer_appends_line_witness:
  "writer_main \<lparr>wr_malloc_ok = True, wr_fopen_ok = True, wr_fprintf_fails = False\<rparr> (\<lambda>d fs. d = [slash] \<or> d \<in> fs_dirs fs)
     [''writer'', ''/tmp/a/f'', ''hi''] \<lparr>fs_dirs = {[], ''/tmp''}, fs_files = [''/tmp/a/f'' \<mapsto> ''x'']\<rparr> =
     Inr (0, \<lparr>fs_dirs = {[], ''/tmp'', ''/tmp/a''}, fs_files = [''/tmp/a/f'' \<mapsto> ''xhi'' @ [newline]]\<rparr>) \<and>
   writer_main \<lparr>wr_malloc_ok = True, wr_fopen_ok = True, wr_fprintf_fails = False\<rparr> (\<lambda>d fs. d = [slash] \<or> d \<in> fs_dirs fs)
     [''writer'', ''a/f'', ''hi''] \<lparr>fs_dirs = {[]}, fs_files = (\<lambda>_. None)\<rparr> =
     Inr (0, \<lparr>fs_dirs = {[], ''a''}, fs_files = [''a/f'' \<mapsto> ''hi'' @ [newline]]\<rparr>) \<and>
   writer_main \<lparr>wr_malloc_ok = True, wr_fopen_ok = True, wr_fprintf_fails = False\<rparr> (\<lambda>d fs. d = [slash] \<or> d \<in> fs_dirs fs)
     [''writer'', ''/f'', ''hi''] \<lparr>fs_dirs = {[]}, fs_files = (\<lambda>_. None)\<rparr> =
     Inr (0, \<lparr>fs_dirs = {[]}, fs_files = [''/f'' \<mapsto> ''hi'' @ [newline]]\<rparr>)"
  using writer_appends_line [of "''/tmp''" "[''a'']" "''f''" "\<lparr>fs_dirs = {[], ''/tmp''}, fs_files = [''/tmp/a/f'' \<mapsto> ''x'']\<rparr>"
      "\<lparr>wr_malloc_ok = True, wr_fopen_ok = True, wr_fprintf_fails = False\<rparr>" "''/tmp/a''" "''writer''" "''hi''"]
    writer_appends_line [of "''a''" "[]" "''f''" "\<lparr>fs_dirs = {[]}, fs_files = (\<lambda>_. None)\<rparr>"
      "\<lparr>wr_malloc_ok = True, wr_fopen_ok = True, wr_fprintf_fails = False\<rparr>" "''a''" "''writer''" "''hi''"]
    writer_appends_line [of "''a''" "[]" "''f''" "\<lparr>fs_dirs = {[]}, fs_files = (\<lambda>_. None)\<rparr>"
      "\<lparr>wr_malloc_ok = True, wr_fopen_ok = True, wr_fprintf_fails = False\<rparr>" "[]" "''writer''" "''hi''"]
  by (simp add: first_part_def chain_def insert_commute)

text \<open>
  A path without a slash makes the program free the static string that \<open>dirname\<close> returned; a
  failing allocation makes it copy to NULL; too few arguments, or a file that cannot be opened, give
  the failure status with the files as they were.
\<close>

lemma writer_failures:
  "(slash \<notin> set file_name \<longrightarrow> writer_main env (\<lambda>d fs. True) [prog, file_name, str] fs = Inl Undefined) \<and>
   (\<not> wr_malloc_ok env \<longrightarrow> writer_main env ex [prog, path, str] fs = Inl Undefined) \<and>
   (length argv < 3 \<longrightarrow> writer_main env ex argv fs = Inr (1, fs)) \<and>
   (\<forall>fs'. \<not> wr_fopen_ok env \<longrightarrow> writer_main env ex [prog, path, str] fs = Inr (rc, fs') \<longrightarrow> rc = 1 \<and> fs_files fs' = fs_files fs)"
proof (intro conjI impI allI)
  assume "slash \<notin> set file_name"
  then have "dropWhile (\<lambda>c. c \<noteq> slash) (rev file_name) = []" "dropWhile (\<lambda>c. c = slash) (rev file_name) = rev file_name"
    by (auto simp: dropWhile_eq_Nil_conv dropWhile_eq_self_iff hd_rev dest: last_in_set)
  then have "c_dirname file_name = StaticString ''.''" by (simp add: c_dirname_def Let_def)
  then show "writer_main env (\<lambda>d fs. True) [prog, file_name, str] fs = Inl Undefined"
    by (simp add: writer_main_def Let_def)
next
  assume "\<not> wr_malloc_ok env"
  then show "writer_main env ex [prog, path, str] fs = Inl Undefined" by (simp add: writer_main_def)
next
  assume "length argv < 3"
  then show "writer_main env ex argv fs = Inr (1, fs)" by (simp add: writer_main_def)
next
  fix fs'
  assume a: "\<not> wr_fopen_ok env" "writer_main env ex [prog, path, str] fs = Inr (rc, fs')"
  have keep: "fs_files (fold sys_mkdir calls fs) = fs_files fs" for calls
    by (induction calls arbitrary: fs) (simp_all add: sys_mkdir_def)
  show "rc = 1" "fs_files fs' = fs_files fs"
    using a by (auto simp: writer_main_def Let_def mkdir_path_def andThen_Inr_iff keep split: if_splits str_ptr.splits)
qed

text \<open>
  A directory path longer than 255 characters is cut to its first 255 characters before
  anything is made, so the directory itself is never made; an empty path reads before the buffer.
\<close>

lemma mkdir_truncates:
  "(255 < length dir \<longrightarrow> (\<exists>calls. mkdir_calls dir = Inr calls \<and> dir \<notin> set calls \<and> (\<forall>p \<in> set calls. length p \<le> 255))) \<and>
   mkdir_calls [] = Inl Undefined"
proof (intro conjI impI)
  have loop: "\<forall>p \<in> set (mkdir_loop tmp i). length p \<le> length tmp" for tmp i
  proof (induction tmp i rule: mkdir_loop.induct)
    case (1 tmp p)
    then show ?case by (subst mkdir_loop.simps) auto
  qed
  assume len: "255 < length dir"
  define tmp1 where "tmp1 = (if take 255 dir ! 254 = slash then take 254 (take 255 dir) else take 255 dir)"
  have "dir \<noteq> []" using len by auto
  then have "mkdir_calls dir = Inr (mkdir_loop tmp1 1 @ [tmp1])" using len by (simp add: mkdir_calls_def Let_def tmp1_def)
  moreover have short: "\<forall>p \<in> set (mkdir_loop tmp1 1 @ [tmp1]). length p \<le> 255"
  proof -
    have l: "length tmp1 \<le> 255" using len by (simp add: tmp1_def)
    then show ?thesis using loop [of tmp1 1] by (auto intro: order_trans [OF _ l])
  qed
  moreover have "dir \<notin> set (mkdir_loop tmp1 1 @ [tmp1])" using short len by fastforce
  ultimately show "\<exists>calls. mkdir_calls dir = Inr calls \<and> dir \<notin> set calls \<and> (\<forall>p \<in> set calls. length p \<le> 255)" by blast
qed (simp add: mkdir_calls_def)

end
