(* ===== verification/Spec2Isabelle.thy ===== *)
theory Spec2Isabelle
  imports System_Properties Schedules File_Threads Driver_Calls Queue_Properties Queue_Debug Systemcalls Threading Writer
begin

text \<open>
  A verification development for the programs of this repository: a Linux character driver that
  keeps the last ten lines written to it, the socket server that stores lines in it and sends them
  back, and the smaller exercise programs.

  \<^bold>\<open>The parts and how they interact.\<close> The driver (\<open>aesd-char-driver/\<close>) keeps lines in a
  circular buffer of entries that point to kernel heap blocks. The server
  (\<open>server/aesdsocket.c\<close>) runs a thread per connection; the thread reads lines with
  \<open>server/read_line.c\<close>, writes each to the filestore (the device, or in the other configuration
  a regular file) under one mutex, and sends the whole store back. The main thread keeps the
  connections in a \<open>LIST\<close> of \<open>server/queue.h\<close>, reaps finished threads after each
  \<open>accept\<close>, and shuts down on a signal. \<open>finder-app/writer.c\<close>,
  \<open>examples/systemcalls/systemcalls.c\<close> and \<open>examples/threading/threading.c\<close> stand alone.

  \<^bold>\<open>Conventions.\<close> A C function is a HOL function from its arguments, its environment and the
  state to its result and the new state. What the program cannot foresee (allocations, user copies,
  return values of system and library calls, input, signals, thread completions) is an argument,
  collected in one environment record per function; what the properties need of it is a named
  predicate (\<open>alloc_ok\<close>, \<open>write_lawful\<close>, \<open>write_succeeds\<close>, \<open>fwrite_ok\<close>,
  \<open>fread_ok\<close>, \<open>malloc_ok\<close>), and each property has a witness in which it holds. Accesses outside an
  object, after a free or through NULL are a value: \<open>None\<close> in the driver and the list macros,
  \<open>Inl Undefined\<close> in the programs; waiting for input or a held mutex is \<open>Inl Blocked\<close>.
  Unsigned integers are words of their width (\<open>size_t\<close> and \<open>loff_t\<close> 64 bits, the buffer offsets 8
  bits); signed overflow is \<open>Undefined\<close>. Loops whose end is not structural are \<open>function\<close>s with
  a measure, or \<open>partial_function (option)\<close> where they may run forever (list traversals, the
  sending loop): then \<open>None\<close> is not returning, and the properties prove that the loops do return.
  No fuel is used. Heap blocks are bounded by \<open>block_limit\<close>, two gigabytes: the slab
  allocator refuses larger sizes, and the bound keeps the sizes inside \<open>int\<close> and \<open>size_t\<close>.

  \<^bold>\<open>Theories.\<close>
  \<^item> \<open>Prelude\<close>: integer types, errno values, \<open>last_n\<close>, lookup by offset in a concatenation
    (\<open>locate\<close>), the result type \<open>comp\<close>, and the locale \<open>bounded_history\<close>.
  \<^item> \<open>Circular_Buffer\<close>: \<open>aesd-circular-buffer.c\<close> and \<open>.h\<close>; the ring interprets
    \<open>bounded_history\<close>, so any sequence of additions keeps exactly the last ten entries; the offset
    lookup equals \<open>locate\<close>.
  \<^item> \<open>Kernel_Memory\<close>: the heap with \<open>kmalloc\<close>, \<open>krealloc\<close>, \<open>kfree\<close>, copies to and from
    user space. \<open>Char_Driver\<close>: \<open>main.c\<close> and \<open>aesdchar.h\<close> (open, release, read, write, module
    load and unload), the invariant \<open>dev_inv\<close> and the abstract view of a device: the stored lines
    and the unfinished one. \<open>Driver_Correct\<close>: refinement of the view by every operation, the error
    branches, sequences of writes. \<open>Driver_Properties\<close>: the driver's properties.
    \<open>Driver_Calls\<close>: any number of processes inside \<open>aesd_read\<close> and \<open>aesd_write\<close> at once, as a step
    relation at the grain of the kernel calls, related to serial executions of the two functions
    (\<open>serial\<close>, \<open>stage\<close>) and to the abstract device (\<open>spec_call\<close>).
  \<^item> \<open>Link_Chains\<close>: pointer slots and chains of elements, with the effect of splicing.
    \<open>Intrusive_Lists\<close>: the iteration macros and the locales \<open>list_walk\<close>, \<open>intrusive_list\<close> and
    \<open>tail_queue\<close>, the contracts of the list families of \<open>server/queue.h\<close>, with building,
    visiting, filtering and queueing proved in them. \<open>Queue_List\<close>, \<open>Queue_Slist\<close>,
    \<open>Queue_Stailq\<close>, \<open>Queue_Tailq\<close>: every macro of a family on a store of nodes, its
    refinement of lists of elements with a frame for other lists, and the interpretations (the
    \<open>TAILQ\<close> family also walks its queues backwards). \<open>Queue_Properties\<close> and
    \<open>Queue_Tail_Properties\<close>: their properties. \<open>Queue_Debug\<close>: the \<open>QUEUE_MACRO_DEBUG\<close>
    configuration, in which removals overwrite the links of the removed element and the tail queues
    keep traces; the locale \<open>link_trashing\<close> extends \<open>intrusive_list\<close> and all four families
    interpret it.
  \<^item> \<open>Read_Line\<close>: \<open>read_line.c\<close> over the answers of its reads.
  \<^item> \<open>Filestore\<close>: both configurations of the filestore functions of \<open>aesdsocket.c\<close> and the timer
    thread, the system calls on the device (a call the driver interrupts with \<open>-ERESTARTSYS\<close> is
    restarted, since the handlers are installed with \<open>signal\<close>), with the locale \<open>byte_source\<close> for the sending loop. \<open>Line_Store\<close>: the locale
    \<open>line_store\<close>, the interface between filestore and connection thread. \<open>Filestore_Correct\<close>: both
    configurations interpret both locales; the failure paths.
  \<^item> \<open>Connection\<close>: \<open>handle_connection\<close>, proved once against \<open>line_store\<close>.
    \<open>Connection_Properties\<close>: the properties for the device and the file.
  \<^item> \<open>Threads\<close>: any number of connection threads as an interleaving step relation at the grain of
    system calls, with failing receives, short sends, clients going away in the middle of an echo,
    failing opens and the signal handler at any time; mutual exclusion, order of writes, consistent snapshots, absence
    of deadlock, termination of every schedule; and what a failing write does to all threads.
    \<open>Schedules\<close>: the filestore calls and the whole of \<open>handle_connection\<close> are schedules of these
    steps, so the steps are those of the functions. \<open>File_Threads\<close>: the threads of the file
    configuration with the timer thread, which share one descriptor and its position, with failing
    writes, which leave the mutex locked, and failing reads.
  \<^item> \<open>Server\<close>: the main thread: items and their memory, signal handler, accept loop, startup,
    shutdown. \<open>Server_Correct\<close>: the memory invariant \<open>server_wf\<close> and its preservation; the
    connection list interprets \<open>intrusive_list\<close> again. \<open>Server_Properties\<close>: the properties.
  \<^item> \<open>System\<close>: the whole process, the main thread of \<open>Server\<close> in steps (also inside the reaping and
    the final pass) interleaved with the threads of \<open>Threads\<close> that it starts and joins, failing
    writes and signals; descriptors, addresses and thread identifiers are used again when free.
    \<open>System_Correct\<close>: the invariants of the process (\<open>sys_inv\<close> for memory and threads,
    \<open>store_inv\<close> for the filestore), progress of the passes, and the reaping pass of \<open>Server\<close>
    as a sequence of steps. \<open>System_Properties\<close>: the properties.
  \<^item> \<open>Systemcalls\<close>, \<open>Threading\<close>, \<open>Writer\<close>: the exercise programs with their properties:
    the loop that fills the argument vector from the variable arguments, element by element; the
    structure laid out from the sizes and alignments of its fields, on any platform; the directories of
    absolute and relative paths.

  \<^bold>\<open>What the properties show.\<close> The central ones: a served client leaves on the device the last
  ten complete lines of everything written and receives the store after each line; device writes
  refine their specification, device reads return the stored bytes and stay in bounds, and what is
  written line by line is read back with buffers of any sizes; calls of any number of processes are
  linearizable, no access of theirs leaves a block, and the lock of the device is released on every
  path, as long as no allocation has failed;
  the ring, the lookup and the line
  reader do what their comments say; every macro of the four list families acts on the represented
  list, empty or not, as named, the traversals end and visit it in order, the consistency checks hold exactly of
  well-formed lists, and the tail queues are first-in first-out; with overwritten links every removal
  still does, while removing twice and going on from a removed element are caught. Of the whole process, in every
  interleaving: lines are stored in order and echoes are snapshots of the store, a thread's data is
  freed only after the thread has returned, nothing freed is touched before the final pass, the
  reaping pass ends, and the sequential reaping pass is one of its schedules. The
  connection handler is a schedule of the steps of its thread; in the file configuration the file
  grows by the lines and timestamps in their order until a write fails. A forked child becomes the
  command with exactly the counted arguments. Others
  describe where the code does not do what it means to: all threads stopped for good by one failing
  write, a buffer overrun after a failing read, an evicted line leaked, bytes after a newline
  dropped, heap memory exposed after a failing \<open>krealloc\<close>, the use after free at shutdown,
  success reported after a failing \<open>bind\<close>, indeterminate results of \<open>do_exec\<close>, an
  undersized allocation, a \<open>free\<close> of a static string.

  \<^bold>\<open>What is not modelled.\<close> Logging and debug output (including that printing a buffer without a
  terminating null reads past it); scripts, build files and tests; of \<open>queue.h\<close> the C++ variants
  of the declarations; the redirection of the standard streams of the daemon; links, dot components
  and permissions of the file system the writer sees; the constant functions of \<open>examples/autotest-validate\<close>. In \<open>Threads\<close> and
  \<open>System\<close> a device read that fails in the sending loop, while the client is there, is no step:
  what happens then is undefined behaviour, shown for the sequential \<open>filestore_read_to_dest\<close> at
  every turn of the loop; in \<open>File_Threads\<close> it leads to a place from which nothing follows. There
  the mutex operations do not return errors and \<open>lseek\<close> of the file succeeds; and the numbers of
  sockets and of open device files are counted apart, so that closing the listening socket a
  second time, after a signal, hits no other file. In \<open>Driver_Calls\<close> every process
  has a file of its own; a position shared by two threads of a process is not modelled, since the
  kernel serialises the calls on one open file itself. Beyond these, every function and macro of the programs is
  modelled.
\<close>

end
